(* ===== verification/Prelude.thy ===== *)
theory Prelude
  imports Main "HOL-Library.Word"
begin

unbundle bit_operations_syntax

text \<open>
  Shared vocabulary of the development: machine integers, Go's failure modes (returned errors
  and panics) as values, checked slice access, and the generic list and word facts that several
  components use.
\<close>

section \<open>Machine types\<close>

type_synonym byte = "8 word"
type_synonym uint8 = "8 word"
type_synonym uint16 = "16 word"
type_synonym uint32 = "32 word"
type_synonym uint64 = "64 word"

text \<open>Go's \<open>int\<close> on the 64-bit targets the node is built for: two's complement, read by \<open>sint\<close>.\<close>

type_synonym goint = "64 word"

text \<open>A \<open>[32]byte\<close> array (\<open>common.Hash\<close>).\<close>

type_synonym Hash32 = "byte list"

section \<open>Errors and panics as values\<close>

text \<open>
  A Go call either returns its results, returns an error, or panics. \<open>Err\<close> is a returned
  error with the text the source gives it, \<open>Panic\<close> a run-time panic (a slice access out of
  range, a nil dereference, a division by zero).
\<close>

datatype error = Err string | Panic string

type_synonym 'a result = "error + 'a"

definition rbind :: "'a result \<Rightarrow> ('a \<Rightarrow> 'b result) \<Rightarrow> 'b result" where
  "rbind r f = (case r of Inl e \<Rightarrow> Inl e | Inr x \<Rightarrow> f x)"

text \<open>Reading a slice: an index out of range panics.\<close>

definition idx :: "'a list \<Rightarrow> nat \<Rightarrow> 'a result" where
  "idx xs i = (if i < length xs then Inr (xs ! i) else Inl (Panic ''index out of range''))"

text \<open>Writing to a slice element: an index out of range panics.\<close>

definition setidx :: "'a list \<Rightarrow> nat \<Rightarrow> 'a \<Rightarrow> 'a list result" where
  "setidx xs i x =
     (if i < length xs then Inr (xs[i := x]) else Inl (Panic ''index out of range''))"

text \<open>Reading through a pointer: nil panics.\<close>

definition deref :: "'a option \<Rightarrow> 'a result" where
  "deref p = (case p of None \<Rightarrow> Inl (Panic ''nil pointer dereference'') | Some x \<Rightarrow> Inr x)"

text \<open>\<open>Uint64\<close> of a \<open>big.Int\<close> reads the low 64 bits of the magnitude.\<close>

definition big_Uint64 :: "int \<Rightarrow> uint64" where
  "big_Uint64 x = of_int \<bar>x\<bar>"

text \<open>\<open>common.BytesToHash\<close>: crop from the left or pad with zeroes on the left to 32 bytes.\<close>

definition BytesToHash :: "byte list \<Rightarrow> Hash32" where
  "BytesToHash b =
     (if length b > 32 then drop (length b - 32) b else replicate (32 - length b) 0 @ b)"

section \<open>Automation shared by the components\<close>

named_theorems result_simps \<open>evaluation of results and checked slice accesses\<close>

lemma rbind_Inr [simp]: "rbind (Inr x) f = f x"
  by (simp add: rbind_def)

lemma rbind_Inl [simp]: "rbind (Inl e) f = Inl e"
  by (simp add: rbind_def)

lemma rbind_eq_Inl: "rbind r f = Inl e \<longleftrightarrow> r = Inl e \<or> (\<exists>x. r = Inr x \<and> f x = Inl e)"
  by (cases r) simp_all

lemma rbind_eq_Inr: "rbind r f = Inr y \<longleftrightarrow> (\<exists>x. r = Inr x \<and> f x = Inr y)"
  by (cases r) auto

lemma deref_Some [simp]: "deref (Some x) = Inr x"
  by (simp add: deref_def)

lemma deref_None [simp]: "deref None = Inl (Panic ''nil pointer dereference'')"
  by (simp add: deref_def)

lemma idx_in [result_simps]: "i < length xs \<Longrightarrow> idx xs i = Inr (xs ! i)"
  by (simp add: idx_def)

lemma idx_eq_Inr: "idx xs i = Inr x \<longleftrightarrow> i < length xs \<and> xs ! i = x"
  by (auto simp: idx_def)

lemma setidx_in [result_simps]: "i < length xs \<Longrightarrow> setidx xs i x = Inr (xs[i := x])"
  by (simp add: setidx_def)

lemma BytesToHash_32 [simp]: "length b = 32 \<Longrightarrow> BytesToHash b = b"
  by (simp add: BytesToHash_def)

lemma length_BytesToHash [simp]: "length (BytesToHash b) = 32"
  by (simp add: BytesToHash_def)

lemma unat_of_nat_small: "n < 2 ^ LENGTH('a) \<Longrightarrow> unat (of_nat n :: 'a::len word) = n"
  by (simp add: unsigned_of_nat take_bit_nat_eq_self)

lemma odd_unat: "odd (unat (w :: 'a::len word)) \<longleftrightarrow> odd w"
  using bit_unsigned_iff [of w 0, where ?'a = nat] by (simp add: bit_0)

lemma word_mod2_odd: "(w :: 'a::len word) mod 2 = 1 \<longleftrightarrow> odd (unat w)"
  using odd_iff_mod_2_eq_one [of w] by (simp only: odd_unat)

text \<open>The simplifier turns \<open>push_bit h 1\<close> into \<open>2 ^ h\<close>, so the bit test is stated on the latter.\<close>

lemma bit_test: "(0 :: 'a::len word) < w AND 2 ^ h \<longleftrightarrow> bit w h"
  by (simp add: bit_iff_and_push_bit_not_eq_0 word_neq_0_conv)

lemma bit_of_nat_odd:
  assumes "n < 2 ^ LENGTH('a)"
  shows "bit (of_nat n :: 'a::len word) h \<longleftrightarrow> odd (n div 2 ^ h)"
proof -
  have "bit (of_nat n :: 'a word) h \<longleftrightarrow> bit (unat (of_nat n :: 'a word)) h"
    by (simp add: bit_unsigned_iff)
  then show ?thesis using assms by (simp add: unat_of_nat_small bit_iff_odd)
qed

section \<open>Big-endian byte strings as numbers\<close>

text \<open>The value \<open>big.Int.SetBytes\<close> gives a byte slice: big-endian, base 256.\<close>

definition SetBytes :: "byte list \<Rightarrow> nat" where
  "SetBytes bs = foldl (\<lambda>a b. a * 256 + unat b) 0 bs"

lemma foldl_SetBytes:
  "foldl (\<lambda>a b. a * 256 + unat (b :: byte)) a bs = a * 256 ^ length bs + SetBytes bs"
proof (induction bs arbitrary: a)
  case (Cons b bs)
  have "SetBytes (b # bs) = unat b * 256 ^ length bs + SetBytes bs"
    using Cons [of "unat b"] by (simp only: SetBytes_def foldl.simps mult_0 add_0)
  with Cons [of "a * 256 + unat b"] show ?case
    by (simp only: foldl.simps) (simp add: algebra_simps)
qed (simp add: SetBytes_def)

lemma SetBytes_Nil [simp]: "SetBytes [] = 0"
  by (simp add: SetBytes_def)

lemma SetBytes_Cons: "SetBytes (b # bs) = unat b * 256 ^ length bs + SetBytes bs"
  using foldl_SetBytes [of "unat b" bs] by (simp add: SetBytes_def)

lemma SetBytes_append: "SetBytes (xs @ ys) = SetBytes xs * 256 ^ length ys + SetBytes ys"
  using foldl_SetBytes [of "SetBytes xs" ys] by (simp add: SetBytes_def)

lemma byte_less: "unat (b :: byte) < 256"
  using unsigned_less [of b, where ?'a = nat] by simp

lemma SetBytes_less: "SetBytes bs < 256 ^ length bs"
proof (induction bs)
  case (Cons b bs)
  have "unat b * 256 ^ length bs + SetBytes bs < (unat b + 1) * 256 ^ length bs"
    using Cons by simp
  also have "\<dots> \<le> 256 * 256 ^ length bs"
    using byte_less [of b] by (intro mult_right_mono) linarith+
  finally show ?case by (simp add: SetBytes_Cons)
qed simp

lemma pair_less:
  assumes "b < M" "d < (M :: nat)"
  shows "a * M + b < c * M + d \<longleftrightarrow> a < c \<or> (a = c \<and> b < d)"
proof (cases a c rule: linorder_cases)
  case less
  then have "(a + 1) * M \<le> c * M" by (intro mult_right_mono) simp_all
  with less assms show ?thesis by simp
next
  case greater
  then have "(c + 1) * M \<le> a * M" by (intro mult_right_mono) simp_all
  with greater assms show ?thesis by simp
qed simp

lemma SetBytes_lexord:
  "length xs = length ys \<Longrightarrow>
   (xs, ys) \<in> lexord {(a, b). a < b} \<longleftrightarrow> SetBytes xs < SetBytes ys"
proof (induction xs ys rule: list_induct2)
  case (Cons x xs y ys)
  have "SetBytes (x # xs) < SetBytes (y # ys) \<longleftrightarrow> x < y \<or> (x = y \<and> SetBytes xs < SetBytes ys)"
    using pair_less [OF SetBytes_less [of xs] SetBytes_less [of ys, folded Cons.hyps]] Cons.hyps
    by (simp add: SetBytes_Cons word_less_nat_alt word_unat_eq_iff)
  with Cons.IH show ?case by simp
qed simp

lemma SetBytes_inj:
  assumes "length xs = length ys" "SetBytes xs = SetBytes ys"
  shows "xs = ys"
  using assms
proof (induction xs ys rule: list_induct2)
  case (Cons x xs y ys)
  have "SetBytes xs < 256 ^ length xs" "SetBytes ys < 256 ^ length xs"
    using SetBytes_less [of xs] SetBytes_less [of ys] Cons.hyps by simp_all
  from pair_less [OF this, of "unat x" "unat y"] pair_less [OF this(2,1), of "unat y" "unat x"]
  have "unat x = unat y \<and> SetBytes xs = SetBytes ys"
    using Cons.prems Cons.hyps by (simp add: SetBytes_Cons) arith
  then show ?case using Cons.IH by (simp add: word_unat_eq_iff)
qed simp

lemma SetBytes_zeros [simp]: "SetBytes (replicate n 0 @ bs) = SetBytes bs"
  by (induction n) (simp_all add: SetBytes_Cons)

lemma drop_bit_small: "unat (w :: 'a::len word) < 2 ^ k \<Longrightarrow> k \<le> n \<Longrightarrow> drop_bit n w = 0"
proof -
  assume "unat w < 2 ^ k" "k \<le> n"
  then have "unat w < 2 ^ n" by (metis less_le_trans one_le_numeral power_increasing)
  then have "unat (drop_bit n w) = 0" unfolding unat_drop_bit_eq by (simp add: drop_bit_eq_div)
  then show ?thesis by (simp only: unat_eq_0)
qed

text \<open>\<open>big.Int.Bytes\<close>: big-endian, without leading zeroes.\<close>

fun big_Bytes :: "nat \<Rightarrow> byte list" where
  "big_Bytes n = (if n = 0 then [] else big_Bytes (n div 256) @ [of_nat n])"

declare big_Bytes.simps [simp del]

lemma big_Bytes_0 [simp]: "big_Bytes 0 = []"
  by (simp add: big_Bytes.simps)

lemma big_Bytes_pos: "0 < n \<Longrightarrow> big_Bytes n = big_Bytes (n div 256) @ [of_nat n]"
  by (subst big_Bytes.simps) simp

lemma unat_of_nat_byte: "unat (of_nat n :: byte) = n mod 256"
  by (simp add: unsigned_of_nat take_bit_eq_mod)

lemma SetBytes_big_Bytes [simp]: "SetBytes (big_Bytes n) = n"
proof (induction n rule: big_Bytes.induct)
  case (1 n)
  then show ?case
    by (cases "n = 0") (simp_all add: big_Bytes_pos SetBytes_append SetBytes_Cons unat_of_nat_byte)
qed

lemma hd_big_Bytes: "0 < n \<Longrightarrow> big_Bytes n \<noteq> [] \<and> hd (big_Bytes n) \<noteq> 0"
proof (induction n rule: big_Bytes.induct)
  case (1 n)
  note e = big_Bytes_pos [OF 1(2)]
  show ?case
  proof (cases "n div 256 = 0")
    case True
    then have "of_nat n \<noteq> (0 :: byte)" using 1(2) unat_of_nat_byte [of n] by auto
    then show ?thesis by (simp add: e True)
  next
    case False
    then show ?thesis using 1 by (simp add: e)
  qed
qed

lemma SetBytes_ge: "b \<noteq> [] \<Longrightarrow> hd b \<noteq> 0 \<Longrightarrow> 256 ^ (length b - 1) \<le> SetBytes b"
  by (cases b) (auto simp: SetBytes_Cons unat_gt_0 Suc_le_eq intro: trans_le_add1)

lemma length_big_Bytes: "n < 256 ^ k \<Longrightarrow> length (big_Bytes n) \<le> k"
proof (cases "n = 0")
  case False
  assume n: "n < 256 ^ k"
  have "256 ^ (length (big_Bytes n) - 1) \<le> n"
    using SetBytes_ge [of "big_Bytes n"] hd_big_Bytes [of n] False by simp
  then have "(256 :: nat) ^ (length (big_Bytes n) - 1) < 256 ^ k" using n by (rule le_less_trans)
  then have "length (big_Bytes n) - 1 < k" by simp
  then show ?thesis by linarith
qed simp

section \<open>Hexadecimal digits\<close>

definition hex_digit :: "nat \<Rightarrow> char" where
  "hex_digit d = char_of (if d < 10 then 48 + d else 87 + d)"

text \<open>A number in base 16, as \<open>fmt.Sprintf("%x", n)\<close> and \<open>big.Int.Append\<close> write it.\<close>

fun hex_nat :: "nat \<Rightarrow> string" where
  "hex_nat n = (if n < 16 then [hex_digit n] else hex_nat (n div 16) @ [hex_digit (n mod 16)])"

declare hex_nat.simps [simp del]

text \<open>The value of a digit, lower or upper case.\<close>

definition fromHexChar :: "char \<Rightarrow> nat option" where
  "fromHexChar c =
     (let n = of_char c :: nat in
      if 48 \<le> n \<and> n \<le> 57 then Some (n - 48)
      else if 97 \<le> n \<and> n \<le> 102 then Some (n - 97 + 10)
      else if 65 \<le> n \<and> n \<le> 70 then Some (n - 65 + 10)
      else None)"

text \<open>\<open>hex.Decode\<close>: the bytes decoded before the first pair that is not two digits.\<close>

fun hex_Decode :: "string \<Rightarrow> byte list" where
  "hex_Decode (a # b # cs) =
     (case (fromHexChar a, fromHexChar b) of
        (Some x, Some y) \<Rightarrow> of_nat (x * 16 + y) # hex_Decode cs
      | _ \<Rightarrow> [])"
| "hex_Decode _ = []"

lemma fromHexChar_hex_digit [simp]: "d < 16 \<Longrightarrow> fromHexChar (hex_digit d) = Some d"
  by (simp add: fromHexChar_def hex_digit_def Let_def)

text \<open>The value of a string of digits.\<close>

definition hex_value :: "string \<Rightarrow> nat" where
  "hex_value cs = foldl (\<lambda>a c. a * 16 + the (fromHexChar c)) 0 cs"

definition hex_string :: "string \<Rightarrow> bool" where
  "hex_string cs \<longleftrightarrow> (\<forall>c\<in>set cs. \<exists>d<16. fromHexChar c = Some d)"

lemma foldl_hex_value:
  "foldl (\<lambda>a c. a * 16 + the (fromHexChar c)) a cs = a * 16 ^ length cs + hex_value cs"
proof (induction cs arbitrary: a)
  case (Cons c cs)
  have "hex_value (c # cs) = the (fromHexChar c) * 16 ^ length cs + hex_value cs"
    using Cons [of "the (fromHexChar c)"] by (simp only: hex_value_def foldl.simps mult_0 add_0)
  with Cons [of "a * 16 + the (fromHexChar c)"] show ?case
    by (simp only: foldl.simps) (simp add: algebra_simps)
qed (simp add: hex_value_def)

lemma hex_value_Nil [simp]: "hex_value [] = 0"
  by (simp add: hex_value_def)

lemma hex_value_Cons: "hex_value (c # cs) = the (fromHexChar c) * 16 ^ length cs + hex_value cs"
  using foldl_hex_value [of "the (fromHexChar c)" cs] by (simp add: hex_value_def)

lemma hex_value_append: "hex_value (xs @ ys) = hex_value xs * 16 ^ length ys + hex_value ys"
  using foldl_hex_value [of "hex_value xs" ys] by (simp add: hex_value_def)

lemma hex_string_Cons [simp]: "hex_string (c # cs) \<longleftrightarrow> (\<exists>d<16. fromHexChar c = Some d) \<and> hex_string cs"
  by (auto simp: hex_string_def)

lemma hex_string_append [simp]: "hex_string (xs @ ys) \<longleftrightarrow> hex_string xs \<and> hex_string ys"
  by (auto simp: hex_string_def)

lemma hex_string_Nil [simp]: "hex_string []"
  by (simp add: hex_string_def)

lemma hex_string_hex_nat [simp]: "hex_string (hex_nat n)"
proof (induction n rule: hex_nat.induct)
  case (1 n)
  then show ?case by (subst hex_nat.simps) simp
qed

lemma hex_value_hex_nat [simp]: "hex_value (hex_nat n) = n"
proof (induction n rule: hex_nat.induct)
  case (1 n)
  then show ?case by (subst hex_nat.simps) (simp add: hex_value_append hex_value_Cons)
qed

lemma hex_nat_not_Nil [simp]: "hex_nat n \<noteq> []"
  by (subst hex_nat.simps) simp

lemma hex_Decode_value:
  "hex_string cs \<Longrightarrow> even (length cs) \<Longrightarrow> SetBytes (hex_Decode cs) = hex_value cs \<and> 2 * length (hex_Decode cs) = length cs"
proof (induction cs rule: hex_Decode.induct)
  case (1 a b cs)
  then obtain x y where d: "fromHexChar a = Some x" "fromHexChar b = Some y" "x < 16" "y < 16" by auto
  then have "unat (of_nat (x * 16 + y) :: byte) = x * 16 + y" by (intro unat_of_nat_small) simp
  moreover have IH: "SetBytes (hex_Decode cs) = hex_value cs" "2 * length (hex_Decode cs) = length cs"
    using 1 d by simp_all
  moreover have "(256::nat) ^ length (hex_Decode cs) = 16 ^ length cs"
    using power_mult [of "16::nat" 2 "length (hex_Decode cs)"] IH(2) by simp
  ultimately show ?case using d by (simp add: SetBytes_Cons hex_value_Cons algebra_simps)
qed simp_all

section \<open>Decimal digits\<close>

fun dec_nat :: "nat \<Rightarrow> string" where
  "dec_nat n = (if n < 10 then [hex_digit n] else dec_nat (n div 10) @ [hex_digit (n mod 10)])"

declare dec_nat.simps [simp del]

lemma hex_digit_inject: "i < 10 \<Longrightarrow> j < 10 \<Longrightarrow> hex_digit i = hex_digit j \<longleftrightarrow> i = j"
  by (auto simp: hex_digit_def)

lemma dec_nat_inject: "dec_nat m = dec_nat n \<Longrightarrow> m = n"
proof (induction m arbitrary: n rule: dec_nat.induct)
  case (1 m)
  have ne: "dec_nat x \<noteq> []" "[] \<noteq> dec_nat x" for x by (subst dec_nat.simps, simp)+
  show ?case
  proof (cases "m < 10 \<or> n < 10")
    case True
    then show ?thesis
      using 1(2) ne hex_digit_inject by (subst (asm) (1 2) dec_nat.simps) (auto split: if_splits)
  next
    case False
    then have "dec_nat (m div 10) @ [hex_digit (m mod 10)] = dec_nat (n div 10) @ [hex_digit (n mod 10)]"
      using 1(2) by (subst (asm) (1 2) dec_nat.simps) simp
    then have "m div 10 = n div 10" "m mod 10 = n mod 10" using 1(1) False hex_digit_inject by auto
    then show ?thesis by (metis div_mult_mod_eq)
  qed
qed

end
