(* ===== verification/L1InfoTree.thy ===== *)
theory L1InfoTree
  imports Prelude
begin

unbundle bit_operations_syntax

text \<open>
  The append-only Merkle tree over the global exit roots (\<open>zk/l1infotree/tree.go\<close>,
  \<open>zk/l1infotree/hash.go\<close>). The Keccak function of \<open>golang.org/x/crypto\<close> is the parameter
  \<open>keccak\<close> of every definition. The reference semantics is \<open>mr\<close>, the root of a perfect tree of
  the given height whose missing leaves are zero; \<open>BuildL1InfoRoot\<close>, \<open>ComputeMerkleProof\<close> and
  the incremental \<open>AddLeaf\<close> are proved to compute it.
\<close>

section \<open>The code\<close>

type_synonym keccak = "byte list \<Rightarrow> byte list"

record L1InfoTree =
  height :: uint8
  zeroHashes :: "Hash32 list"
  count :: uint32
  siblings :: "Hash32 list"
  currentRoot :: Hash32
  allLeaves :: "Hash32 set"

definition Hash :: "keccak \<Rightarrow> Hash32 list \<Rightarrow> Hash32" where
  "Hash keccak data = keccak (concat data)"

text \<open>The loop of \<open>generateZeroHashes\<close>; \<open>i\<close> runs from 1 to \<open>height\<close>.\<close>

function zeroHashes_loop :: "keccak \<Rightarrow> nat \<Rightarrow> nat \<Rightarrow> Hash32 list \<Rightarrow> Hash32 list" where
  "zeroHashes_loop keccak h i zs =
     (if i \<le> h then zeroHashes_loop keccak h (Suc i) (zs @ [Hash keccak [zs ! (i - 1), zs ! (i - 1)]])
      else zs)"
  by pat_completeness auto
termination
  by (relation "measure (\<lambda>(keccak, h, i, zs). Suc h - i)") auto

definition generateZeroHashes :: "keccak \<Rightarrow> uint8 \<Rightarrow> Hash32 list" where
  "generateZeroHashes keccak h = zeroHashes_loop keccak (unat h) 1 [replicate 32 0]"

fun buildIntermediate :: "keccak \<Rightarrow> Hash32 list \<Rightarrow> (Hash32 list list \<times> Hash32 list) result" where
  "buildIntermediate keccak [] = Inr ([], [])"
| "buildIntermediate keccak [l] = Inl (Panic ''index out of range'')"
| "buildIntermediate keccak (l # r # leaves) =
     rbind (buildIntermediate keccak leaves)
       (\<lambda>(nodes, hashes). let hash = Hash keccak [l, r] in Inr ([hash, l, r] # nodes, hash # hashes))"

text \<open>The loop over the levels of \<open>BuildL1InfoRoot\<close>; \<open>ns\<close> are the nodes of the last level built.\<close>

function build_loop ::
  "keccak \<Rightarrow> L1InfoTree \<Rightarrow> nat \<Rightarrow> Hash32 list list \<Rightarrow> Hash32 list \<Rightarrow> (Hash32 list list \<times> Hash32 list) result" where
  "build_loop keccak mt h ns leaves =
     (if h < unat (height mt) then
        rbind (if odd (length leaves) then rbind (idx (zeroHashes mt) h) (\<lambda>z. Inr (leaves @ [z])) else Inr leaves)
          (\<lambda>padded. rbind (buildIntermediate keccak padded)
             (\<lambda>(ns', leaves'). build_loop keccak mt (Suc h) ns' leaves'))
      else Inr (ns, leaves))"
  by pat_completeness auto
termination
  by (relation "measure (\<lambda>(keccak, mt, h, ns, leaves). unat (height mt) - h)") auto

definition BuildL1InfoRoot :: "keccak \<Rightarrow> L1InfoTree \<Rightarrow> Hash32 list \<Rightarrow> Hash32 result" where
  "BuildL1InfoRoot keccak mt leaves =
     rbind (if leaves = [] then rbind (idx (zeroHashes mt) 0) (\<lambda>z. Inr [z]) else Inr leaves)
       (\<lambda>leaves. rbind (build_loop keccak mt 0 [] leaves)
          (\<lambda>(ns, _). if length ns \<noteq> 1 then Inl (Err ''error: more than one root detected'')
                      else rbind (idx (ns ! 0) 0) (\<lambda>b. Inr (BytesToHash b))))"

text \<open>
  The loop of \<open>ComputeMerkleProof\<close>: \<open>float64(index) / 2\<close> truncated to \<open>uint32\<close> is the exact
  quotient, as every \<open>uint32\<close> is a \<open>float64\<close>.
\<close>

function proof_loop ::
  "keccak \<Rightarrow> L1InfoTree \<Rightarrow> nat \<Rightarrow> uint32 \<Rightarrow> Hash32 list \<Rightarrow> Hash32 list list \<Rightarrow> Hash32 list
     \<Rightarrow> (Hash32 list \<times> Hash32 list list) result" where
  "proof_loop keccak mt h index sibs ns leaves =
     (if h < unat (height mt) then
        rbind (if odd (length leaves) then rbind (idx (zeroHashes mt) h) (\<lambda>z. Inr (leaves @ [z])) else Inr leaves)
          (\<lambda>padded. rbind (if index \<ge> of_nat (length padded) then idx (zeroHashes mt) h
                            else if index mod 2 = 1 then idx padded (unat (index - 1))
                            else idx padded (unat (index + 1)))
             (\<lambda>s. rbind (buildIntermediate keccak padded)
                (\<lambda>(nsi, hashes). proof_loop keccak mt (Suc h) (index div 2) (sibs @ [s]) nsi hashes)))
      else Inr (sibs, ns))"
  by pat_completeness auto
termination
  by (relation "measure (\<lambda>(keccak, mt, h, index, sibs, ns, leaves). unat (height mt) - h)") auto

definition ComputeMerkleProof ::
  "keccak \<Rightarrow> L1InfoTree \<Rightarrow> uint32 \<Rightarrow> Hash32 list \<Rightarrow> (Hash32 list \<times> Hash32) result" where
  "ComputeMerkleProof keccak mt gerIndex leaves =
     rbind (if leaves = [] then rbind (idx (zeroHashes mt) 0) (\<lambda>z. Inr [z]) else Inr leaves)
       (\<lambda>leaves. rbind (proof_loop keccak mt 0 gerIndex [] [] leaves)
          (\<lambda>(sibs, ns). if length ns \<noteq> 1 then Inl (Err ''error: more than one root detected'')
                         else rbind (idx (ns ! 0) 0) (\<lambda>b. Inr (sibs, BytesToHash b))))"

text \<open>The loop of \<open>AddLeaf\<close>: the running hash, the filled-subtree flag and the sibling array.\<close>

function addLeaf_loop ::
  "keccak \<Rightarrow> L1InfoTree \<Rightarrow> uint32 \<Rightarrow> nat \<Rightarrow> Hash32 \<Rightarrow> bool \<Rightarrow> Hash32 list \<Rightarrow> (Hash32 \<times> Hash32 list) result" where
  "addLeaf_loop keccak mt index h cur filled sibs =
     (if h < unat (height mt) then
        (if index AND push_bit h 1 > 0 then
           rbind (idx sibs h) (\<lambda>s. addLeaf_loop keccak mt index (Suc h) (Hash keccak [s, cur]) filled sibs)
         else
           rbind (if filled then setidx sibs h cur else Inr sibs)
             (\<lambda>sibs'. rbind (idx (zeroHashes mt) h)
                (\<lambda>z. addLeaf_loop keccak mt index (Suc h) (Hash keccak [cur, z]) False sibs')))
      else Inr (cur, sibs))"
  by pat_completeness auto
termination
  by (relation "measure (\<lambda>(keccak, mt, index, h, cur, filled, sibs). unat (height mt) - h)") auto

definition AddLeaf :: "keccak \<Rightarrow> L1InfoTree \<Rightarrow> uint32 \<Rightarrow> Hash32 \<Rightarrow> (Hash32 \<times> L1InfoTree) result" where
  "AddLeaf keccak mt index leaf =
     (if index \<noteq> count mt then Inl (Err ''mismatched leaf count'')
      else rbind (addLeaf_loop keccak mt index 0 leaf True (siblings mt))
        (\<lambda>(cur, sibs).
           Inr (cur, mt\<lparr>siblings := sibs, allLeaves := insert leaf (allLeaves mt),
                         currentRoot := cur, count := count mt + 1\<rparr>)))"

definition LeafExists :: "L1InfoTree \<Rightarrow> Hash32 \<Rightarrow> bool" where
  "LeafExists mt leaf \<longleftrightarrow> leaf \<in> allLeaves mt"

definition initSiblings ::
  "keccak \<Rightarrow> L1InfoTree \<Rightarrow> Hash32 list \<Rightarrow> (Hash32 list \<times> Hash32) result" where
  "initSiblings keccak mt initialLeaves =
     (if count mt \<noteq> of_nat (length initialLeaves) then
        Inl (Err ''error: mt.count and initialLeaves length mismatch'')
      else if count mt = 0 then
        rbind (if unat (height mt) \<le> length (zeroHashes mt)
               then Inr (map (\<lambda>h. zeroHashes mt ! h) [0 ..< unat (height mt)])
               else Inl (Panic ''index out of range''))
          (\<lambda>sibs. rbind (BuildL1InfoRoot keccak mt initialLeaves) (\<lambda>root. Inr (sibs, root)))
      else ComputeMerkleProof keccak mt (count mt) initialLeaves)"

definition NewL1InfoTree :: "keccak \<Rightarrow> uint8 \<Rightarrow> Hash32 list \<Rightarrow> L1InfoTree result" where
  "NewL1InfoTree keccak h initialLeaves =
     (let mt = \<lparr>height = h, zeroHashes = generateZeroHashes keccak h,
                count = of_nat (length initialLeaves), siblings = [], currentRoot = replicate 32 0,
                allLeaves = {}\<rparr>
      in rbind (initSiblings keccak mt initialLeaves)
           (\<lambda>(sibs, root). Inr (mt\<lparr>siblings := sibs, currentRoot := root,
                                    allLeaves := set initialLeaves\<rparr>)))"

text \<open>\<open>ResetL1InfoTree\<close> ignores its receiver and always builds a tree of height 32.\<close>

definition ResetL1InfoTree :: "keccak \<Rightarrow> L1InfoTree \<Rightarrow> Hash32 list \<Rightarrow> L1InfoTree result" where
  "ResetL1InfoTree keccak _ initialLeaves =
     (let newMT = \<lparr>height = 32, zeroHashes = generateZeroHashes keccak 32,
                   count = of_nat (length initialLeaves), siblings = [], currentRoot = replicate 32 0,
                   allLeaves = {}\<rparr>
      in rbind (initSiblings keccak newMT initialLeaves)
           (\<lambda>(sibs, root). Inr (newMT\<lparr>siblings := sibs, currentRoot := root,
                                       allLeaves := set initialLeaves\<rparr>)))"

definition GetCurrentRootCountAndSiblings :: "L1InfoTree \<Rightarrow> Hash32 \<times> uint32 \<times> Hash32 list" where
  "GetCurrentRootCountAndSiblings mt = (currentRoot mt, count mt, siblings mt)"

declare zeroHashes_loop.simps [simp del] build_loop.simps [simp del]
  proof_loop.simps [simp del] addLeaf_loop.simps [simp del]

section \<open>Reference semantics\<close>

text \<open>
  \<open>mr H z h ls\<close> is the root of the perfect binary tree of height \<open>h\<close> over the leaves \<open>ls\<close>, with
  \<open>z\<close> in place of the leaves that are missing. \<open>pairup\<close> is one level of hashing with an odd last
  node paired with \<open>z\<close>; \<open>halves\<close> is the same level restricted to complete pairs.
\<close>

type_synonym combine = "Hash32 \<Rightarrow> Hash32 \<Rightarrow> Hash32"

fun mr :: "combine \<Rightarrow> Hash32 \<Rightarrow> nat \<Rightarrow> Hash32 list \<Rightarrow> Hash32" where
  "mr H z 0 ls = (case ls of [] \<Rightarrow> z | x # _ \<Rightarrow> x)"
| "mr H z (Suc h) ls = H (mr H z h (take (2 ^ h) ls)) (mr H z h (drop (2 ^ h) ls))"

fun pairup :: "combine \<Rightarrow> Hash32 \<Rightarrow> Hash32 list \<Rightarrow> Hash32 list" where
  "pairup H z [] = []"
| "pairup H z [x] = [H x z]"
| "pairup H z (x # y # ls) = H x y # pairup H z ls"

fun halves :: "combine \<Rightarrow> Hash32 list \<Rightarrow> Hash32 list" where
  "halves H (x # y # ls) = H x y # halves H ls"
| "halves H _ = []"

text \<open>The hash of two nodes, and the zero hash of each level.\<close>

definition H2 :: "keccak \<Rightarrow> combine" where
  "H2 keccak l r = Hash keccak [l, r]"

fun zh :: "keccak \<Rightarrow> nat \<Rightarrow> Hash32" where
  "zh keccak 0 = replicate 32 0"
| "zh keccak (Suc h) = H2 keccak (zh keccak h) (zh keccak h)"

definition l1_root :: "keccak \<Rightarrow> nat \<Rightarrow> Hash32 list \<Rightarrow> Hash32" where
  "l1_root keccak h ls = mr (H2 keccak) (zh keccak 0) h ls"

text \<open>Folding a Merkle path from a leaf to the root, by the bits of the leaf's index.\<close>

fun climb :: "combine \<Rightarrow> nat \<Rightarrow> Hash32 \<Rightarrow> Hash32 list \<Rightarrow> Hash32" where
  "climb H i cur [] = cur"
| "climb H i cur (s # sibs) = climb H (i div 2) (if odd i then H s cur else H cur s) sibs"

text \<open>
  What the sibling array holds between two insertions: at every level where the count has a one
  bit, the root of the last complete subtree of that level.
\<close>

fun sinv :: "combine \<Rightarrow> nat \<Rightarrow> Hash32 list \<Rightarrow> Hash32 list \<Rightarrow> bool" where
  "sinv H 0 ls sibs = True"
| "sinv H (Suc h) ls sibs =
     (sibs \<noteq> [] \<and> (odd (length ls) \<longrightarrow> hd sibs = last ls) \<and> sinv H h (halves H ls) (tl sibs))"

definition tree_inv :: "keccak \<Rightarrow> Hash32 list \<Rightarrow> L1InfoTree \<Rightarrow> bool" where
  "tree_inv keccak ls mt \<longleftrightarrow>
     zeroHashes mt = map (zh keccak) [0 ..< Suc (unat (height mt))] \<and>
     count mt = of_nat (length ls) \<and> length (siblings mt) = unat (height mt) \<and>
     sinv (H2 keccak) (unat (height mt)) ls (siblings mt) \<and>
     currentRoot mt = l1_root keccak (unat (height mt)) ls \<and>
     allLeaves mt = set ls"

section \<open>One level at a time\<close>

lemma pairup_take: "pairup H z (take (2 * m) ls) = take m (pairup H z ls)"
proof (induction m arbitrary: ls)
  case (Suc m)
  then show ?case by (cases ls; cases "tl ls") auto
qed simp

lemma pairup_drop: "pairup H z (drop (2 * m) ls) = drop m (pairup H z ls)"
proof (induction m arbitrary: ls)
  case (Suc m)
  then show ?case by (cases ls; cases "tl ls") auto
qed simp

lemma length_pairup: "length (pairup H z ls) = (length ls + 1) div 2"
  by (induction ls rule: induct_list012) auto

lemma length_halves [simp]: "length (halves H ls) = length ls div 2"
  by (induction ls rule: induct_list012) auto

lemma mr_level: "mr H z (Suc h) ls = mr H (H z z) h (pairup H z ls)"
proof (induction h arbitrary: ls)
  case 0
  show ?case by (induction ls rule: induct_list012) auto
next
  case (Suc h)
  have "mr H z (Suc (Suc h)) ls =
        H (mr H z (Suc h) (take (2 * 2 ^ h) ls)) (mr H z (Suc h) (drop (2 * 2 ^ h) ls))"
    by simp
  also have "\<dots> = H (mr H (H z z) h (take (2 ^ h) (pairup H z ls)))
                     (mr H (H z z) h (drop (2 ^ h) (pairup H z ls)))"
    by (simp only: Suc.IH pairup_take pairup_drop)
  finally show ?case by simp
qed

lemma pairup_snoc_odd:
  "odd (length ls) \<Longrightarrow> pairup H z (ls @ [x]) = halves H ls @ [H (last ls) x]"
  by (induction ls rule: induct_list012) auto

lemma pairup_snoc_even: "even (length ls) \<Longrightarrow> pairup H z (ls @ [x]) = halves H ls @ [H x z]"
  by (induction ls rule: induct_list012) auto

lemma halves_snoc_odd:
  "odd (length ls) \<Longrightarrow> halves H (ls @ [x]) = halves H ls @ [H (last ls) x]"
  by (induction ls rule: induct_list012) auto

lemma halves_snoc_even: "even (length ls) \<Longrightarrow> halves H (ls @ [x]) = halves H ls"
  by (induction ls rule: induct_list012) auto

lemma pairup_halves: "pairup H z ls = halves H (if odd (length ls) then ls @ [z] else ls)"
  by (induction ls rule: induct_list012) auto

section \<open>The loops, level by level\<close>

fun levels :: "combine \<Rightarrow> Hash32 \<Rightarrow> nat \<Rightarrow> Hash32 list \<Rightarrow> Hash32 list" where
  "levels H z 0 ls = ls"
| "levels H z (Suc k) ls = levels H (H z z) k (pairup H z ls)"

lemma pairup_Nil_iff [simp]: "pairup H z ls = [] \<longleftrightarrow> ls = []"
  by (induction ls rule: induct_list012) auto

lemma levels_Nil_iff [simp]: "levels H z k ls = [] \<longleftrightarrow> ls = []"
  by (induction k arbitrary: z ls) auto

lemma mr_levels: "ls \<noteq> [] \<Longrightarrow> mr H z k ls = hd (levels H z k ls)"
proof (induction k arbitrary: z ls)
  case 0
  then show ?case by (cases ls) auto
next
  case (Suc k)
  then show ?case by (simp only: mr_level levels.simps) simp
qed

lemma length_levels_one:
  "ls \<noteq> [] \<Longrightarrow> length (levels H z k ls) = 1 \<longleftrightarrow> length ls \<le> 2 ^ k"
proof (induction k arbitrary: z ls)
  case 0
  then show ?case by (cases ls) auto
next
  case (Suc k)
  have "(length ls + 1) div 2 \<le> 2 ^ k \<longleftrightarrow> length ls \<le> 2 * 2 ^ k"
    by linarith
  then show ?case using Suc by (simp add: length_pairup)
qed

lemma zeroHashes_loop_zh:
  "1 \<le> i \<Longrightarrow> i \<le> Suc h \<Longrightarrow>
   zeroHashes_loop keccak h i (map (zh keccak) [0 ..< i]) = map (zh keccak) [0 ..< Suc h]"
proof (induction "Suc h - i" arbitrary: i)
  case 0
  then show ?case by (subst zeroHashes_loop.simps) simp
next
  case (Suc n)
  have "zh keccak i = Hash keccak [zh keccak (i - 1), zh keccak (i - 1)]"
    using Suc.prems by (cases i) (auto simp: H2_def)
  then have "zeroHashes_loop keccak h i (map (zh keccak) [0 ..< i]) =
        zeroHashes_loop keccak h (Suc i) (map (zh keccak) [0 ..< Suc i])"
    using Suc by (subst zeroHashes_loop.simps) auto
  then show ?case using Suc.hyps(1) [of "Suc i"] Suc.hyps(2) Suc.prems by (simp del: upt_Suc)
qed

lemma generateZeroHashes_zh: "generateZeroHashes keccak h = map (zh keccak) [0 ..< Suc (unat h)]"
  using zeroHashes_loop_zh [of 1 "unat h" keccak] by (simp add: generateZeroHashes_def)

lemma buildIntermediate_even:
  "even (length ls) \<Longrightarrow>
   \<exists>ns. buildIntermediate keccak ls = Inr (ns, halves (H2 keccak) ls) \<and>
        map hd ns = halves (H2 keccak) ls \<and> [] \<notin> set ns"
proof (induction ls rule: induct_list012)
  case (3 l r ls)
  then obtain ns where "buildIntermediate keccak ls = Inr (ns, halves (H2 keccak) ls)"
    "map hd ns = halves (H2 keccak) ls" "[] \<notin> set ns"
    by auto
  then show ?case by (auto simp: Let_def H2_def [symmetric])
qed auto

definition zeros_ok :: "keccak \<Rightarrow> L1InfoTree \<Rightarrow> bool" where
  "zeros_ok keccak mt \<longleftrightarrow> zeroHashes mt = map (zh keccak) [0 ..< Suc (unat (height mt))]"

lemma zeros_ok_idx:
  "zeros_ok keccak mt \<Longrightarrow> h \<le> unat (height mt) \<Longrightarrow> idx (zeroHashes mt) h = Inr (zh keccak h)"
  by (simp add: zeros_ok_def idx_def del: upt_Suc)

definition padz :: "Hash32 \<Rightarrow> Hash32 list \<Rightarrow> Hash32 list" where
  "padz z ls = (if odd (length ls) then ls @ [z] else ls)"

lemma padz_simps:
  "even (length (padz z ls))" "halves H (padz z ls) = pairup H z ls"
  "length (padz z ls) = 2 * ((length ls + 1) div 2)"
  by (auto simp: padz_def pairup_halves elim!: oddE)

lemma pad_level:
  "zeros_ok keccak mt \<Longrightarrow> h < unat (height mt) \<Longrightarrow>
   (if odd (length ls) then rbind (idx (zeroHashes mt) h) (\<lambda>z. Inr (ls @ [z])) else Inr ls) =
   Inr (padz (zh keccak h) ls)"
  by (simp add: zeros_ok_idx padz_def)

lemma build_loop_step:
  assumes "zeros_ok keccak mt" "h < unat (height mt)"
  obtains ns' where
    "build_loop keccak mt h ns ls = build_loop keccak mt (Suc h) ns' (pairup (H2 keccak) (zh keccak h) ls)"
    "map hd ns' = pairup (H2 keccak) (zh keccak h) ls" "[] \<notin> set ns'"
proof -
  obtain ns' where ns':
    "buildIntermediate keccak (padz (zh keccak h) ls) = Inr (ns', pairup (H2 keccak) (zh keccak h) ls)"
    "map hd ns' = pairup (H2 keccak) (zh keccak h) ls" "[] \<notin> set ns'"
    using buildIntermediate_even [OF padz_simps(1), of keccak "zh keccak h" ls]
    by (auto simp: padz_simps)
  have "build_loop keccak mt h ns ls = build_loop keccak mt (Suc h) ns' (pairup (H2 keccak) (zh keccak h) ls)"
    by (subst build_loop.simps) (simp only: pad_level [OF assms] assms(2) if_True rbind_Inr ns'(1) case_prod_conv)
  then show ?thesis using ns'(2,3) by (rule that)
qed

lemma build_loop_levels:
  assumes "zeros_ok keccak mt" "h \<le> unat (height mt)" "h < unat (height mt) \<or> map hd ns = ls \<and> [] \<notin> set ns"
  shows "\<exists>ns'. build_loop keccak mt h ns ls =
                 Inr (ns', levels (H2 keccak) (zh keccak h) (unat (height mt) - h) ls) \<and>
               map hd ns' = levels (H2 keccak) (zh keccak h) (unat (height mt) - h) ls \<and> [] \<notin> set ns'"
  using assms(2,3)
proof (induction "unat (height mt) - h" arbitrary: h ns ls)
  case 0
  then show ?case by (subst build_loop.simps) auto
next
  case (Suc n)
  then have lt: "h < unat (height mt)" by simp
  obtain ns' where ns':
    "build_loop keccak mt h ns ls = build_loop keccak mt (Suc h) ns' (pairup (H2 keccak) (zh keccak h) ls)"
    "map hd ns' = pairup (H2 keccak) (zh keccak h) ls" "[] \<notin> set ns'"
    by (rule build_loop_step [OF assms(1) lt])
  have n: "unat (height mt) - h = Suc (unat (height mt) - Suc h)" using lt by simp
  have "n = unat (height mt) - Suc h" "Suc h \<le> unat (height mt)"
    using Suc.hyps(2) lt by arith+
  from Suc.hyps(1) [OF this disjI2 [OF conjI [OF ns'(2,3)]]] show ?case
    unfolding ns'(1) n levels.simps zh.simps .
qed

text \<open>The documented output size of Keccak-256.\<close>

definition keccak32 :: "keccak \<Rightarrow> bool" where
  "keccak32 keccak \<longleftrightarrow> (\<forall>b. length (keccak b) = 32)"

lemma length_H2 [simp]: "keccak32 keccak \<Longrightarrow> length (H2 keccak l r) = 32"
  by (simp add: keccak32_def H2_def Hash_def)

lemma pairup_32: "keccak32 keccak \<Longrightarrow> x \<in> set (pairup (H2 keccak) z ls) \<Longrightarrow> length x = 32"
  by (induction ls rule: induct_list012) auto

lemma levels_32:
  "keccak32 keccak \<Longrightarrow> \<forall>x \<in> set ls. length x = 32 \<Longrightarrow> x \<in> set (levels (H2 keccak) z k ls) \<Longrightarrow> length x = 32"
  by (induction k arbitrary: z ls) (auto dest: pairup_32)

lemma hd_levels_32:
  assumes "keccak32 keccak" "0 < k" "ls \<noteq> []"
  shows "length (hd (levels (H2 keccak) z k ls)) = 32"
proof -
  obtain k' where k: "k = Suc k'" using assms(2) by (cases k) auto
  have "hd (levels (H2 keccak) z k ls) \<in> set (levels (H2 keccak) z k ls)"
    using assms(3) by simp
  then show ?thesis
    using levels_32 [OF assms(1)] pairup_32 [OF assms(1)] unfolding k levels.simps by blast
qed

lemma mr_pad_empty: "mr H z k [z] = mr H z k []"
proof (induction k arbitrary: z)
  case (Suc k)
  then show ?case by (simp only: mr_level pairup.simps)
qed simp

lemma hd_nodes: "map hd ns = ls \<Longrightarrow> [] \<notin> set ns \<Longrightarrow> length ns = 1 \<Longrightarrow> idx (ns ! 0) 0 = Inr (hd ls)"
  by (cases ns) (auto simp: idx_def hd_conv_nth)

definition leaves0 :: "keccak \<Rightarrow> Hash32 list \<Rightarrow> Hash32 list" where
  "leaves0 keccak ls = (if ls = [] then [zh keccak 0] else ls)"

lemma first_leaves:
  "zeros_ok keccak mt \<Longrightarrow>
   (if ls = [] then rbind (idx (zeroHashes mt) 0) (\<lambda>z. Inr [z]) else Inr ls) = Inr (leaves0 keccak ls)"
  by (simp add: zeros_ok_idx leaves0_def del: zh.simps)

lemma leaves0_simps:
  "leaves0 keccak ls \<noteq> []"
  "mr (H2 keccak) (zh keccak 0) k (leaves0 keccak ls) = l1_root keccak k ls"
  "length (leaves0 keccak ls) \<le> 2 ^ k \<longleftrightarrow> length ls \<le> 2 ^ k"
  using mr_pad_empty [of "H2 keccak" "zh keccak 0" k] by (auto simp: leaves0_def l1_root_def)

text \<open>The nodes of the last level: a single one exactly when the leaves fit, and then the root.\<close>

lemma last_level:
  assumes "keccak32 keccak" "0 < k"
    "map hd ns = levels (H2 keccak) (zh keccak 0) k (leaves0 keccak ls)" "[] \<notin> set ns"
  shows "length ns = 1 \<longleftrightarrow> length ls \<le> 2 ^ k"
    and "length ns = 1 \<Longrightarrow> idx (ns ! 0) 0 = Inr (l1_root keccak k ls)"
    and "length (l1_root keccak k ls) = 32"
proof -
  have root: "hd (levels (H2 keccak) (zh keccak 0) k (leaves0 keccak ls)) = l1_root keccak k ls"
    by (simp only: mr_levels [OF leaves0_simps(1), symmetric] leaves0_simps(2))
  have "length ns = length (levels (H2 keccak) (zh keccak 0) k (leaves0 keccak ls))"
    using assms(3) by (metis length_map)
  then show "length ns = 1 \<longleftrightarrow> length ls \<le> 2 ^ k"
    by (simp only: length_levels_one [OF leaves0_simps(1)] leaves0_simps(3))
  show "length ns = 1 \<Longrightarrow> idx (ns ! 0) 0 = Inr (l1_root keccak k ls)"
    using hd_nodes [OF assms(3,4)] root by simp
  show "length (l1_root keccak k ls) = 32"
    using hd_levels_32 [OF assms(1,2) leaves0_simps(1) [of keccak ls], of "zh keccak 0"] root by simp
qed

lemma BuildL1InfoRoot_root:
  assumes "keccak32 keccak" "zeros_ok keccak mt" "0 < unat (height mt)"
  shows "BuildL1InfoRoot keccak mt ls =
     (if length ls \<le> 2 ^ unat (height mt) then Inr (l1_root keccak (unat (height mt)) ls)
      else Inl (Err ''error: more than one root detected''))"
proof -
  let ?k = "unat (height mt)" and ?ls = "leaves0 keccak ls"
  from build_loop_levels [OF assms(2), of 0 "[]" ?ls] assms(3) obtain ns where ns:
    "build_loop keccak mt 0 [] ?ls = Inr (ns, levels (H2 keccak) (zh keccak 0) ?k ?ls)"
    "map hd ns = levels (H2 keccak) (zh keccak 0) ?k ?ls" "[] \<notin> set ns"
    by auto
  show ?thesis
    unfolding BuildL1InfoRoot_def first_leaves [OF assms(2)] rbind_Inr ns(1) case_prod_conv
    using last_level [OF assms(1,3) ns(2,3)] by (simp del: One_nat_def)
qed

section \<open>Merkle paths\<close>

definition nthz :: "Hash32 \<Rightarrow> Hash32 list \<Rightarrow> nat \<Rightarrow> Hash32" where
  "nthz z ls i = (if i < length ls then ls ! i else z)"

fun mpath :: "combine \<Rightarrow> Hash32 \<Rightarrow> nat \<Rightarrow> nat \<Rightarrow> Hash32 list \<Rightarrow> Hash32 list" where
  "mpath H z 0 i ls = []"
| "mpath H z (Suc k) i ls =
     nthz z ls (if odd i then i - 1 else i + 1) # mpath H (H z z) k (i div 2) (pairup H z ls)"

lemma length_mpath [simp]: "length (mpath H z k i ls) = k"
  by (induction k arbitrary: z i ls) auto

lemma nthz_pairup:
  "nthz (H z z) (pairup H z ls) j = H (nthz z ls (2 * j)) (nthz z ls (2 * j + 1))"
proof (induction j arbitrary: ls)
  case 0
  show ?case by (induction ls rule: induct_list012) (auto simp: nthz_def)
next
  case (Suc j)
  have "nthz z (x # y # ls') (2 * Suc j) = nthz z ls' (2 * j)"
    "nthz z (x # y # ls') (2 * Suc j + 1) = nthz z ls' (2 * j + 1)"
    "nthz (H z z) (x # ls') (Suc j) = nthz (H z z) ls' j" for x y ls'
    by (auto simp: nthz_def)
  then show ?case using Suc
    by (cases ls; cases "tl ls") (auto simp: nthz_def)
qed

lemma climb_mpath: "i < 2 ^ k \<Longrightarrow> climb H i (nthz z ls i) (mpath H z k i ls) = mr H z k ls"
proof (induction k arbitrary: z i ls)
  case 0
  then show ?case by (cases ls) (auto simp: nthz_def)
next
  case (Suc k)
  have "nthz (H z z) (pairup H z ls) (i div 2) =
      (if odd i then H (nthz z ls (i - 1)) (nthz z ls i) else H (nthz z ls i) (nthz z ls (i + 1)))"
    by (cases "odd i") (auto simp: nthz_pairup elim!: oddE)
  then have step: "climb H i (nthz z ls i) (mpath H z (Suc k) i ls) =
      climb H (i div 2) (nthz (H z z) (pairup H z ls) (i div 2)) (mpath H (H z z) k (i div 2) (pairup H z ls))"
    by simp
  show ?case
    unfolding step mr_level using Suc.prems by (intro Suc.IH) auto
qed

lemma halves_take: "i \<le> length ls \<Longrightarrow> halves H (take i ls) = take (i div 2) (pairup H z ls)"
proof (induction ls arbitrary: i rule: induct_list012)
  case (3 x y zs)
  then show ?case by (cases i; cases "i - 1") auto
qed (auto simp: take_Cons')

lemma sinv_mpath: "i \<le> length ls \<Longrightarrow> sinv H k (take i ls) (mpath H z k i ls)"
proof (induction k arbitrary: z i ls)
  case (Suc k)
  have "i div 2 \<le> length (pairup H z ls)"
    using Suc.prems by (simp add: length_pairup)
  from Suc.IH [OF this, of "H z z"] have IH:
    "sinv H k (halves H (take i ls)) (mpath H (H z z) k (i div 2) (pairup H z ls))"
    using halves_take [OF Suc.prems, of H z] by simp
  have "odd i \<Longrightarrow> nthz z ls (i - 1) = last (take i ls)"
    using Suc.prems by (cases i) (auto simp: nthz_def take_Suc_conv_app_nth)
  with IH show ?case using Suc.prems by simp
qed simp

lemma proof_sibling:
  fixes index :: uint32
  assumes "zeros_ok keccak mt" "h < unat (height mt)" "length ls + 1 < 2 ^ 32"
  defines "p \<equiv> padz (zh keccak h) ls" and "i \<equiv> unat index"
  shows "(if index \<ge> of_nat (length p) then idx (zeroHashes mt) h
          else if index mod 2 = 1 then idx p (unat (index - 1)) else idx p (unat (index + 1))) =
         Inr (nthz (zh keccak h) ls (if odd i then i - 1 else i + 1))"
proof -
  have len: "length p < 2 ^ 32" "even (length p)" "length ls \<le> length p"
    using assms(3) by (auto simp: p_def padz_def)
  have ge: "index \<ge> of_nat (length p) \<longleftrightarrow> i \<ge> length p"
    using len(1) by (simp add: word_le_nat_alt i_def unat_of_nat_small)
  have odd: "index mod 2 = 1 \<longleftrightarrow> odd i"
    by (simp add: i_def word_mod2_odd)
  have near: "nthz (zh keccak h) ls j = p ! j" if "j < length p" for j
    using that by (auto simp: nthz_def p_def padz_def nth_append split: if_splits)
  have far: "nthz (zh keccak h) ls j = zh keccak h" if "length p \<le> j" for j
    using that len(3) by (auto simp: nthz_def)
  have pred: "unat (index - 1) = i - 1" if "odd i"
    using that unat_sub [of 1 index] by (simp add: i_def word_le_nat_alt odd_pos Suc_leI)
  have succ: "unat (index + 1) = i + 1" if "i < length p"
    using that len(1) unat_add_lem [of index 1] by (simp add: i_def)
  consider "length p \<le> i" | "i < length p" "odd i" | "i < length p" "even i" "i + 1 < length p"
    using len(2) by (metis Suc_eq_plus1 Suc_lessI even_Suc not_less)
  then show ?thesis
  proof cases
    case 1
    with len(2) have "length p \<le> (if odd i then i - 1 else i + 1)"
      by (cases "i = length p") auto
    with 1 show ?thesis using assms(1,2) by (simp add: ge far zeros_ok_idx)
  next
    case 2
    then have "i - 1 < length p" by simp
    with 2 show ?thesis by (simp add: ge odd pred near idx_in)
  next
    case 3
    then show ?thesis by (simp add: ge odd succ near idx_in)
  qed
qed

lemma proof_loop_step:
  fixes index :: uint32
  assumes "zeros_ok keccak mt" "h < unat (height mt)" "length ls + 1 < 2 ^ 32"
  obtains ns' where
    "proof_loop keccak mt h index sibs ns ls =
       proof_loop keccak mt (Suc h) (index div 2)
         (sibs @ [nthz (zh keccak h) ls (if odd (unat index) then unat index - 1 else unat index + 1)])
         ns' (pairup (H2 keccak) (zh keccak h) ls)"
    "map hd ns' = pairup (H2 keccak) (zh keccak h) ls" "[] \<notin> set ns'"
proof -
  obtain ns' where ns':
    "buildIntermediate keccak (padz (zh keccak h) ls) = Inr (ns', pairup (H2 keccak) (zh keccak h) ls)"
    "map hd ns' = pairup (H2 keccak) (zh keccak h) ls" "[] \<notin> set ns'"
    using buildIntermediate_even [OF padz_simps(1), of keccak "zh keccak h" ls]
    by (auto simp: padz_simps)
  have "proof_loop keccak mt h index sibs ns ls =
       proof_loop keccak mt (Suc h) (index div 2)
         (sibs @ [nthz (zh keccak h) ls (if odd (unat index) then unat index - 1 else unat index + 1)])
         ns' (pairup (H2 keccak) (zh keccak h) ls)"
    by (subst proof_loop.simps)
      (simp only: pad_level [OF assms(1,2)] proof_sibling [OF assms] assms(2) if_True rbind_Inr ns'(1) case_prod_conv)
  then show ?thesis using ns'(2,3) by (rule that)
qed

lemma proof_loop_mpath:
  fixes index :: uint32
  assumes "zeros_ok keccak mt" "h \<le> unat (height mt)" "length ls + 1 < 2 ^ 32"
    "h < unat (height mt) \<or> map hd ns = ls \<and> [] \<notin> set ns"
  shows "\<exists>ns'. proof_loop keccak mt h index sibs ns ls =
           Inr (sibs @ mpath (H2 keccak) (zh keccak h) (unat (height mt) - h) (unat index) ls, ns') \<and>
         map hd ns' = levels (H2 keccak) (zh keccak h) (unat (height mt) - h) ls \<and> [] \<notin> set ns'"
  using assms(2,3,4)
proof (induction "unat (height mt) - h" arbitrary: h index sibs ns ls)
  case 0
  then show ?case by (subst proof_loop.simps) auto
next
  case (Suc n)
  then have lt: "h < unat (height mt)" by simp
  let ?s = "nthz (zh keccak h) ls (if odd (unat index) then unat index - 1 else unat index + 1)"
  obtain ns' where ns':
    "proof_loop keccak mt h index sibs ns ls =
       proof_loop keccak mt (Suc h) (index div 2) (sibs @ [?s]) ns' (pairup (H2 keccak) (zh keccak h) ls)"
    "map hd ns' = pairup (H2 keccak) (zh keccak h) ls" "[] \<notin> set ns'"
    by (rule proof_loop_step [OF assms(1) lt Suc.prems(2)])
  have n: "unat (height mt) - h = Suc (unat (height mt) - Suc h)" using lt by simp
  have u: "unat (index div 2) = unat index div 2"
    by (simp add: unat_div_distrib)
  have pre: "n = unat (height mt) - Suc h" "Suc h \<le> unat (height mt)"
    "length (pairup (H2 keccak) (zh keccak h) ls) + 1 < 2 ^ 32"
    using Suc.hyps(2) lt Suc.prems(2) by (auto simp: length_pairup)
  from Suc.hyps(1) [OF pre disjI2 [OF conjI [OF ns'(2,3)]], of "index div 2" "sibs @ [?s]"] show ?case
    unfolding ns'(1) n levels.simps mpath.simps zh.simps u append_assoc append_Cons append_Nil .
qed

lemma ComputeMerkleProof_path:
  fixes index :: uint32
  assumes "keccak32 keccak" "zeros_ok keccak mt" "0 < unat (height mt)" "length ls + 1 < 2 ^ 32"
  shows "ComputeMerkleProof keccak mt index ls =
     (if length ls \<le> 2 ^ unat (height mt)
      then Inr (mpath (H2 keccak) (zh keccak 0) (unat (height mt)) (unat index) (leaves0 keccak ls),
                l1_root keccak (unat (height mt)) ls)
      else Inl (Err ''error: more than one root detected''))"
proof -
  let ?k = "unat (height mt)" and ?ls = "leaves0 keccak ls"
  have "length ?ls + 1 < 2 ^ 32" using assms(4) by (auto simp: leaves0_def)
  from proof_loop_mpath [OF assms(2) _ this, of 0 "[]" index "[]"] assms(3) obtain ns where ns:
    "proof_loop keccak mt 0 index [] [] ?ls = Inr (mpath (H2 keccak) (zh keccak 0) ?k (unat index) ?ls, ns)"
    "map hd ns = levels (H2 keccak) (zh keccak 0) ?k ?ls" "[] \<notin> set ns"
    by auto
  show ?thesis
    unfolding ComputeMerkleProof_def first_leaves [OF assms(2)] rbind_Inr ns(1) case_prod_conv
    using last_level [OF assms(1,3) ns(2,3)] by (simp del: One_nat_def)
qed

section \<open>Incremental insertion\<close>

text \<open>
  The two phases of \<open>AddLeaf\<close>: below the first zero bit of the index the sibling array is read
  and the flag is still set; from there on the array is only read.
\<close>

lemma sinv_Suc_drop:
  "h < length sibs \<Longrightarrow> sinv H (Suc k) ls (drop h sibs) \<longleftrightarrow>
     (odd (length ls) \<longrightarrow> sibs ! h = last ls) \<and> sinv H k (halves H ls) (drop (Suc h) sibs)"
  by (simp add: hd_drop_conv_nth drop_Suc [symmetric] tl_drop)

lemma addLeaf_level:
  assumes "n < 2 ^ 32" "length sibs = unat (height mt)" "h < unat (height mt)" "length ls = n div 2 ^ h"
    "sinv H (unat (height mt) - h) ls (drop h sibs)"
  shows "(0 :: uint32) < of_nat n AND 2 ^ h \<longleftrightarrow> odd (length ls)"
    and "odd (length ls) \<longrightarrow> sibs ! h = last ls"
    and "sinv H (unat (height mt) - Suc h) (halves H ls) (drop (Suc h) sibs)"
    and "length (halves H ls) = n div 2 ^ Suc h"
proof -
  have k: "unat (height mt) - h = Suc (unat (height mt) - Suc h)" using assms(3) by simp
  show "(0 :: uint32) < of_nat n AND 2 ^ h \<longleftrightarrow> odd (length ls)"
    using assms(1,4) by (simp add: bit_test bit_of_nat_odd)
  show "odd (length ls) \<longrightarrow> sibs ! h = last ls"
    "sinv H (unat (height mt) - Suc h) (halves H ls) (drop (Suc h) sibs)"
    using assms(2,3,5) unfolding k by (simp_all add: sinv_Suc_drop del: sinv.simps)
  show "length (halves H ls) = n div 2 ^ Suc h"
    by (simp only: length_halves assms(4) power_Suc2 div_mult2_eq)
qed

lemma addLeaf_loop_read:
  assumes "zeros_ok keccak mt" "n < 2 ^ 32" "h \<le> unat (height mt)" "length sibs = unat (height mt)"
    "n < 2 ^ unat (height mt)" "length ls = n div 2 ^ h" "sinv (H2 keccak) (unat (height mt) - h) ls (drop h sibs)"
  shows "addLeaf_loop keccak mt (of_nat n) h x False sibs =
         Inr (mr (H2 keccak) (zh keccak h) (unat (height mt) - h) (ls @ [x]), sibs)"
  using assms(3,6,7)
proof (induction "unat (height mt) - h" arbitrary: h ls x)
  case 0
  then show ?case using assms(5) by (subst addLeaf_loop.simps) simp
next
  case (Suc k)
  then have lt: "h < unat (height mt)" and k: "unat (height mt) - h = Suc (unat (height mt) - Suc h)"
    by simp_all
  let ?x = "if odd (length ls) then H2 keccak (sibs ! h) x else H2 keccak x (zh keccak h)"
  note lvl = addLeaf_level [OF assms(2,4) lt Suc.prems(2,3)]
  note bit = lvl(1) and s = lvl(2,3)
  have step: "addLeaf_loop keccak mt (of_nat n) h x False sibs =
      addLeaf_loop keccak mt (of_nat n) (Suc h) ?x False sibs"
    using lt assms(1,4) by (subst addLeaf_loop.simps) (simp add: bit idx_in zeros_ok_idx H2_def)
  have root: "mr (H2 keccak) (zh keccak h) (unat (height mt) - h) (ls @ [x]) =
      mr (H2 keccak) (zh keccak (Suc h)) (unat (height mt) - Suc h) (halves (H2 keccak) ls @ [?x])"
    unfolding k mr_level using s(1) by (simp add: pairup_snoc_odd pairup_snoc_even)
  have "k = unat (height mt) - Suc h" "Suc h \<le> unat (height mt)"
    using Suc.hyps(2) lt by auto
  from Suc.hyps(1) [OF this lvl(4) s(2)] show ?case unfolding step root .
qed

lemma addLeaf_loop_add:
  assumes "zeros_ok keccak mt" "n < 2 ^ 32" "h \<le> unat (height mt)" "length sibs = unat (height mt)"
    "n < 2 ^ unat (height mt)" "length ls = n div 2 ^ h" "sinv (H2 keccak) (unat (height mt) - h) ls (drop h sibs)"
  shows "\<exists>sibs'. addLeaf_loop keccak mt (of_nat n) h x True sibs =
           Inr (mr (H2 keccak) (zh keccak h) (unat (height mt) - h) (ls @ [x]), sibs') \<and>
         length sibs' = unat (height mt) \<and> take h sibs' = take h sibs \<and>
         sinv (H2 keccak) (unat (height mt) - h) (ls @ [x]) (drop h sibs')"
  using assms(3,6,7)
proof (induction "unat (height mt) - h" arbitrary: h ls x)
  case 0
  then show ?case using assms(4,5) by (subst addLeaf_loop.simps) simp
next
  case (Suc k)
  then have lt: "h < unat (height mt)" and k: "unat (height mt) - h = Suc (unat (height mt) - Suc h)"
    by simp_all
  note lvl = addLeaf_level [OF assms(2,4) lt Suc.prems(2,3)]
  note bit = lvl(1) and s = lvl(2,3)
  have pre: "k = unat (height mt) - Suc h" "Suc h \<le> unat (height mt)"
    using Suc.hyps(2) lt by auto
  show ?case
  proof (cases "odd (length ls)")
    case True
    let ?x = "H2 keccak (last ls) x"
    have step: "addLeaf_loop keccak mt (of_nat n) h x True sibs =
        addLeaf_loop keccak mt (of_nat n) (Suc h) ?x True sibs"
      using lt assms(4) True s(1) by (subst addLeaf_loop.simps) (simp add: bit idx_in H2_def)
    from Suc.hyps(1) [OF pre lvl(4) s(2), of ?x] obtain sibs' where IH:
      "addLeaf_loop keccak mt (of_nat n) (Suc h) ?x True sibs =
         Inr (mr (H2 keccak) (zh keccak (Suc h)) (unat (height mt) - Suc h) (halves (H2 keccak) ls @ [?x]), sibs')"
      "length sibs' = unat (height mt)" "take (Suc h) sibs' = take (Suc h) sibs"
      "sinv (H2 keccak) (unat (height mt) - Suc h) (halves (H2 keccak) ls @ [?x]) (drop (Suc h) sibs')"
      by blast
    have "take h sibs' = take h sibs"
      using arg_cong [OF IH(3), of "take h"] by simp
    then show ?thesis
      unfolding step k mr_level using IH True lt
      by (simp add: pairup_snoc_odd halves_snoc_odd sinv_Suc_drop del: sinv.simps mr.simps)
  next
    case False
    let ?x = "H2 keccak x (zh keccak h)" and ?s = "sibs[h := x]"
    have step: "addLeaf_loop keccak mt (of_nat n) h x True sibs =
        addLeaf_loop keccak mt (of_nat n) (Suc h) ?x False ?s"
      using lt assms(1,4) False
      by (subst addLeaf_loop.simps) (simp add: bit setidx_in zeros_ok_idx H2_def)
    have "sinv (H2 keccak) (unat (height mt) - Suc h) (halves (H2 keccak) ls) (drop (Suc h) ?s)"
      using s(2) by simp
    from addLeaf_loop_read [OF assms(1,2) pre(2) _ assms(5) lvl(4) this] assms(4)
    have "addLeaf_loop keccak mt (of_nat n) (Suc h) ?x False ?s =
        Inr (mr (H2 keccak) (zh keccak (Suc h)) (unat (height mt) - Suc h) (halves (H2 keccak) ls @ [?x]), ?s)"
      by simp
    then show ?thesis
      unfolding step k mr_level using False lt assms(4) s(2)
      by (simp add: pairup_snoc_even halves_snoc_even sinv_Suc_drop del: sinv.simps mr.simps)
  qed
qed

lemma tree_inv_zeros: "tree_inv keccak ls mt \<Longrightarrow> zeros_ok keccak mt"
  by (simp add: tree_inv_def zeros_ok_def)

lemma AddLeaf_inv:
  assumes "tree_inv keccak ls mt" "length ls < 2 ^ 32" "length ls < 2 ^ unat (height mt)"
  shows "\<exists>mt'. AddLeaf keccak mt (count mt) leaf = Inr (l1_root keccak (unat (height mt)) (ls @ [leaf]), mt') \<and>
               tree_inv keccak (ls @ [leaf]) mt' \<and> height mt' = height mt"
proof -
  have inv: "zeros_ok keccak mt" "count mt = of_nat (length ls)" "length (siblings mt) = unat (height mt)"
    "sinv (H2 keccak) (unat (height mt)) ls (siblings mt)" "allLeaves mt = set ls"
    using assms(1) by (simp_all add: tree_inv_def zeros_ok_def)
  from addLeaf_loop_add [OF inv(1) assms(2) _ inv(3) assms(3), of 0 ls leaf] inv(4)
  obtain sibs where sibs:
    "addLeaf_loop keccak mt (of_nat (length ls)) 0 leaf True (siblings mt) =
       Inr (l1_root keccak (unat (height mt)) (ls @ [leaf]), sibs)"
    "length sibs = unat (height mt)" "sinv (H2 keccak) (unat (height mt)) (ls @ [leaf]) sibs"
    by (auto simp: l1_root_def)
  then show ?thesis using inv assms(1) by (simp add: AddLeaf_def tree_inv_def)
qed

lemma sinv_Nil: "k \<le> length sibs \<Longrightarrow> sinv H k [] sibs"
  by (induction k arbitrary: sibs) auto

lemma NewL1InfoTree_tree:
  assumes "keccak32 keccak" "0 < unat h" "length ls \<le> 2 ^ unat h" "length ls + 1 < 2 ^ 32"
  shows "\<exists>mt. NewL1InfoTree keccak h ls = Inr mt \<and> tree_inv keccak ls mt \<and> height mt = h"
proof -
  define mt0 where "mt0 = \<lparr>height = h, zeroHashes = generateZeroHashes keccak h,
    count = of_nat (length ls) :: uint32, siblings = [], currentRoot = replicate 32 0, allLeaves = {}\<rparr>"
  have z: "zeros_ok keccak mt0" "height mt0 = h" "count mt0 = of_nat (length ls)"
    by (simp_all add: mt0_def zeros_ok_def generateZeroHashes_zh del: upt_Suc)
  have n: "unat (count mt0) = length ls" "count mt0 = 0 \<longleftrightarrow> ls = []"
    using assms(4) by (auto simp: z unat_of_nat_small simp flip: unat_eq_0)
  have "\<exists>sibs. initSiblings keccak mt0 ls = Inr (sibs, l1_root keccak (unat h) ls) \<and>
          length sibs = unat h \<and> sinv (H2 keccak) (unat h) ls sibs"
  proof (cases "ls = []")
    case True
    then show ?thesis
      using BuildL1InfoRoot_root [OF assms(1) z(1), of ls] assms(2) z n
      by (simp add: initSiblings_def zeros_ok_def sinv_Nil)
  next
    case False
    then have l0: "leaves0 keccak ls = ls" by (simp add: leaves0_def)
    show ?thesis
      using ComputeMerkleProof_path [OF assms(1) z(1) _ assms(4), of "count mt0"] assms(2,3) z n False
        sinv_mpath [of "length ls" ls "H2 keccak" "unat h" "zh keccak 0"]
      by (simp add: initSiblings_def l0 del: zh.simps)
  qed
  then show ?thesis
    using z by (auto simp: NewL1InfoTree_def Let_def mt0_def [symmetric] tree_inv_def zeros_ok_def)
qed

section \<open>The tree as an accumulator\<close>

text \<open>
  What a client of the tree relies on: as long as there is room, adding a leaf succeeds, returns
  the root of the extended leaf list and keeps the invariant.
\<close>

fun add_seq :: "('s \<Rightarrow> 'l \<Rightarrow> ('r \<times> 's) result) \<Rightarrow> 's \<Rightarrow> 'l list \<Rightarrow> 's result" where
  "add_seq add s [] = Inr s"
| "add_seq add s (x # xs) = rbind (add s x) (\<lambda>(_, s'). add_seq add s' xs)"

locale leaf_accumulator =
  fixes holds :: "'l list \<Rightarrow> 's \<Rightarrow> bool"
    and add :: "'s \<Rightarrow> 'l \<Rightarrow> ('r \<times> 's) result"
    and root_of :: "'l list \<Rightarrow> 'r"
    and room :: "'l list \<Rightarrow> bool"
  assumes add_ok: "holds ls s \<Longrightarrow> room (ls @ [x]) \<Longrightarrow>
      \<exists>s'. add s x = Inr (root_of (ls @ [x]), s') \<and> holds (ls @ [x]) s'"
    and room_prefix: "room (ls @ xs) \<Longrightarrow> room ls"
begin

lemma seq_ok: "holds ls s \<Longrightarrow> room (ls @ xs) \<Longrightarrow> \<exists>s'. add_seq add s xs = Inr s' \<and> holds (ls @ xs) s'"
proof (induction xs arbitrary: ls s)
  case (Cons x xs)
  have "room (ls @ [x])" using Cons.prems(2) room_prefix [of "ls @ [x]" xs] by simp
  from add_ok [OF Cons.prems(1) this] obtain s' where
    s': "add s x = Inr (root_of (ls @ [x]), s')" "holds (ls @ [x]) s'" by blast
  from Cons.IH [OF s'(2)] Cons.prems(2) s'(1) show ?case by simp
qed simp

end

interpretation l1acc: leaf_accumulator
  "\<lambda>ls mt. tree_inv keccak ls mt \<and> height mt = h"
  "\<lambda>mt leaf. AddLeaf keccak mt (count mt) leaf"
  "l1_root keccak (unat h)"
  "\<lambda>ls. length ls \<le> 2 ^ unat h \<and> length ls \<le> 2 ^ 32"
  for keccak h
proof (unfold_locales, goal_cases)
  case (1 ls mt leaf)
  then show ?case using AddLeaf_inv [of keccak ls mt leaf] by auto
qed auto

section \<open>Properties\<close>

text \<open>
  C11. \<open>BuildL1InfoRoot\<close> returns the root of the perfect Merkle tree over the leaves whenever they
  fit into the height of the tree, and the error of the source when they do not; it never panics.
\<close>

theorem BuildL1InfoRoot_correct:
  assumes "keccak32 keccak" "zeroHashes mt = generateZeroHashes keccak (height mt)" "0 < height mt"
  shows "BuildL1InfoRoot keccak mt leaves =
     (if length leaves \<le> 2 ^ unat (height mt) then Inr (l1_root keccak (unat (height mt)) leaves)
      else Inl (Err ''error: more than one root detected''))"
  using assms BuildL1InfoRoot_root [of keccak mt leaves]
  by (simp add: zeros_ok_def generateZeroHashes_zh word_less_nat_alt del: upt_Suc)

definition toy_keccak :: keccak where
  "toy_keccak b = replicate 31 3 @ [fold (\<lambda>x a. 7 * a + x + 1) b 0]"

lemma toy_keccak32: "keccak32 toy_keccak"
  by (simp add: keccak32_def toy_keccak_def)

theorem BuildL1InfoRoot_correct_witness:
  "BuildL1InfoRoot toy_keccak
     \<lparr>height = 1, zeroHashes = generateZeroHashes toy_keccak 1, count = 0, siblings = [],
      currentRoot = [], allLeaves = {}\<rparr> [replicate 32 1, replicate 32 2] =
     Inr (l1_root toy_keccak 1 [replicate 32 1, replicate 32 2])"
  by (subst BuildL1InfoRoot_correct [OF toy_keccak32]) simp_all

text \<open>
  C13. \<open>ComputeMerkleProof\<close> is sound and complete for every position of the tree: hashing the leaf at
  the position (zero when it is not filled) with the returned siblings along the bits of the position
  gives the root it returns, which is the root of the perfect tree.
\<close>

theorem ComputeMerkleProof_climbs:
  assumes "keccak32 keccak" "zeroHashes mt = generateZeroHashes keccak (height mt)" "0 < height mt"
    and "length leaves \<le> 2 ^ unat (height mt)" "length leaves + 1 < 2 ^ 32"
    and "unat index < 2 ^ unat (height mt)"
  shows "\<exists>sibs. ComputeMerkleProof keccak mt index leaves = Inr (sibs, l1_root keccak (unat (height mt)) leaves) \<and>
           length sibs = unat (height mt) \<and>
           climb (H2 keccak) (unat index)
             (if unat index < length leaves then leaves ! unat index else replicate 32 0) sibs =
           l1_root keccak (unat (height mt)) leaves"
proof -
  have z: "zeros_ok keccak mt" "0 < unat (height mt)"
    using assms(2,3) by (simp_all add: zeros_ok_def generateZeroHashes_zh word_less_nat_alt del: upt_Suc)
  have "climb (H2 keccak) (unat index) (nthz (zh keccak 0) (leaves0 keccak leaves) (unat index))
      (mpath (H2 keccak) (zh keccak 0) (unat (height mt)) (unat index) (leaves0 keccak leaves)) =
      l1_root keccak (unat (height mt)) leaves"
    using climb_mpath [OF assms(6)] leaves0_simps(2) by simp
  then show ?thesis
    using ComputeMerkleProof_path [OF assms(1) z assms(5)] assms(4)
    by (auto simp: leaves0_def nthz_def split: if_splits)
qed

theorem ComputeMerkleProof_climbs_witness:
  "\<exists>sibs. ComputeMerkleProof toy_keccak
     \<lparr>height = 2, zeroHashes = generateZeroHashes toy_keccak 2, count = 0, siblings = [],
      currentRoot = [], allLeaves = {}\<rparr> 1 [replicate 32 1, replicate 32 2, replicate 32 5] =
     Inr (sibs, l1_root toy_keccak 2 [replicate 32 1, replicate 32 2, replicate 32 5]) \<and>
     length sibs = 2"
  using ComputeMerkleProof_climbs [OF toy_keccak32,
    of "\<lparr>height = 2, zeroHashes = generateZeroHashes toy_keccak 2, count = 0, siblings = [],
      currentRoot = [], allLeaves = {}\<rparr>" "[replicate 32 1, replicate 32 2, replicate 32 5]" 1]
  by auto

text \<open>
  C15. The incremental insertion is right: on a tree whose sibling array, count, root and leaf set
  describe the leaves \<open>ls\<close>, \<open>AddLeaf\<close> at the index the tree expects returns the root of the perfect
  tree over \<open>ls @ [leaf]\<close> and leaves a tree that describes \<open>ls @ [leaf]\<close>; any other index is refused.
\<close>

theorem AddLeaf_correct:
  assumes "tree_inv keccak ls mt" "length ls < 2 ^ 32" "length ls < 2 ^ unat (height mt)"
  shows "if index = of_nat (length ls)
         then \<exists>mt'. AddLeaf keccak mt index leaf = Inr (l1_root keccak (unat (height mt)) (ls @ [leaf]), mt') \<and>
                    tree_inv keccak (ls @ [leaf]) mt'
         else AddLeaf keccak mt index leaf = Inl (Err ''mismatched leaf count'')"
  using AddLeaf_inv [OF assms, of leaf] assms(1) by (auto simp: tree_inv_def AddLeaf_def)

theorem AddLeaf_correct_witness:
  "\<exists>mt mt'. NewL1InfoTree toy_keccak 4 [replicate 32 1] = Inr mt \<and>
     AddLeaf toy_keccak mt 1 (replicate 32 2) =
       Inr (l1_root toy_keccak 4 [replicate 32 1, replicate 32 2], mt')"
proof -
  obtain mt where mt: "NewL1InfoTree toy_keccak 4 [replicate 32 1] = Inr mt"
    "tree_inv toy_keccak [replicate 32 1] mt" "height mt = 4"
    using NewL1InfoTree_tree [OF toy_keccak32, of 4 "[replicate 32 1]"] by auto
  with AddLeaf_correct [OF mt(2), of 1 "replicate 32 2"] show ?thesis by auto
qed

text \<open>
  C16. Building the tree over initial leaves establishes the same invariant: \<open>NewL1InfoTree\<close> (and
  \<open>ResetL1InfoTree\<close> at height 32) returns a tree that describes exactly the leaves it was given.
\<close>

theorem NewL1InfoTree_correct:
  assumes "keccak32 keccak" "0 < h" "length ls \<le> 2 ^ unat h" "length ls + 1 < 2 ^ 32"
  shows "\<exists>mt. NewL1InfoTree keccak h ls = Inr mt \<and> height mt = h \<and> tree_inv keccak ls mt \<and>
              (h = 32 \<longrightarrow> ResetL1InfoTree keccak mt0 ls = Inr mt)"
  using NewL1InfoTree_tree [OF assms(1) _ assms(3,4)] assms(2)
  by (auto simp: word_less_nat_alt ResetL1InfoTree_def NewL1InfoTree_def)

theorem NewL1InfoTree_correct_witness:
  "\<exists>mt. NewL1InfoTree toy_keccak 32 [replicate 32 1, replicate 32 9] = Inr mt \<and> count mt = 2"
  using NewL1InfoTree_correct [OF toy_keccak32, of 32 "[replicate 32 1, replicate 32 9]"]
  by (auto simp: tree_inv_def)

text \<open>
  C12. Incremental and batch construction agree: starting from the empty tree and adding the leaves
  one by one never fails and ends in the same root, count, leaf set and zero hashes as building the
  tree over all of them at once, and \<open>BuildL1InfoRoot\<close> recomputes that root.
\<close>

theorem incremental_equals_batch:
  assumes "keccak32 keccak" "0 < h" "length ls \<le> 2 ^ unat h" "length ls + 1 < 2 ^ 32"
  shows "\<exists>mt0 mt1 mt2. NewL1InfoTree keccak h [] = Inr mt0 \<and>
           add_seq (\<lambda>mt leaf. AddLeaf keccak mt (count mt) leaf) mt0 ls = Inr mt1 \<and>
           NewL1InfoTree keccak h ls = Inr mt2 \<and>
           currentRoot mt1 = currentRoot mt2 \<and> count mt1 = count mt2 \<and>
           allLeaves mt1 = allLeaves mt2 \<and> zeroHashes mt1 = zeroHashes mt2 \<and>
           BuildL1InfoRoot keccak mt1 ls = Inr (currentRoot mt1)"
proof -
  have h: "0 < unat h" using assms(2) by (simp add: word_less_nat_alt)
  obtain mt0 where mt0: "NewL1InfoTree keccak h [] = Inr mt0" "tree_inv keccak [] mt0" "height mt0 = h"
    using NewL1InfoTree_tree [OF assms(1) h, of "[]"] by auto
  obtain mt2 where mt2: "NewL1InfoTree keccak h ls = Inr mt2" "tree_inv keccak ls mt2" "height mt2 = h"
    using NewL1InfoTree_tree [OF assms(1) h assms(3,4)] by blast
  obtain mt1 where mt1:
    "add_seq (\<lambda>mt leaf. AddLeaf keccak mt (count mt) leaf) mt0 ls = Inr mt1"
    "tree_inv keccak ls mt1" "height mt1 = h"
    using l1acc.seq_ok [of keccak "[]" mt0 h ls] mt0(2,3) assms(3,4) by auto
  have "BuildL1InfoRoot keccak mt1 ls = Inr (currentRoot mt1)"
    using BuildL1InfoRoot_root [OF assms(1) tree_inv_zeros [OF mt1(2)]] mt1 h assms(3)
    by (simp add: tree_inv_def)
  with mt0(1) mt1 mt2 show ?thesis by (auto simp: tree_inv_def)
qed

theorem incremental_equals_batch_witness:
  "\<exists>mt0 mt1. NewL1InfoTree toy_keccak 32 [] = Inr mt0 \<and>
     add_seq (\<lambda>mt leaf. AddLeaf toy_keccak mt (count mt) leaf) mt0
       [replicate 32 1, replicate 32 2, replicate 32 3] = Inr mt1 \<and>
     BuildL1InfoRoot toy_keccak mt1 [replicate 32 1, replicate 32 2, replicate 32 3] =
       Inr (currentRoot mt1)"
  using incremental_equals_batch [OF toy_keccak32, of 32
    "[replicate 32 1, replicate 32 2, replicate 32 3]"]
  by auto

end
