(* ===== verification/GoFloat.thy ===== *)
theory GoFloat
  imports Complex_Main "HOL-Library.Log_Nat" Prelude
begin

text \<open>
  The part of Go's \<open>float64\<close> arithmetic the counter code uses: conversions from \<open>int\<close>, products and
  quotients, \<open>math.Ceil\<close>, \<open>math.Floor\<close> and the conversion back. A \<open>float64\<close> is the rational it
  denotes; every operation is the exact rational result rounded to the nearest value with a 53-bit
  significand, ties to even (the range of exponents is never left by the values that occur here).
\<close>

definition round_even :: "rat \<Rightarrow> int" where
  "round_even x =
     (let f = \<lfloor>x\<rfloor>; r = x - of_int f
      in if r < 1 / 2 then f else if r > 1 / 2 then f + 1 else if even f then f else f + 1)"

text \<open>The exponent \<open>e\<close> with \<open>2\<close> to the \<open>e\<close> at most \<open>|x|\<close> and \<open>|x|\<close> below \<open>2\<close> to the \<open>e + 1\<close>.\<close>

definition expo :: "rat \<Rightarrow> int" where
  "expo x =
     (let (p, q) = quotient_of \<bar>x\<bar>; e = bitlen p - bitlen q
      in if 2 powi e \<le> \<bar>x\<bar> then e else e - 1)"

definition fl :: "rat \<Rightarrow> rat" where
  "fl x = (if x = 0 then 0
           else of_int (round_even (x / 2 powi (expo x - 52))) * 2 powi (expo x - 52))"

text \<open>\<open>float64(i)\<close>, \<open>math.Ceil(float64(a) / c)\<close> and \<open>math.Floor(float64(a) / c)\<close> converted to \<open>int\<close>.\<close>

definition float_of :: "int \<Rightarrow> rat" where
  "float_of i = fl (of_int i)"

definition ceil_div :: "int \<Rightarrow> int \<Rightarrow> int" where
  "ceil_div a c = \<lceil>fl (float_of a / of_int c)\<rceil>"

definition floor_div :: "int \<Rightarrow> int \<Rightarrow> int" where
  "floor_div a c = \<lfloor>fl (float_of a / of_int c)\<rfloor>"

section \<open>Rounding error\<close>

lemma round_even_error: "\<bar>of_int (round_even x) - x\<bar> \<le> 1 / 2"
proof -
  have "of_int \<lfloor>x\<rfloor> \<le> x" "x < of_int \<lfloor>x\<rfloor> + 1" by linarith+
  then have "\<bar>of_int \<lfloor>x\<rfloor> - x\<bar> \<le> 1 / 2 \<or> 1 / 2 \<le> x - of_int \<lfloor>x\<rfloor> \<and> \<bar>of_int (\<lfloor>x\<rfloor> + 1) - x\<bar> \<le> 1 / 2"
    and "x - of_int \<lfloor>x\<rfloor> = 1 / 2 \<Longrightarrow> \<bar>of_int \<lfloor>x\<rfloor> - x\<bar> \<le> 1 / 2"
    and "x - of_int \<lfloor>x\<rfloor> < 1 / 2 \<Longrightarrow> \<bar>of_int \<lfloor>x\<rfloor> - x\<bar> \<le> 1 / 2"
    by (simp_all add: abs_if) linarith+
  then show ?thesis unfolding round_even_def Let_def by (auto simp: not_less)
qed

lemma round_even_int [simp]: "round_even (of_int k) = k"
  by (simp add: round_even_def)

lemma bitlen_powi: "0 < p \<Longrightarrow> 2 powi (bitlen p - 1) \<le> (of_int p :: rat) \<and> (of_int p :: rat) < 2 powi bitlen p"
proof -
  assume p: "0 < p"
  have b: "bitlen p \<ge> 1" using p by (simp add: bitlen_ge_iff_power)
  have "2 ^ nat (bitlen p - 1) \<le> p" "p < 2 ^ nat (bitlen p)"
    using bitlen_bounds [OF p] by simp_all
  then have "(2 :: rat) ^ nat (bitlen p - 1) \<le> of_int p" "(of_int p :: rat) < 2 ^ nat (bitlen p)"
    by (metis of_int_le_iff of_int_numeral of_int_power, metis of_int_less_iff of_int_numeral of_int_power)
  with b show ?thesis by (simp add: power_int_def)
qed

lemma expo_bounds:
  assumes "x \<noteq> 0"
  shows "2 powi expo x \<le> \<bar>x\<bar>"
proof -
  obtain p q where pq: "quotient_of \<bar>x\<bar> = (p, q)" by (cases "quotient_of \<bar>x\<bar>")
  have q: "0 < q" using pq by (rule quotient_of_denom_pos)
  have x: "\<bar>x\<bar> = of_int p / of_int q" using pq by (rule quotient_of_div)
  have p: "0 < p" using assms x q by (metis abs_eq_0 divide_eq_0_iff not_less_iff_gr_or_eq of_int_0 of_int_0_less_iff
        abs_ge_zero divide_less_0_iff not_le of_int_less_0_iff)
  let ?e = "bitlen p - bitlen q"
  have "2 powi (?e - 1) \<le> \<bar>x\<bar>"
  proof -
    have "2 powi (?e - 1) = (2 :: rat) powi (bitlen p - 1) / 2 powi bitlen q"
      using power_int_diff [of "2 :: rat" "bitlen p - 1" "bitlen q"] by (simp add: algebra_simps)
    also have "\<dots> \<le> of_int p / of_int q"
      using bitlen_powi [OF p] bitlen_powi [OF q] q p by (intro frac_le) auto
    finally show ?thesis using x by simp
  qed
  then show ?thesis using pq by (auto simp: expo_def Let_def)
qed

lemma fl_error: "\<bar>fl x - x\<bar> \<le> \<bar>x\<bar> / 2 ^ 53"
proof (cases "x = 0")
  case False
  let ?u = "2 powi (expo x - 52) :: rat"
  have u: "0 < ?u" by simp
  have "fl x - x = (of_int (round_even (x / ?u)) - x / ?u) * ?u"
    using False u by (simp add: fl_def algebra_simps)
  then have "\<bar>fl x - x\<bar> = \<bar>of_int (round_even (x / ?u)) - x / ?u\<bar> * ?u"
    using u by (simp add: abs_mult)
  also have "\<dots> \<le> 1 / 2 * ?u"
    using round_even_error u by (intro mult_right_mono) auto
  also have "\<dots> = 2 powi expo x / 2 ^ 53"
    by (simp add: power_int_diff)
  also have "\<dots> \<le> \<bar>x\<bar> / 2 ^ 53"
    using expo_bounds [OF False] by (intro divide_right_mono) auto
  finally show ?thesis .
qed (simp add: fl_def)

section \<open>Exactness on integers\<close>

lemma fl_int:
  assumes "\<bar>k\<bar> < 2 ^ 53"
  shows "fl (of_int k) = of_int k"
proof (cases "k = 0")
  case False
  let ?e = "expo (of_int k)"
  have "2 powi ?e \<le> \<bar>of_int k :: rat\<bar>" using False by (intro expo_bounds) simp
  also have "\<dots> < 2 powi 53"
    using assms by (simp add: power_int_def)
  finally have "\<not> 53 \<le> ?e"
    using power_int_increasing [of 53 ?e "2 :: rat"] by auto
  then have e: "0 \<le> 52 - ?e" by simp
  have "(of_int k :: rat) / 2 powi (?e - 52) = of_int k * 2 powi (52 - ?e)"
    by (metis divide_inverse minus_diff_eq power_int_minus)
  also have "\<dots> = of_int (k * 2 ^ nat (52 - ?e))"
    using e by (simp add: power_int_def)
  finally have i: "(of_int k :: rat) / 2 powi (?e - 52) = of_int (k * 2 ^ nat (52 - ?e))" .
  then have "round_even ((of_int k :: rat) / 2 powi (?e - 52)) = k * 2 ^ nat (52 - ?e)"
    by (simp only: round_even_int)
  then have "fl (of_int k) = of_int (k * 2 ^ nat (52 - ?e)) * 2 powi (?e - 52)"
    using False by (simp add: fl_def)
  also have "\<dots> = of_int k" unfolding i [symmetric] by simp
  finally show ?thesis .
qed (simp add: fl_def)

lemma quotient_gap:
  assumes "0 < c" "\<not> c dvd a"
  shows "of_int (a div c) + 1 / of_int c \<le> (of_int a / of_int c :: rat)"
    and "(of_int a / of_int c :: rat) \<le> of_int (a div c) + 1 - 1 / of_int c"
proof -
  have m: "1 \<le> a mod c" "a mod c \<le> c - 1"
    using assms pos_mod_bound [OF assms(1), of a] pos_mod_sign [OF assms(1), of a]
    by (auto simp: dvd_eq_mod_eq_0)
  have a: "(of_int a :: rat) = of_int (a div c) * of_int c + of_int (a mod c)"
    by (metis div_mult_mod_eq of_int_add of_int_mult)
  have m': "(1 :: rat) \<le> of_int (a mod c)" "(of_int (a mod c) :: rat) \<le> of_int c - 1"
    using m by (metis of_int_1_le_iff, metis of_int_1 of_int_diff of_int_le_iff)
  have q: "(of_int a / of_int c :: rat) = of_int (a div c) + of_int (a mod c) / of_int c"
    using assms(1) by (subst a) (simp add: add_divide_distrib)
  have "(1 :: rat) / of_int c \<le> of_int (a mod c) / of_int c"
    using m' assms(1) by (intro divide_right_mono) auto
  then show "of_int (a div c) + 1 / of_int c \<le> (of_int a / of_int c :: rat)" by (simp add: q)
  have "(of_int (a mod c) / of_int c :: rat) \<le> (of_int c - 1) / of_int c"
    using m' assms(1) by (intro divide_right_mono) auto
  also have "\<dots> = 1 - 1 / of_int c" using assms(1) by (simp add: diff_divide_distrib)
  finally show "(of_int a / of_int c :: rat) \<le> of_int (a div c) + 1 - 1 / of_int c" by (simp add: q)
qed

lemma fl_quotient:
  assumes "0 \<le> a" "a < 2 ^ 53" "0 < c"
  shows "c dvd a \<Longrightarrow> fl (float_of a / of_int c) = of_int (a div c)"
    and "\<not> c dvd a \<Longrightarrow> of_int (a div c) < fl (float_of a / of_int c) \<and> fl (float_of a / of_int c) < of_int (a div c) + 1"
proof -
  have fa: "float_of a = of_int a"
    using assms(1,2) by (simp add: float_of_def fl_int)
  show "fl (float_of a / of_int c) = of_int (a div c)" if "c dvd a"
  proof -
    have "a div c \<le> a div 1" using assms by (intro zdiv_mono2) auto
    then have "\<bar>a div c\<bar> < 2 ^ 53" using assms by (simp add: pos_imp_zdiv_nonneg_iff)
    moreover have "(of_int a / of_int c :: rat) = of_int (a div c)"
      using that assms(3) by (auto elim!: dvdE)
    ultimately show ?thesis by (simp only: fa fl_int)
  qed
  show "of_int (a div c) < fl (float_of a / of_int c) \<and> fl (float_of a / of_int c) < of_int (a div c) + 1"
    if nd: "\<not> c dvd a"
  proof -
    let ?q = "of_int a / of_int c :: rat"
    have "\<bar>fl ?q - ?q\<bar> \<le> \<bar>?q\<bar> / 2 ^ 53" by (rule fl_error)
    also have "\<dots> = (of_int a / 2 ^ 53) / of_int c"
      using assms by simp
    also have "\<dots> < 1 / of_int c"
      using assms by (intro divide_strict_right_mono) simp_all
    finally show ?thesis
      using quotient_gap [OF assms(3) nd] unfolding fa by linarith
  qed
qed

lemma ceil_div_exact:
  assumes "0 \<le> a" "a < 2 ^ 53" "0 < c"
  shows "ceil_div a c = - (- a div c)"
proof (cases "c dvd a")
  case True
  then have "- a div c = - (a div c)" by (simp add: div_minus_right dvd_neg_div)
  then show ?thesis using fl_quotient(1) [OF assms True] by (simp add: ceil_div_def)
next
  case False
  then have "- a div c = - (a div c) - 1" using assms(3) by (simp add: zdiv_zminus1_eq_if dvd_eq_mod_eq_0)
  moreover have "\<lceil>fl (float_of a / of_int c)\<rceil> = a div c + 1"
    using fl_quotient(2) [OF assms False] by (intro ceiling_unique) auto
  ultimately show ?thesis by (simp add: ceil_div_def)
qed

lemma floor_div_exact:
  assumes "0 \<le> a" "a < 2 ^ 53" "0 < c"
  shows "floor_div a c = a div c"
  using fl_quotient [OF assms] by (cases "c dvd a") (auto simp: floor_div_def floor_eq_iff)

lemma fl_bounds:
  assumes "0 \<le> x"
  shows "x * (1 - 1 / 2 ^ 53) \<le> fl x" "fl x \<le> x * (1 + 1 / 2 ^ 53)" "0 \<le> fl x"
proof -
  have e: "\<bar>fl x - x\<bar> \<le> x / 2 ^ 53" using fl_error [of x] assms by simp
  then have "fl x - x \<le> x / 2 ^ 53" "x - fl x \<le> x / 2 ^ 53" by linarith+
  then show "x * (1 - 1 / 2 ^ 53) \<le> fl x" "fl x \<le> x * (1 + 1 / 2 ^ 53)"
    unfolding right_diff_distrib distrib_left mult_1_right times_divide_eq_right by linarith+
  have "0 \<le> x * (1 - 1 / 2 ^ 53)" using assms by (intro mult_nonneg_nonneg) simp_all
  also have "\<dots> \<le> fl x" by fact
  finally show "0 \<le> fl x" .
qed

text \<open>A value that is one per mille below \<open>x\<close> does not round above \<open>x\<close>.\<close>

lemma fl_le:
  assumes "0 \<le> q" "q \<le> x * (999 / 1000)"
  shows "fl q \<le> x"
proof -
  have x: "0 \<le> x" using assms by simp
  have "fl q \<le> q * (1 + 1 / 2 ^ 53)" by (rule fl_bounds [OF assms(1)])
  also have "\<dots> \<le> x * (999 / 1000) * (1 + 1 / 2 ^ 53)"
    using assms(2) by (intro mult_right_mono) simp_all
  also have "\<dots> \<le> x * 1" unfolding mult.assoc using x by (intro mult_left_mono) simp_all
  finally show ?thesis by simp
qed

end
