(* ===== verification/TxTypes.thy ===== *)
theory TxTypes
  imports Prelude
begin

text \<open>
  The transactions of \<open>core/types\<close> as far as the zkEVM code reads them: the structs
  \<open>CommonTx\<close>, \<open>LegacyTx\<close>, \<open>AccessListTx\<close> and \<open>DynamicFeeTransaction\<close>, the getters of the
  \<open>Transaction\<close> interface, and the EIP-155 functions \<open>DeriveChainId\<close> and \<open>isProtectedV\<close>. A
  pointer field is an option and reading through a nil pointer is a panic. The access lists,
  the cached sender and the blob transactions are not read by the modelled code and are left
  out.
\<close>

type_synonym u256 = "256 word"
type_synonym Address = "byte list"

text \<open>\<open>common.BytesToAddress\<close>: crop from the left or pad with zeroes on the left to 20 bytes.\<close>

definition BytesToAddress :: "byte list \<Rightarrow> Address" where
  "BytesToAddress b =
     (if length b > 20 then drop (length b - 20) b else replicate (20 - length b) 0 @ b)"

lemma BytesToAddress_20 [simp]: "length b = 20 \<Longrightarrow> BytesToAddress b = b"
  by (simp add: BytesToAddress_def)

record CommonTx =
  tx_ChainID :: "u256 option"
  tx_Nonce :: uint64
  tx_Gas :: uint64
  tx_To :: "Address option"
  tx_Value :: "u256 option"
  tx_Data :: "byte list"
  tx_V :: u256
  tx_R :: u256
  tx_S :: u256

text \<open>
  \<open>LegacyTx tx GasPrice\<close>, \<open>AccessListTx tx GasPrice ChainID\<close> and
  \<open>DynamicFeeTransaction tx ChainID Tip FeeCap\<close>; the last two shadow the embedded \<open>ChainID\<close>.
\<close>

datatype Transaction =
    LegacyTx CommonTx "u256 option"
  | AccessListTx CommonTx "u256 option" "u256 option"
  | DynamicFeeTransaction CommonTx "u256 option" "u256 option" "u256 option"

fun common :: "Transaction \<Rightarrow> CommonTx" where
  "common (LegacyTx c _) = c"
| "common (AccessListTx c _ _) = c"
| "common (DynamicFeeTransaction c _ _ _) = c"

definition GetNonce :: "Transaction \<Rightarrow> uint64" where "GetNonce t = tx_Nonce (common t)"
definition GetTo :: "Transaction \<Rightarrow> Address option" where "GetTo t = tx_To (common t)"
definition GetGas :: "Transaction \<Rightarrow> uint64" where "GetGas t = tx_Gas (common t)"
definition GetValue :: "Transaction \<Rightarrow> u256 option" where "GetValue t = tx_Value (common t)"
definition GetData :: "Transaction \<Rightarrow> byte list" where "GetData t = tx_Data (common t)"

definition IsContractDeploy :: "Transaction \<Rightarrow> bool" where
  "IsContractDeploy t \<longleftrightarrow> GetTo t = None"

fun GetPrice :: "Transaction \<Rightarrow> u256 option" where
  "GetPrice (LegacyTx _ price) = price"
| "GetPrice (AccessListTx _ price _) = price"
| "GetPrice (DynamicFeeTransaction _ _ tip _) = tip"

definition RawSignatureValues :: "Transaction \<Rightarrow> u256 \<times> u256 \<times> u256" where
  "RawSignatureValues t = (tx_V (common t), tx_R (common t), tx_S (common t))"

text \<open>\<open>DeriveChainId\<close>: the subtraction is on \<open>uint64\<close> when \<open>v\<close> fits, and it wraps below 35.\<close>

definition DeriveChainId :: "u256 \<Rightarrow> u256" where
  "DeriveChainId v =
     (if unat v < 2 ^ 64
      then (let v64 = ucast v :: uint64 in
            if v64 = 27 \<or> v64 = 28 then 0 else ucast ((v64 - 35) div 2))
      else (v - 35) div 2)"

definition isProtectedV :: "u256 \<Rightarrow> bool" where
  "isProtectedV v =
     (if unat v < 2 ^ 8
      then (let v64 = ucast v :: uint64 in v64 \<noteq> 27 \<and> v64 \<noteq> 28 \<and> v64 \<noteq> 1 \<and> v64 \<noteq> 0)
      else True)"

fun GetChainID :: "Transaction \<Rightarrow> u256 option" where
  "GetChainID (LegacyTx c _) = Some (DeriveChainId (tx_V c))"
| "GetChainID (AccessListTx _ _ cid) = cid"
| "GetChainID (DynamicFeeTransaction _ cid _ _) = cid"

fun Protected :: "Transaction \<Rightarrow> bool" where
  "Protected (LegacyTx c _) = isProtectedV (tx_V c)"
| "Protected (AccessListTx _ _ _) = True"
| "Protected (DynamicFeeTransaction _ _ _ _) = True"

end
