(* ===== verification/ZkLimits.thy ===== *)
theory ZkLimits
  imports GoFloat TxTypes
begin

text \<open>
  The virtual counters of the prover and their limits: \<open>Counter\<close> and \<open>Counters\<close> of
  \<open>core/vm/zk_counters.go\<close>, the limits per fork of \<open>core/vm/zk_counters_limits.go\<close>, and the
  X Layer additions of \<open>zk_counters_limits_xlayer.go\<close> and \<open>zk_counters_xlayer.go\<close>. The
  package variable \<open>gCounterLimitPercentage\<close> is an argument of the functions that read it.
\<close>

section \<open>Fork identifiers (\<open>erigon-lib/chain/zk_constants.go\<close>)\<close>

definition ForkID4 :: uint16 where "ForkID4 = 4"
definition ForkID5Dragonfruit :: uint16 where "ForkID5Dragonfruit = 5"
definition ForkID7Etrog :: uint16 where "ForkID7Etrog = 7"
definition ForkID10 :: uint16 where "ForkID10 = 10"
definition ForkID11 :: uint16 where "ForkID11 = 11"
definition ForkId13Durian :: uint16 where "ForkId13Durian = 13"

lemmas fork_defs = ForkID4_def ForkID5Dragonfruit_def ForkID7Etrog_def ForkID10_def ForkID11_def
  ForkId13Durian_def

section \<open>Counters\<close>

record Counter =
  remaining :: goint
  used :: goint
  cname :: string
  initialAmount :: goint

text \<open>A slice of pointers to counters; a nil entry is \<open>None\<close>.\<close>

type_synonym Counters = "Counter option list"

datatype CounterKey = CK_S | CK_A | CK_B | CK_M | CK_K | CK_D | CK_P | CK_SHA

primrec key_index :: "CounterKey \<Rightarrow> nat" where
  "key_index CK_S = 0"
| "key_index CK_A = 1"
| "key_index CK_B = 2"
| "key_index CK_M = 3"
| "key_index CK_K = 4"
| "key_index CK_D = 5"
| "key_index CK_P = 6"
| "key_index CK_SHA = 7"

definition CounterTypesCount :: nat where
  "CounterTypesCount = 8"

definition CounterKeyNames :: "string list" where
  "CounterKeyNames = [''S'', ''A'', ''B'', ''M'', ''K'', ''D'', ''P'', ''SHA'']"

definition Counter_Clone :: "Counter \<Rightarrow> Counter" where
  "Counter_Clone c = \<lparr>remaining = remaining c, used = used c, cname = cname c,
                      initialAmount = initialAmount c\<rparr>"

definition Counter_AsMap :: "Counter \<Rightarrow> string \<rightharpoonup> goint" where
  "Counter_AsMap c = [''remaining'' \<mapsto> remaining c, ''used'' \<mapsto> used c,
                      ''initialAmount'' \<mapsto> initialAmount c]"

definition zeroCounter :: Counter where
  "zeroCounter = \<lparr>remaining = 0, used = 0, cname = '''', initialAmount = 0\<rparr>"

definition NewCounters :: Counters where
  "NewCounters = replicate CounterTypesCount None"

definition NewEmptyCounters :: Counters where
  "NewEmptyCounters = replicate CounterTypesCount (Some zeroCounter)"

text \<open>\<open>counter_at cs i\<close> is \<open>cs[i]\<close> followed by a field access: it panics out of range and on nil.\<close>

definition counter_at :: "Counters \<Rightarrow> nat \<Rightarrow> Counter result" where
  "counter_at cs i = rbind (idx cs i) deref"

definition set_counter :: "Counters \<Rightarrow> nat \<Rightarrow> Counter \<Rightarrow> Counters result" where
  "set_counter cs i c = setidx cs i (Some c)"

text \<open>
  \<open>NewCountersFromUsedArray\<close> assigns to the elements of an empty slice; \<open>fromUsed_loop\<close> is its
  loop over \<open>used\<close> from index \<open>k\<close>.
\<close>

fun fromUsed_loop :: "Counters \<Rightarrow> nat \<Rightarrow> goint list \<Rightarrow> Counters result" where
  "fromUsed_loop res k [] = Inr res"
| "fromUsed_loop res k (v # vs) =
     rbind (set_counter res k (zeroCounter\<lparr>used := v\<rparr>)) (\<lambda>res'. fromUsed_loop res' (Suc k) vs)"

definition NewCountersFromUsedArray :: "goint list \<Rightarrow> Counters result" where
  "NewCountersFromUsedArray us = fromUsed_loop [] 0 us"

fun clone_loop :: "Counters \<Rightarrow> nat \<Rightarrow> Counters \<Rightarrow> Counters result" where
  "clone_loop res k [] = Inr res"
| "clone_loop res k (v # vs) =
     rbind (deref v) (\<lambda>c. rbind (set_counter res k (Counter_Clone c)) (\<lambda>res'. clone_loop res' (Suc k) vs))"

definition Counters_Clone :: "Counters \<Rightarrow> Counters result" where
  "Counters_Clone cs = clone_loop [] 0 cs"

fun NullateUsed :: "Counters \<Rightarrow> Counters result" where
  "NullateUsed [] = Inr []"
| "NullateUsed (v # vs) =
     rbind (deref v) (\<lambda>c. rbind (NullateUsed vs) (\<lambda>vs'. Inr (Some (c\<lparr>used := 0\<rparr>) # vs')))"

fun UsedAsArray :: "Counters \<Rightarrow> goint list result" where
  "UsedAsArray [] = Inr []"
| "UsedAsArray (v # vs) = rbind (deref v) (\<lambda>c. rbind (UsedAsArray vs) (\<lambda>us. Inr (used c # us)))"

text \<open>\<open>fmt.Sprintf("%v", n)\<close> of an \<open>int\<close>: decimal digits with a leading minus sign.\<close>

definition dec :: "goint \<Rightarrow> string" where
  "dec w = (if sint w < 0 then ''-'' @ dec_nat (nat (- sint w)) else dec_nat (nat (sint w)))"

definition entry :: "CounterKey \<Rightarrow> goint \<Rightarrow> string" where
  "entry k v = ''['' @ CounterKeyNames ! key_index k @ '': '' @ dec v @ '']''"

fun used_entries :: "Counters \<Rightarrow> CounterKey list \<Rightarrow> string result" where
  "used_entries cs [] = Inr []"
| "used_entries cs (k # ks) = rbind (counter_at cs (key_index k)) (\<lambda>c.
     rbind (used_entries cs ks) (\<lambda>res. Inr (entry k (used c) @ res)))"

definition UsedAsString :: "Counters \<Rightarrow> string result" where
  "UsedAsString cs = used_entries cs [CK_SHA, CK_A, CK_B, CK_K, CK_M, CK_P, CK_S, CK_D]"

fun overflown_entries :: "Counters \<Rightarrow> CounterKey list \<Rightarrow> string result" where
  "overflown_entries cs [] = Inr []"
| "overflown_entries cs (k # ks) = rbind (counter_at cs (key_index k)) (\<lambda>c.
     rbind (overflown_entries cs ks) (\<lambda>res.
       Inr ((if sint (remaining c) < 0 then entry k (remaining c) else []) @ res)))"

definition OverflownAsString :: "Counters \<Rightarrow> string result" where
  "OverflownAsString cs = overflown_entries cs [CK_SHA, CK_A, CK_B, CK_K, CK_M, CK_P, CK_S, CK_D]"

text \<open>The accessors return the stored pointer, which may be nil.\<close>

definition GetArithmetics :: "Counters \<Rightarrow> Counter option result" where
  "GetArithmetics cs = idx cs (key_index CK_A)"
definition GetBinaries :: "Counters \<Rightarrow> Counter option result" where
  "GetBinaries cs = idx cs (key_index CK_B)"
definition GetSHA256Hashes :: "Counters \<Rightarrow> Counter option result" where
  "GetSHA256Hashes cs = idx cs (key_index CK_SHA)"
definition GetKeccakHashes :: "Counters \<Rightarrow> Counter option result" where
  "GetKeccakHashes cs = idx cs (key_index CK_K)"
definition GetMemAligns :: "Counters \<Rightarrow> Counter option result" where
  "GetMemAligns cs = idx cs (key_index CK_M)"
definition GetPoseidonHashes :: "Counters \<Rightarrow> Counter option result" where
  "GetPoseidonHashes cs = idx cs (key_index CK_P)"
definition GetSteps :: "Counters \<Rightarrow> Counter option result" where
  "GetSteps cs = idx cs (key_index CK_S)"
definition GetPoseidonPaddings :: "Counters \<Rightarrow> Counter option result" where
  "GetPoseidonPaddings cs = idx cs (key_index CK_D)"

text \<open>A map literal over the eight keys, evaluated in the order the source writes them.\<close>

fun keyed_map :: "(CounterKey \<Rightarrow> goint result) \<Rightarrow> CounterKey list \<Rightarrow> (string \<rightharpoonup> goint) result" where
  "keyed_map f [] = Inr Map.empty"
| "keyed_map f (k # ks) =
     rbind (f k) (\<lambda>v. rbind (keyed_map f ks) (\<lambda>m. Inr (m(CounterKeyNames ! key_index k \<mapsto> v))))"

definition UsedAsMap :: "Counters \<Rightarrow> (string \<rightharpoonup> goint) result" where
  "UsedAsMap cs = keyed_map (\<lambda>k. rbind (counter_at cs (key_index k)) (\<lambda>c. Inr (used c)))
     [CK_S, CK_A, CK_B, CK_M, CK_K, CK_D, CK_P, CK_SHA]"

definition GetDifferUsedAsMap :: "Counters \<Rightarrow> Counters \<Rightarrow> (string \<rightharpoonup> goint) result" where
  "GetDifferUsedAsMap newer older = keyed_map
     (\<lambda>k. rbind (counter_at newer (key_index k)) (\<lambda>n.
          rbind (counter_at older (key_index k)) (\<lambda>c. Inr (used n - used c))))
     [CK_S, CK_A, CK_B, CK_M, CK_K, CK_D, CK_P, CK_SHA]"

section \<open>Limits\<close>

record counterLimits =
  totalSteps :: goint
  arith_limit :: goint
  binary_limit :: goint
  memAlign :: goint
  keccaks :: goint
  padding :: goint
  poseidon :: goint
  sha256 :: goint

definition stepDeduction :: goint where "stepDeduction = 200"
definition baseSafetyPercentage :: rat where "baseSafetyPercentage = fl (5 / 100)"
definition preForkId10TotalSteps :: goint where "preForkId10TotalSteps = push_bit 23 1"
definition forkId10TotalSteps :: goint where "forkId10TotalSteps = push_bit 24 1"
definition forkId11TotalSteps :: goint where "forkId11TotalSteps = push_bit 25 1"
definition MaxInt32 :: goint where "MaxInt32 = 2147483647"

definition unlimitedCounters :: counterLimits where
  "unlimitedCounters = \<lparr>totalSteps = MaxInt32, arith_limit = MaxInt32, binary_limit = MaxInt32,
     memAlign = MaxInt32, keccaks = MaxInt32, padding = MaxInt32, poseidon = MaxInt32,
     sha256 = MaxInt32\<rparr>"

definition safetyPercentages :: "uint16 \<rightharpoonup> rat" where
  "safetyPercentages = [ForkID10 \<mapsto> fl (25 / 1000), ForkID11 \<mapsto> fl (125 / 10000)]"

definition new_counter :: "goint \<Rightarrow> string \<Rightarrow> Counter" where
  "new_counter limit nm = \<lparr>remaining = limit, used = 0, cname = nm, initialAmount = limit\<rparr>"

definition createCountrsByLimits :: "counterLimits \<Rightarrow> Counters" where
  "createCountrsByLimits c = NewCounters
     [key_index CK_S := Some (new_counter (totalSteps c) ''defaultTotalSteps''),
      key_index CK_A := Some (new_counter (arith_limit c) ''arith''),
      key_index CK_B := Some (new_counter (binary_limit c) ''binary''),
      key_index CK_M := Some (new_counter (memAlign c) ''memAlign''),
      key_index CK_K := Some (new_counter (keccaks c) ''keccaks''),
      key_index CK_D := Some (new_counter (padding c) ''padding''),
      key_index CK_P := Some (new_counter (poseidon c) ''poseidon''),
      key_index CK_SHA := Some (new_counter (sha256 c) ''sha256'')]"

text \<open>Truncation toward zero, as in Go's conversion of a float64 to an integer.\<close>

definition trunc :: "rat \<Rightarrow> int" where
  "trunc q = (if q < 0 then \<lceil>q\<rceil> else \<lfloor>q\<rfloor>)"

definition rewriteTotalSteps :: "goint \<Rightarrow> goint \<Rightarrow> goint" where
  "rewriteTotalSteps gCounterLimitPercentage steps =
     (let percentage = fl (float_of (sint gCounterLimitPercentage) / 100)
      in of_int (trunc (fl (float_of (sint steps) * percentage))))"

definition getTotalSteps :: "goint \<Rightarrow> uint16 \<Rightarrow> goint" where
  "getTotalSteps pct forkId =
     (if forkId < ForkID10 then preForkId10TotalSteps
      else let steps = (if forkId = ForkID10 then forkId10TotalSteps
                        else if forkId \<ge> ForkID11 then forkId11TotalSteps else 0)
           in rewriteTotalSteps pct (steps - stepDeduction))"

definition applyDeduction :: "uint16 \<Rightarrow> goint \<Rightarrow> goint" where
  "applyDeduction fork input =
     (let deduction = (case safetyPercentages fork of Some d \<Rightarrow> d | None \<Rightarrow> baseSafetyPercentage);
          asFloat = float_of (sint input);
          reduction = fl (asFloat * deduction);
          newValue = fl (asFloat - reduction)
      in of_int \<lceil>newValue\<rceil>)"

definition getCounterLimits :: "goint \<Rightarrow> uint16 \<Rightarrow> Counters" where
  "getCounterLimits pct forkId =
     (let steps = getTotalSteps pct forkId;
          limits = \<lparr>totalSteps = applyDeduction forkId steps,
            arith_limit = applyDeduction forkId (signed_drop_bit 5 steps),
            binary_limit = applyDeduction forkId (signed_drop_bit 4 steps),
            memAlign = applyDeduction forkId (signed_drop_bit 5 steps),
            keccaks = applyDeduction forkId
              (of_int (trunc (fl (of_int (floor_div (sint steps) 155286) * 44)))),
            padding = applyDeduction forkId (of_int (floor_div (sint steps) 56)),
            poseidon = applyDeduction forkId (of_int (floor_div (sint steps) 31)),
            sha256 = applyDeduction forkId (of_int (floor_div (sint (steps - 1)) 31488) * 7)\<rparr>
      in createCountrsByLimits
           (if sint (arith_limit limits) < 500000 then limits\<lparr>arith_limit := 500000\<rparr> else limits))"

definition MinPercentage :: goint where "MinPercentage = 20"
definition MaxPercentage :: goint where "MaxPercentage = 100"

text \<open>\<open>SetBatchCounterLimitPercentage\<close> returns the new value of the package variable.\<close>

definition SetBatchCounterLimitPercentage :: "goint \<Rightarrow> goint result" where
  "SetBatchCounterLimitPercentage factor =
     (if sint factor < sint MinPercentage \<or> sint factor > sint MaxPercentage
      then Inl (Err ''counter limits percentage should be between 20 and 100'')
      else Inr factor)"

section \<open>Properties\<close>

lemma deduction_range:
  assumes "d = (case safetyPercentages fork of Some d \<Rightarrow> d | None \<Rightarrow> baseSafetyPercentage)"
  shows "1 / 100 \<le> d" "d \<le> 6 / 100"
proof -
  have "d \<in> {fl (5 / 100), fl (25 / 1000), fl (125 / 10000)}"
    using assms by (auto simp: safetyPercentages_def baseSafetyPercentage_def split: if_splits)
  then show "1 / 100 \<le> d" "d \<le> 6 / 100"
    using fl_bounds(1,2) [of "5 / 100"] fl_bounds(1,2) [of "25 / 1000"] fl_bounds(1,2) [of "125 / 10000"]
    by auto
qed

lemma sint_of_int_small: "0 \<le> n \<Longrightarrow> n < 2 ^ 62 \<Longrightarrow> sint (of_int n :: goint) = n"
  by (simp add: sint_sbintrunc' signed_take_bit_int_eq_self)

lemma applyDeduction_range:
  assumes "0 \<le> sint input" "sint input < 2 ^ 53"
  shows "0 \<le> sint (applyDeduction fork input)" "sint (applyDeduction fork input) \<le> sint input"
proof -
  define d where "d = (case safetyPercentages fork of Some d \<Rightarrow> d | None \<Rightarrow> baseSafetyPercentage)"
  note dr = deduction_range [OF d_def]
  define k where "k = sint input"
  have k: "0 \<le> k" "k < 2 ^ 53" using assms by (simp_all add: k_def)
  define x :: rat where "x = of_int k"
  have x: "float_of k = x" "0 \<le> x"
    using k by (simp_all add: float_of_def fl_int x_def)
  have xd: "0 \<le> x * d" "x * (1 / 100) \<le> x * d" "x * d \<le> x * (6 / 100)"
    using x(2) dr by (intro mult_nonneg_nonneg mult_left_mono; simp)+
  define r where "r = fl (x * d)"
  have r: "x * d * (1 - 1 / 2 ^ 53) \<le> r" "r \<le> x * d * (1 + 1 / 2 ^ 53)"
    using fl_bounds [OF xd(1)] by (simp_all add: r_def)
  have "x * d * (1 + 1 / 2 ^ 53) \<le> x * (6 / 100) * 2"
    using xd(1,3) x(2) by (intro mult_mono [of "x * d"]) simp_all
  with r(2) have "r \<le> x * (6 / 100) * 2" by (rule order_trans)
  then have r1: "0 \<le> x - r" using x(2) by simp
  have "x * (1 / 100) * (1 / 2) \<le> x * d * (1 - 1 / 2 ^ 53)"
    using xd(1,2) x(2) by (intro mult_mono [of "x * (1 / 100)"]) simp_all
  then have "x * (1 / 100) * (1 / 2) \<le> r" using r(1) by (rule order_trans)
  then have r2: "x - r \<le> x * (999 / 1000)" using x(2) by simp
  define n where "n = \<lceil>fl (x - r)\<rceil>"
  have "0 \<le> fl (x - r)" "fl (x - r) \<le> x" using fl_bounds(3) [OF r1] fl_le [OF r1 r2] by simp_all
  then have n: "0 \<le> n" "n \<le> k"
    by (simp_all add: n_def x_def ceiling_le_iff)
  have "applyDeduction fork input = of_int n"
    by (simp add: applyDeduction_def Let_def x r_def n_def d_def flip: k_def)
  moreover have "sint (of_int n :: goint) = n"
    using n k by (intro sint_of_int_small) simp_all
  ultimately show "0 \<le> sint (applyDeduction fork input)" "sint (applyDeduction fork input) \<le> sint input"
    using n by (simp_all add: k_def)
qed

lemma percentage_range:
  assumes "20 \<le> p" "p \<le> 100"
  shows "1 / 10 \<le> fl (float_of p / 100)" "fl (float_of p / 100) = 1 \<or> fl (float_of p / 100) \<le> 999 / 1000"
proof -
  have pf: "float_of p = of_int p" using assms by (simp add: float_of_def fl_int)
  have "(20 :: rat) \<le> of_int p" using assms by (metis of_int_le_iff of_int_numeral)
  then have "1 / 5 * (1 / 2) \<le> (of_int p / 100 :: rat) * (1 - 1 / 2 ^ 53)"
    by (intro mult_mono) simp_all
  also have "\<dots> \<le> fl (of_int p / 100)" using assms by (intro fl_bounds(1)) simp
  finally show "1 / 10 \<le> fl (float_of p / 100)" by (simp add: pf)
  show "fl (float_of p / 100) = 1 \<or> fl (float_of p / 100) \<le> 999 / 1000"
  proof (cases "p = 100")
    case True
    then show ?thesis using fl_int [of 1] pf by simp
  next
    case False
    then have "p \<le> 99" using assms by simp
    then have p: "(of_int p :: rat) \<le> 99" by (metis of_int_le_iff of_int_numeral)
    have "fl (of_int p / 100) \<le> of_int p / 100 * (1 + 1 / 2 ^ 53)"
      using assms by (intro fl_bounds(2)) simp
    also have "\<dots> \<le> 99 / 100 * (1 + 1 / 2 ^ 53)"
      using p by (intro mult_right_mono) simp_all
    finally show ?thesis by (simp add: pf)
  qed
qed

lemma rewriteTotalSteps_range:
  assumes "20 \<le> sint pct" "sint pct \<le> 100" "20 \<le> sint steps" "sint steps < 2 ^ 53"
  shows "1 \<le> sint (rewriteTotalSteps pct steps)" "sint (rewriteTotalSteps pct steps) \<le> sint steps"
proof -
  define k where "k = sint steps"
  have k: "20 \<le> k" "k < 2 ^ 53" using assms by (simp_all add: k_def)
  define x :: rat where "x = of_int k"
  have "(20 :: rat) \<le> of_int k" using k(1) by (metis of_int_le_iff of_int_numeral)
  then have x: "float_of k = x" "20 \<le> x" "fl x = x"
    using k by (simp_all add: float_of_def fl_int x_def)
  define q where "q = fl (float_of (sint pct) / 100)"
  note q = percentage_range [OF assms(1,2), folded q_def]
  have bound: "1 \<le> fl (x * q)" "fl (x * q) \<le> x"
  proof -
    have "20 * (1 / 10) * (1 / 2) \<le> x * q * (1 - 1 / 2 ^ 53)"
      using x(2) q(1) by (intro mult_mono) simp_all
    also have "\<dots> \<le> fl (x * q)" using x(2) q(1) by (intro fl_bounds(1)) simp
    finally show "1 \<le> fl (x * q)" by simp
    show "fl (x * q) \<le> x"
    proof (cases "q = 1")
      case False
      then show ?thesis using q x(2) by (intro fl_le mult_left_mono mult_nonneg_nonneg) simp_all
    qed (simp add: x(3))
  qed
  define n where "n = \<lfloor>fl (x * q)\<rfloor>"
  have n: "1 \<le> n" "n \<le> k"
    using bound unfolding n_def x_def by (simp_all add: le_floor_iff) linarith
  have "rewriteTotalSteps pct steps = of_int n"
    using bound by (simp add: rewriteTotalSteps_def Let_def x n_def trunc_def flip: q_def k_def)
  moreover have "sint (of_int n :: goint) = n"
    using n k by (intro sint_of_int_small) simp_all
  ultimately show "1 \<le> sint (rewriteTotalSteps pct steps)"
    "sint (rewriteTotalSteps pct steps) \<le> sint steps" using n by (simp_all add: k_def)
qed

lemma getTotalSteps_range:
  assumes "20 \<le> sint pct" "sint pct \<le> 100"
  shows "1 \<le> sint (getTotalSteps pct forkId)" "sint (getTotalSteps pct forkId) \<le> 2 ^ 25"
proof -
  have s10: "sint (forkId10TotalSteps - stepDeduction) = 2 ^ 24 - 200"
    and s11: "sint (forkId11TotalSteps - stepDeduction) = 2 ^ 25 - 200"
    and pre: "sint preForkId10TotalSteps = 2 ^ 23"
    by (simp_all add: forkId10TotalSteps_def forkId11TotalSteps_def preForkId10TotalSteps_def
        stepDeduction_def)
  have "forkId < ForkID10 \<or> forkId = ForkID10 \<or> forkId \<ge> ForkID11 \<and> forkId \<noteq> ForkID10"
    by (auto simp: fork_defs word_less_nat_alt word_le_nat_alt word_unat_eq_iff)
  then consider "forkId < ForkID10" | "forkId = ForkID10"
    | "\<not> forkId < ForkID10" "forkId \<noteq> ForkID10" "forkId \<ge> ForkID11"
    by (cases "forkId < ForkID10") auto
  then show "1 \<le> sint (getTotalSteps pct forkId)" "sint (getTotalSteps pct forkId) \<le> 2 ^ 25"
    using rewriteTotalSteps_range [OF assms, of "forkId10TotalSteps - stepDeduction"]
      rewriteTotalSteps_range [OF assms, of "forkId11TotalSteps - stepDeduction"]
    by (cases; simp add: getTotalSteps_def s10 s11 pre)+
qed

definition in_limit :: "goint \<Rightarrow> bool" where
  "in_limit w \<longleftrightarrow> 0 \<le> sint w \<and> sint w \<le> 2 ^ 25"

lemma in_limit_applyDeduction: "in_limit w \<Longrightarrow> in_limit (applyDeduction fork w)"
  using applyDeduction_range [of w fork] by (auto simp: in_limit_def)

lemma in_limit_shift:
  assumes "1 \<le> sint s" "sint s \<le> 2 ^ 25"
  shows "in_limit (signed_drop_bit k s)"
proof -
  have "sint s div 2 ^ k \<le> sint s div 1" using assms by (intro zdiv_mono2) simp_all
  then show ?thesis
    using assms by (simp add: in_limit_def sint_signed_drop_bit_eq drop_bit_eq_div pos_imp_zdiv_nonneg_iff)
qed

lemma in_limit_quotient:
  assumes "0 \<le> k" "k \<le> 2 ^ 25" "0 < c" "0 < m" "m \<le> c"
  shows "in_limit (of_int (k div c * m))" "k div c * m < 2 ^ 53" "0 \<le> k div c * m"
proof -
  have q: "0 \<le> k div c" using assms by (simp add: pos_imp_zdiv_nonneg_iff)
  have "k div c * m \<le> k div c * c" using assms q by (intro mult_left_mono) simp_all
  also have "\<dots> \<le> k" using assms
    by (metis div_mult_mod_eq le_add_same_cancel1 pos_mod_sign)
  finally have "k div c * m \<le> k" .
  moreover have "0 \<le> k div c * m" using q assms by simp
  moreover from calculation have "sint (of_int (k div c * m) :: goint) = k div c * m"
    using assms by (intro sint_of_int_small) simp_all
  ultimately show "in_limit (of_int (k div c * m))" "k div c * m < 2 ^ 53" "0 \<le> k div c * m"
    using assms by (simp_all only: in_limit_def) simp_all
qed

lemma in_limit_counters:
  assumes "Some c \<in> set (createCountrsByLimits l)"
    and "in_limit (totalSteps l)" "in_limit (arith_limit l)" "in_limit (binary_limit l)"
      "in_limit (memAlign l)" "in_limit (keccaks l)" "in_limit (padding l)" "in_limit (poseidon l)"
      "in_limit (sha256 l)"
  shows "used c = 0 \<and> remaining c = initialAmount c \<and> in_limit (initialAmount c)"
  using assms by (auto simp: createCountrsByLimits_def NewCounters_def CounterTypesCount_def
      new_counter_def numeral_nat)

lemma in_limit_floor_div:
  assumes "0 \<le> k" "k \<le> 2 ^ 25"
  shows "in_limit (of_int (floor_div k 56))" "in_limit (of_int (floor_div k 31))"
    "in_limit (of_int (floor_div k 31488) * 7)"
    "in_limit (of_int (trunc (fl (of_int (floor_div k 155286) * 44))))"
proof -
  have e: "floor_div k c = k div c" if "0 < c" for c
    using assms that by (intro floor_div_exact) simp_all
  show "in_limit (of_int (floor_div k 56))" "in_limit (of_int (floor_div k 31))"
    "in_limit (of_int (floor_div k 31488) * 7)"
    using in_limit_quotient(1) [of k 56 1] in_limit_quotient(1) [of k 31 1]
      in_limit_quotient(1) [of k 31488 7] assms by (simp_all add: e)
  note q = in_limit_quotient [of k 155286 44]
  have "fl (of_int (k div 155286) * 44) = fl (of_int (k div 155286 * 44))" by simp
  also have "\<dots> = of_int (k div 155286 * 44)" using q assms by (intro fl_int) simp
  finally have "trunc (fl (of_int (k div 155286) * 44)) = k div 155286 * 44"
    unfolding trunc_def by (simp only: ceiling_of_int floor_of_int if_cancel)
  then show "in_limit (of_int (trunc (fl (of_int (floor_div k 155286) * 44))))"
    using q(1) assms by (simp only: e)
qed

text \<open>
  C19. Whatever percentage the operator configures, the limits of every fork are sane: a fresh set of
  counters has nothing used, all of its limit remaining, and each limit is between zero and the
  \<open>2^25\<close> steps of the largest fork, so that the 64-bit accounting starts far from any wrap-around.
\<close>

theorem counter_limits_in_range:
  assumes "SetBatchCounterLimitPercentage factor = Inr pct"
    and "Some c \<in> set (getCounterLimits pct forkId)"
  shows "used c = 0 \<and> remaining c = initialAmount c \<and> 0 \<le> sint (initialAmount c) \<and>
         sint (initialAmount c) \<le> 2 ^ 25"
proof -
  have "20 \<le> sint pct" "sint pct \<le> 100"
    using assms(1) by (auto simp: SetBatchCounterLimitPercentage_def MinPercentage_def MaxPercentage_def
        split: if_splits)
  note t = getTotalSteps_range [OF this, of forkId]
  have t': "in_limit (getTotalSteps pct forkId)" using t by (simp add: in_limit_def)
  have m1: "sint (getTotalSteps pct forkId - 1) = sint (getTotalSteps pct forkId) - 1"
    using t sint_of_int_small [of "sint (getTotalSteps pct forkId) - 1"] by simp
  note in_limit_floor_div [of "sint (getTotalSteps pct forkId)"]
    in_limit_floor_div(3) [of "sint (getTotalSteps pct forkId) - 1"]
  moreover have "in_limit 500000" by (simp add: in_limit_def)
  ultimately have "used c = 0 \<and> remaining c = initialAmount c \<and> in_limit (initialAmount c)"
    using t assms(2) unfolding getCounterLimits_def Let_def
    by (intro in_limit_counters [of c "if sint (arith_limit _) < 500000 then _ else _"])
      (auto intro!: in_limit_applyDeduction in_limit_shift t' simp: m1)
  then show ?thesis by (simp add: in_limit_def)
qed

theorem counter_limits_in_range_witness:
  "SetBatchCounterLimitPercentage 100 = Inr 100 \<and>
   (\<exists>c. Some c \<in> set (getCounterLimits 100 12) \<and> cname c = ''arith'' \<and>
        used c = 0 \<and> sint (initialAmount c) \<le> 2 ^ 25)"
proof -
  have p: "SetBatchCounterLimitPercentage 100 = Inr 100"
    by (simp add: SetBatchCounterLimitPercentage_def MinPercentage_def MaxPercentage_def)
  have "Some (new_counter (arith_limit l) ''arith'') \<in> set (createCountrsByLimits l)" for l
    by (simp add: createCountrsByLimits_def NewCounters_def CounterTypesCount_def numeral_nat)
  moreover have "cname (new_counter n ''arith'') = ''arith''" for n by (simp add: new_counter_def)
  ultimately obtain c where "Some c \<in> set (getCounterLimits 100 12)" "cname c = ''arith''"
    unfolding getCounterLimits_def Let_def by blast
  with p counter_limits_in_range [OF p] show ?thesis by blast
qed

text \<open>The loop assigns to the elements of an empty slice, so only the empty input gives counters.\<close>

lemma NewCountersFromUsedArray_panics: "us \<noteq> [] \<Longrightarrow> NewCountersFromUsedArray us = Inl (Panic ''index out of range'')"
  by (cases us) (simp_all add: NewCountersFromUsedArray_def set_counter_def setidx_def)

end
