(* ===== verification/ModExpCounters.thy ===== *)
theory ModExpCounters
  imports GoFloat "HOL-Library.Signed_Division"
begin

text \<open>
  \<open>core/vm/virtual_counters_util.go\<close>: the expected counters of the MODEXP precompile. Values of
  \<open>big.Int\<close> are integers; a function that changes the object behind one of its pointer arguments
  returns the changed value as well. Lengths are Go \<open>int\<close>s and keep their 64-bit width.
\<close>

section \<open>The operations of \<open>big.Int\<close> the source calls\<close>

text \<open>Euclidean division and remainder; a zero divisor panics.\<close>

definition big_Div :: "int \<Rightarrow> int \<Rightarrow> int result" where
  "big_Div x y = (if y = 0 then Inl (Panic ''division by zero'') else Inr (sgn y * (x div \<bar>y\<bar>)))"

definition big_Mod :: "int \<Rightarrow> int \<Rightarrow> int result" where
  "big_Mod x y = (if y = 0 then Inl (Panic ''division by zero'') else Inr (x mod \<bar>y\<bar>))"

text \<open>\<open>z.Mul(x, y)\<close> and \<open>z.Add(x, y)\<close> overwrite their receiver: the old value of \<open>z\<close> does not matter.\<close>

definition big_Mul :: "int \<Rightarrow> int \<Rightarrow> int" where
  "big_Mul x y = x * y"

definition big_Add :: "int \<Rightarrow> int \<Rightarrow> int \<Rightarrow> int" where
  "big_Add z x y = x + y"

text \<open>The quotient of Go \<open>int\<close>s truncates toward zero.\<close>

definition quo :: "goint \<Rightarrow> goint \<Rightarrow> goint" where
  "quo a b = of_int (sint a sdiv sint b)"

section \<open>The functions of the file\<close>

definition newInt :: "goint \<Rightarrow> int" where
  "newInt i = uint i"

definition newMul :: "int \<Rightarrow> int list \<Rightarrow> int" where
  "newMul x vals = foldl (\<lambda>res val. res * val) (newInt 0) vals"

text \<open>The loop \<open>for x.Cmp(0) == 1\<close> of \<open>computeLenThisBase\<close>: it shifts the caller's object.\<close>

function len_loop :: "int \<Rightarrow> goint \<Rightarrow> goint \<times> int" where
  "len_loop x len = (if x > 0 then len_loop (drop_bit 256 x) (len + 1) else (len, x))"
  by pat_completeness auto
termination
proof (relation "measure (\<lambda>(x, _). nat x)")
  fix x :: int and len :: goint
  assume "x > 0"
  then have "x div 2 ^ 256 < x" by (intro int_div_less_self) simp_all
  then show "((drop_bit 256 x, len + 1), (x, len)) \<in> measure (\<lambda>(x, _). nat x)"
    using \<open>x > 0\<close> by (simp add: drop_bit_eq_div)
qed simp

definition computeLenThisBase :: "int \<Rightarrow> goint \<times> int" where
  "computeLenThisBase x = (if x = 0 then (1, x) else len_loop x 0)"

definition setupAndFirstDivCounters :: "goint \<Rightarrow> goint \<Rightarrow> int \<Rightarrow> int \<Rightarrow> int \<times> int \<times> int" where
  "setupAndFirstDivCounters lenB lenM q r =
     (let steps = newInt 84;
          steps = steps + newInt 2;
          steps = steps + newMul (newInt 10) [newInt lenB];
          steps = steps + newMul (newInt 3) [newInt lenM];
          (lq, q) = computeLenThisBase q;
          steps = steps + newMul (newInt (8 + 19 * lenM)) [newInt lq];
          (lr, r) = computeLenThisBase r;
          steps = steps + newMul (newInt 12) [newInt lr];
          binaries = newInt 4;
          binaries = binaries - newInt lenM;
          (lr, r) = computeLenThisBase r;
          binaries = binaries + newInt lr;
          (lq, q) = computeLenThisBase q;
          binaries = binaries + newMul (newInt 2) [newInt lq, newInt lenM];
          (lq, q) = computeLenThisBase q;
          ariths = newInt (lenM * lq)
      in (steps, binaries, ariths))"

definition halfLoopCounters :: "goint \<Rightarrow> goint \<Rightarrow> goint \<Rightarrow> int \<Rightarrow> int \<times> int \<times> int" where
  "halfLoopCounters lenB lenM lenE lenQE2 =
     (let steps = newInt 153;
          steps = steps + newMul (newInt 82) [newInt lenM];
          steps = steps + newMul (newInt 6) [newInt lenE];
          steps = steps + newInt (quo (80 * lenM * (lenM - 1)) 2);
          steps = steps + newMul (newInt 19) [newInt (lenM * lenM)];
          steps = steps + newMul (newInt 25) [lenQE2];
          binaries = newInt 9;
          binaries = binaries + newMul (newInt 6) [newInt lenM];
          binaries = binaries + newInt (quo (23 * lenM * (lenM - 1)) 2);
          binaries = binaries + newMul (newInt 2) [newInt (lenM * lenM)];
          binaries = binaries + newMul (newInt 3) [lenQE2];
          ariths = newInt (- 1);
          ariths = ariths + newMul (newInt 2) [newInt lenM];
          ariths = ariths + newInt (quo (2 * lenM * (lenM - 1)) 2);
          ariths = ariths + newInt (lenM * lenM)
      in (steps, binaries, ariths))"

definition fullLoopCounters :: "goint \<Rightarrow> goint \<Rightarrow> goint \<Rightarrow> int \<Rightarrow> int \<times> int \<times> int" where
  "fullLoopCounters lenB lenM lenE lenQE2 =
     (let steps = newInt 263;
          steps = steps + newMul (newInt 114) [newInt lenM];
          steps = steps + newMul (newInt 6) [newInt lenE];
          steps = steps + newInt (quo (80 * lenM * (lenM - 1)) 2);
          steps = steps + newMul (newInt 57) [newInt (lenM * lenM)];
          steps = steps + newMul (newInt 25) [lenQE2];
          binaries = newInt 17;
          binaries = binaries + newMul (newInt 3) [newInt lenM];
          binaries = binaries + newInt (quo (23 * lenM * (lenM - 1)) 2);
          binaries = binaries + newMul (newInt 6) [newInt (lenM * lenM)];
          binaries = binaries + newMul (newInt 3) [lenQE2];
          ariths = newInt (- 1);
          ariths = ariths + newMul (newInt 2) [newInt lenM];
          ariths = ariths + newInt (quo (2 * lenM * (lenM - 1)) 2);
          ariths = ariths + newMul (newInt 3) [newInt (lenM * lenM)]
      in (steps, binaries, ariths))"

definition combineResults :: "int \<Rightarrow> int \<Rightarrow> int \<Rightarrow> int \<Rightarrow> int \<Rightarrow> int" where
  "combineResults nTimesOdd nTimesEven firstDiv halfLoop fullLoop =
     (let stepsOdd = nTimesOdd; stepsEven = nTimesEven;
          stepsEven = stepsEven * halfLoop;
          stepsOdd = stepsOdd * fullLoop;
          result = firstDiv;
          result = result + stepsEven
      in result + stepsOdd)"

text \<open>The loop over the bits of the exponent; it shifts the caller's exponent down to zero.\<close>

function odd_loop :: "int \<Rightarrow> int \<Rightarrow> int \<times> int" where
  "odd_loop e n = (if e > 0 then odd_loop (drop_bit 1 e) (n + (e AND 1)) else (n, e))"
  by pat_completeness auto
termination
proof (relation "measure (\<lambda>(e, _). nat e)")
  fix e n :: int
  assume "e > 0"
  then show "((drop_bit 1 e, n + (e AND 1)), (e, n)) \<in> measure (\<lambda>(e, _). nat e)"
    by (simp add: drop_bit_eq_div)
qed simp

definition expectedModExpCounters ::
  "goint \<Rightarrow> goint \<Rightarrow> goint \<Rightarrow> int \<Rightarrow> int \<Rightarrow> int \<Rightarrow> (int \<times> int \<times> int) result" where
  "expectedModExpCounters lenB lenE lenM B E M =
     rbind (big_Div B M) (\<lambda>q_b_m. rbind (big_Mod B M) (\<lambda>r_b_m.
     let lenQE2 = uint (of_int (floor_div (sint lenE) 2) :: uint64);
         (nTimesOdd, E) = odd_loop E 0;
         nTimesEven = uint lenE * 256;
         (stepFirstDiv, binaryFirstDiv, arithFirstDiv) = setupAndFirstDivCounters lenB lenM q_b_m r_b_m;
         (stepHalfLoop, binaryHalfLoop, arithHalfLoop) = halfLoopCounters lenB lenM lenE lenQE2;
         (stepFullLoop, binaryFullLoop, arithFullLoop) = fullLoopCounters lenB lenM lenE lenQE2
     in Inr (combineResults nTimesOdd nTimesEven stepFirstDiv stepHalfLoop stepFullLoop,
             combineResults nTimesOdd nTimesEven binaryFirstDiv binaryHalfLoop binaryFullLoop,
             combineResults nTimesOdd nTimesEven arithFirstDiv arithHalfLoop arithFullLoop)))"

declare len_loop.simps [simp del] odd_loop.simps [simp del]

section \<open>What the estimate depends on\<close>

lemma newMul_Cons [simp]: "newMul x (v # vs) = 0"
proof -
  have "foldl (*) 0 vs = (0 :: int)" by (induction vs) simp_all
  then show ?thesis by (simp add: newMul_def newInt_def)
qed

lemma finite_bits: "0 \<le> (e :: int) \<Longrightarrow> finite {i. bit e i}"
proof -
  assume e: "0 \<le> e"
  then have small: "e < 2 ^ nat e" by (metis nat_eq_iff2 of_nat_less_two_power)
  have "i < nat e" if "bit e i" for i
  proof (rule ccontr)
    assume "\<not> i < nat e"
    then have "(2 :: int) ^ nat e \<le> 2 ^ i" by (intro power_increasing) simp_all
    with small have "e < 2 ^ i" by (rule order_less_le_trans)
    with e have "e div 2 ^ i = 0" by (rule div_pos_pos_trivial)
    with that show False by (simp add: bit_iff_odd)
  qed
  then have "{i. bit e i} \<subseteq> {..<nat e}" by auto
  then show ?thesis by (rule finite_subset) simp
qed

lemma card_bits_step:
  assumes "0 < (e :: int)"
  shows "int (card {i. bit e i}) = (e AND 1) + int (card {i. bit (drop_bit 1 e) i})"
proof -
  have split: "{i. bit e i} = {i. i = 0 \<and> bit e 0} \<union> Suc ` {i. bit (drop_bit 1 e) i}"
  proof (rule set_eqI)
    fix i show "i \<in> {i. bit e i} \<longleftrightarrow> i \<in> {i. i = 0 \<and> bit e 0} \<union> Suc ` {i. bit (drop_bit 1 e) i}"
      by (cases i) (auto simp: bit_simps)
  qed
  have "finite {i. bit (drop_bit 1 e) i}" using assms by (intro finite_bits) simp
  then have "card {i. bit e i} = card {i :: nat. i = 0 \<and> bit e 0} + card {i. bit (drop_bit 1 e) i}"
    by (subst split) (subst card_Un_disjoint, auto simp: card_image)
  moreover have "int (card {i. i = (0 :: nat) \<and> bit e 0}) = (e AND 1)"
    by (cases "bit e 0") (simp_all add: and_one_eq bit_0 odd_iff_mod_2_eq_one even_iff_mod_2_eq_zero)
  ultimately show ?thesis by simp
qed

lemma odd_loop_bits: "0 \<le> e \<Longrightarrow> odd_loop e n = (n + int (card {i. bit e i}), 0)"
proof (induction e n rule: odd_loop.induct)
  case (1 e n)
  show ?case
  proof (cases "e > 0")
    case True
    then show ?thesis
      using "1.IH" card_bits_step [OF True] by (subst odd_loop.simps) simp
  next
    case False
    with "1.prems" have "e = 0" by simp
    then show ?thesis by (subst odd_loop.simps) (simp add: bot_fun_def)
  qed
qed

text \<open>
  C28. The number of steps charged for a modular exponentiation depends on the length of the modulus,
  the length of the exponent and the number of one bits of the exponent only: neither the base nor
  its length enters, because every product \<open>newMul\<close> computes is zero.
\<close>

theorem modexp_steps_closed_form:
  assumes "M \<noteq> 0" "0 \<le> E"
  shows "\<exists>binary arith.
    expectedModExpCounters lenB lenE lenM B E M =
      Inr (86 + uint lenE * 256 * (153 + uint (quo (80 * lenM * (lenM - 1)) 2)) +
           int (card {i. bit E i}) * (263 + uint (quo (80 * lenM * (lenM - 1)) 2)), binary, arith)"
  using assms
  by (simp add: expectedModExpCounters_def big_Div_def big_Mod_def odd_loop_bits
      setupAndFirstDivCounters_def halfLoopCounters_def fullLoopCounters_def combineResults_def
      newInt_def Let_def split_def)

theorem modexp_steps_closed_form_witness:
  "\<exists>binary arith. expectedModExpCounters 1 1 1 12345 5 7 =
     Inr (86 + 256 * 153 + int (card {i. bit (5 :: int) i}) * 263, binary, arith)"
  using modexp_steps_closed_form [of 7 5 1 1 1 12345] by (simp add: quo_def)

end
