(* ===== verification/DbUtils.thy ===== *)
theory DbUtils
  imports TxTypes
begin

text \<open>
  The byte codecs of \<open>zk/hermez_db/utils.go\<close>: big-endian integers and the composite keys under
  which the node stores sequences, verifications and global exit roots.
\<close>

section \<open>Big-endian integers\<close>

definition Uint64ToBytes :: "uint64 \<Rightarrow> byte list" where
  "Uint64ToBytes i =
     [ucast (drop_bit 56 i), ucast (drop_bit 48 i), ucast (drop_bit 40 i), ucast (drop_bit 32 i),
      ucast (drop_bit 24 i), ucast (drop_bit 16 i), ucast (drop_bit 8 i), ucast i]"

text \<open>\<open>binary.BigEndian.Uint64\<close>: the first eight bytes; a shorter slice panics.\<close>

definition BigEndian_Uint64 :: "byte list \<Rightarrow> uint64 result" where
  "BigEndian_Uint64 b =
     (if length b < 8 then Inl (Panic ''index out of range'')
      else Inr (ucast (b ! 7) OR push_bit 8 (ucast (b ! 6)) OR push_bit 16 (ucast (b ! 5)) OR
                push_bit 24 (ucast (b ! 4)) OR push_bit 32 (ucast (b ! 3)) OR
                push_bit 40 (ucast (b ! 2)) OR push_bit 48 (ucast (b ! 1)) OR
                push_bit 56 (ucast (b ! 0))))"

definition BytesToUint64 :: "byte list \<Rightarrow> uint64 result" where
  "BytesToUint64 b = (if length b < 8 then Inr 0 else BigEndian_Uint64 b)"

definition BytesToUint8 :: "byte list \<Rightarrow> uint8" where
  "BytesToUint8 b = (if length b < 1 then 0 else b ! 0)"

definition Uint8ToBytes :: "uint8 \<Rightarrow> byte list" where
  "Uint8ToBytes i = [i]"

section \<open>Composite keys\<close>

definition ConcatKey :: "uint64 \<Rightarrow> uint64 \<Rightarrow> byte list" where
  "ConcatKey l1BlockNo batchNo = Uint64ToBytes l1BlockNo @ Uint64ToBytes batchNo"

definition SplitKey :: "byte list \<Rightarrow> (uint64 \<times> uint64) result" where
  "SplitKey data =
     (if length data \<noteq> 16 then Inl (Err ''data length is not 16 bytes'')
      else rbind (BytesToUint64 (take 8 data)) (\<lambda>l1blockno.
           rbind (BytesToUint64 (drop 8 data)) (\<lambda>batchno. Inr (l1blockno, batchno))))"

definition emptyHash :: Hash32 where
  "emptyHash = replicate 32 0"

definition ConcatGerKey :: "uint64 \<Rightarrow> Hash32 \<Rightarrow> byte list" where
  "ConcatGerKey blockNo l1BlockHash =
     (if l1BlockHash = emptyHash then Uint64ToBytes blockNo else Uint64ToBytes blockNo @ l1BlockHash)"

definition SplitGerKey :: "byte list \<Rightarrow> (uint64 \<times> Hash32 option) result" where
  "SplitGerKey data =
     (if length data \<noteq> 40 \<and> length data \<noteq> 8
      then Inl (Err ''data length is not 8 bytes or 40 bytes'')
      else if length data = 8 then rbind (BytesToUint64 data) (\<lambda>n. Inr (n, None))
      else rbind (BytesToUint64 (take 8 data)) (\<lambda>n. Inr (n, Some (BytesToHash (drop 8 data)))))"

section \<open>Round trips and order\<close>

lemma length_Uint64ToBytes [simp]: "length (Uint64ToBytes i) = 8"
  by (simp add: Uint64ToBytes_def)

lemma split_low_byte:
  "ucast (ucast x :: byte) OR push_bit 8 (drop_bit 8 x) = (x :: uint64)"
proof (rule bit_word_eqI)
  fix n assume "n < LENGTH(64)"
  then show "bit (ucast (ucast x :: byte) OR push_bit 8 (drop_bit 8 x)) n = bit x n"
    by (cases "n < 8") (auto simp: bit_simps)
qed

lemma push_split_low_byte:
  "push_bit n (drop_bit n x) =
   push_bit n (ucast (ucast (drop_bit n x) :: byte)) OR push_bit (n + 8) (drop_bit (n + 8) (x :: uint64))"
  using arg_cong [OF split_low_byte [of "drop_bit n x"], of "push_bit n"]
  by (simp add: push_bit_or ac_simps)

lemma BigEndian_Uint64ToBytes [simp]: "BigEndian_Uint64 (Uint64ToBytes i @ rest) = Inr i"
proof -
  have z: "drop_bit 64 i = 0"
    by (rule bit_word_eqI) (auto simp: bit_simps dest: bit_imp_le_length)
  have "i = ucast (ucast i :: byte) OR push_bit 8 (drop_bit 8 i)"
    by (simp add: split_low_byte)
  also note push_split_low_byte [of 8 i, simplified]
  also note push_split_low_byte [of 16 i, simplified]
  also note push_split_low_byte [of 24 i, simplified]
  also note push_split_low_byte [of 32 i, simplified]
  also note push_split_low_byte [of 40 i, simplified]
  also note push_split_low_byte [of 48 i, simplified]
  also note push_split_low_byte [of 56 i, simplified, unfolded z]
  finally show ?thesis
    by (simp add: BigEndian_Uint64_def Uint64ToBytes_def)
qed

lemma BytesToUint64_Uint64ToBytes [simp]:
  "BytesToUint64 (Uint64ToBytes i) = Inr i" "BytesToUint64 (Uint64ToBytes i @ rest) = Inr i"
  using BigEndian_Uint64ToBytes [of i "[]"] by (simp_all add: BytesToUint64_def)

lemma unat_byte_of_drop:
  "unat (ucast (drop_bit k (i :: uint64)) :: byte) = unat i div 2 ^ k mod 256"
  unfolding unsigned_ucast_eq unat_drop_bit_eq by (simp add: take_bit_eq_mod drop_bit_eq_div)

lemma SetBytes_Uint64ToBytes [simp]: "SetBytes (Uint64ToBytes i) = unat i"
proof -
  define d where "d k = unat i div 256 ^ k" for k
  have step: "d (k + 1) * 256 + d k mod 256 = d k" for k
    unfolding d_def by (metis Suc_eq_plus1 div_mult2_eq div_mult_mod_eq power_Suc2)
  have "unat i < 2 ^ 64" using unsigned_less [of i, where ?'a = nat] by simp
  then have "d 7 < 256" unfolding d_def by (intro less_mult_imp_div_less) simp
  then have top: "d 7 mod 256 = d 7" by simp
  have bytes: "unat (ucast (drop_bit (8 * k) i) :: byte) = d k mod 256" for k
    unfolding unat_byte_of_drop d_def by (simp add: power_mult)
  have map: "Uint64ToBytes i = map (\<lambda>k. ucast (drop_bit (8 * k) i)) [7, 6, 5, 4, 3, 2, 1, 0]"
    by (simp add: Uint64ToBytes_def)
  have "SetBytes (Uint64ToBytes i) =
        ((((((d 7 * 256 + d 6 mod 256) * 256 + d 5 mod 256) * 256 + d 4 mod 256) * 256 +
          d 3 mod 256) * 256 + d 2 mod 256) * 256 + d 1 mod 256) * 256 + d 0 mod 256"
    unfolding map SetBytes_def list.map foldl.simps bytes top mult_0 add_0 ..
  also have "\<dots> = d 0"
    using step [of 0] step [of 1] step [of 2] step [of 3] step [of 4] step [of 5] step [of 6]
    by (simp flip: numeral_2_eq_2)
  finally show ?thesis by (simp add: d_def)
qed

text \<open>
  C26. The two keys of the L1 sequence and verification tables split into exactly the L1 block
  number and the batch number they were built from.
\<close>

theorem SplitKey_ConcatKey: "SplitKey (ConcatKey l1BlockNo batchNo) = Inr (l1BlockNo, batchNo)"
  by (simp add: SplitKey_def ConcatKey_def)

text \<open>
  C27. The order of the composite keys as byte strings, which is the order in which the database
  cursors walk them, is the order of the pairs of numbers: first the L1 block number, then the
  batch number.
\<close>

theorem ConcatKey_order:
  "(ConcatKey a b, ConcatKey c d) \<in> lexord {(x, y). x < y} \<longleftrightarrow> a < c \<or> (a = c \<and> b < d)"
proof -
  have m: "unat x < 2 ^ 64" for x :: uint64
    using unsigned_less [of x, where ?'a = nat] by simp
  have "(ConcatKey a b, ConcatKey c d) \<in> lexord {(x, y). x < y} \<longleftrightarrow>
        unat a * 2 ^ 64 + unat b < unat c * 2 ^ 64 + unat d"
    by (subst SetBytes_lexord) (simp_all add: ConcatKey_def SetBytes_append)
  also have "\<dots> \<longleftrightarrow> unat a < unat c \<or> (unat a = unat c \<and> unat b < unat d)"
    by (rule pair_less [OF m m])
  finally show ?thesis
    by (simp add: word_less_nat_alt word_unat_eq_iff)
qed

text \<open>
  A global-exit-root key splits into its block number and its L1 block hash; a zero hash, which
  marks a pre-Etrog entry, is left out of the key and comes back as a missing hash.
\<close>

theorem SplitGerKey_ConcatGerKey:
  assumes "length l1BlockHash = 32"
  shows "SplitGerKey (ConcatGerKey blockNo l1BlockHash) =
         Inr (blockNo, if l1BlockHash = emptyHash then None else Some l1BlockHash)"
  using assms by (simp add: SplitGerKey_def ConcatGerKey_def)

theorem SplitGerKey_ConcatGerKey_witness:
  "SplitGerKey (ConcatGerKey 7 (replicate 32 1)) = Inr (7, Some (replicate 32 1))"
  using SplitGerKey_ConcatGerKey [of "replicate 32 1" 7] by (simp add: emptyHash_def)

end
