(* ===== verification/ZkCounters.thy ===== *)
theory ZkCounters
  imports ZkLimits ModExpCounters DbUtils
begin

text \<open>
  The counter collector of \<open>core/vm/zk_counters.go\<close>: every method of \<open>CounterCollector\<close>, from the
  arithmetic helpers to the handlers of the EVM opcodes and precompiles. A method is an operation
  on the collector that may panic; \<open>run\<close> performs the statements of a method body in order, so a
  definition lists the calls its Go method makes. The EVM state a handler looks at (its stack, the
  flags of its contract, code sizes and nonces) is an argument.
\<close>

section \<open>The collector\<close>

record CounterCollector =
  cc_counters :: Counters
  cc_smtLevels :: goint
  cc_isDeploy :: bool
  cc_transaction :: "Transaction option"
  cc_forkId :: uint16

type_synonym cop = "CounterCollector \<Rightarrow> CounterCollector result"

primrec run :: "cop list \<Rightarrow> cop" where
  "run [] cc = Inr cc"
| "run (f # fs) cc = rbind (f cc) (run fs)"

text \<open>A Go \<open>for\<close> loop whose body does not read the index.\<close>

primrec for_loop :: "cop \<Rightarrow> nat \<Rightarrow> cop" where
  "for_loop f 0 cc = Inr cc"
| "for_loop f (Suc n) cc = rbind (f cc) (for_loop f n)"

definition MCPL :: goint where "MCPL = 23"

definition fnec :: u256 where
  "fnec = 0xFFFFFFFFFFFFFFFFFFFFFFFFFFFFFFFEBAAEDCE6AF48A03BBFD25E8CD0364141"
definition fnecMinusOne :: u256 where "fnecMinusOne = fnec - 1"
definition fnecHalf :: u256 where "fnecHalf = fnec div 2"
definition fpec :: u256 where
  "fpec = 0xFFFFFFFFFFFFFFFFFFFFFFFFFFFFFFFFFFFFFFFFFFFFFFFFFFFFFFFEFFFFFC2F"

fun overflown_loop :: "Counters \<Rightarrow> bool result" where
  "overflown_loop [] = Inr False"
| "overflown_loop (v # vs) =
     rbind (deref v) (\<lambda>c. if sint (remaining c) < 0 then Inr True else overflown_loop vs)"

definition isOverflown :: "CounterCollector \<Rightarrow> bool result" where
  "isOverflown cc = overflown_loop (cc_counters cc)"

text \<open>The length of \<open>n\<close> in binary, as \<open>fmt.Sprintf("%b", n)\<close> writes it.\<close>

fun bin_len :: "nat \<Rightarrow> nat" where
  "bin_len n = (if n < 2 then 1 else Suc (bin_len (n div 2)))"

declare bin_len.simps [simp del]

definition calculateSmtLevels :: "goint \<Rightarrow> goint \<Rightarrow> rat \<Rightarrow> goint" where
  "calculateSmtLevels smtMaxLevel minValue mcpReduction =
     (let binary = 2 ^ nat (sint smtMaxLevel) + 50000;
          binaryLength = of_nat (bin_len binary);
          binaryLength = (if sint binaryLength < sint minValue then minValue else binaryLength)
      in of_int \<lfloor>fl (float_of (sint binaryLength) * mcpReduction)\<rfloor>)"

definition NewUnlimitedCounterCollector :: CounterCollector where
  "NewUnlimitedCounterCollector = \<lparr>cc_counters = createCountrsByLimits unlimitedCounters,
     cc_smtLevels = 256, cc_isDeploy = False, cc_transaction = None, cc_forkId = 0\<rparr>"

definition NewCounterCollector :: "goint \<Rightarrow> goint \<Rightarrow> uint16 \<Rightarrow> CounterCollector" where
  "NewCounterCollector pct smtLevels forkId = \<lparr>cc_counters = getCounterLimits pct forkId,
     cc_smtLevels = smtLevels, cc_isDeploy = False, cc_transaction = None, cc_forkId = forkId\<rparr>"

definition CounterCollector_Clone :: "CounterCollector \<Rightarrow> CounterCollector result" where
  "CounterCollector_Clone cc = rbind (clone_loop [] 0 (cc_counters cc)) (\<lambda>clonedCounters.
     Inr \<lparr>cc_counters = clonedCounters, cc_smtLevels = cc_smtLevels cc, cc_isDeploy = cc_isDeploy cc,
          cc_transaction = cc_transaction cc, cc_forkId = 0\<rparr>)"

definition GetSmtLevels :: "CounterCollector \<Rightarrow> goint" where
  "GetSmtLevels cc = cc_smtLevels cc"

definition Deduct :: "CounterKey \<Rightarrow> goint \<Rightarrow> cop" where
  "Deduct key amount cc =
     rbind (counter_at (cc_counters cc) (key_index key)) (\<lambda>c.
     rbind (set_counter (cc_counters cc) (key_index key)
              (c\<lparr>used := used c + amount, remaining := remaining c - amount\<rparr>)) (\<lambda>cs.
     Inr (cc\<lparr>cc_counters := cs\<rparr>)))"

definition SetTransaction :: "Transaction \<Rightarrow> CounterCollector \<Rightarrow> CounterCollector" where
  "SetTransaction transaction cc =
     cc\<lparr>cc_transaction := Some transaction, cc_isDeploy := IsContractDeploy transaction\<rparr>"

text \<open>The loop of \<open>multiCall\<close> from index \<open>i\<close> with \<open>n\<close> iterations to go.\<close>

primrec multiCall_loop :: "cop \<Rightarrow> nat \<Rightarrow> nat \<Rightarrow> cop" where
  "multiCall_loop call i 0 cc = Inr cc"
| "multiCall_loop call i (Suc n) cc =
     rbind (if i mod 1000 = 0 then isOverflown cc else Inr False) (\<lambda>stop.
       if stop then Inr cc else rbind (call cc) (multiCall_loop call (Suc i) n))"

definition multiCall :: "cop \<Rightarrow> goint \<Rightarrow> cop" where
  "multiCall call n = multiCall_loop call 0 (nat (sint n))"

section \<open>What the handlers read\<close>

text \<open>
  The scope of a handler: the stack, bottom first, and the fields of \<open>scope.Contract\<close>. The
  interpreter gives access to the intra-block state.
\<close>

record ScopeContext =
  Stack :: "u256 list"
  IsCreate :: bool
  IsCreate2 :: bool
  CallerAddress :: "160 word"

record EVM =
  GetCodeSize :: "160 word \<Rightarrow> goint"
  EVM_GetNonce :: "160 word \<Rightarrow> uint64"

text \<open>\<open>Stack.PeekAt(n)\<close> (\<open>core/vm/stack/stack_zk.go\<close>): the \<open>n\<close>-th item from the top.\<close>

definition PeekAt :: "ScopeContext \<Rightarrow> nat \<Rightarrow> u256 result" where
  "PeekAt scope n =
     (if n \<le> length (Stack scope) then idx (Stack scope) (length (Stack scope) - n)
      else Inl (Panic ''index out of range''))"

text \<open>\<open>int(scope.Stack.PeekAt(n).Uint64())\<close>.\<close>

definition PeekInt :: "ScopeContext \<Rightarrow> nat \<Rightarrow> goint result" where
  "PeekInt scope n = rbind (PeekAt scope n) (\<lambda>x. Inr (ucast x))"

text \<open>\<open>int(math.Ceil(float64(a) / c))\<close>.\<close>

definition ceilI :: "goint \<Rightarrow> int \<Rightarrow> goint" where
  "ceilI a c = of_int (ceil_div (sint a) c)"

text \<open>\<open>int(math.Ceil(float64(a)/c) + n)\<close>: the sum is a \<open>float64\<close> as well.\<close>

definition ceilI_plus :: "goint \<Rightarrow> int \<Rightarrow> rat \<Rightarrow> goint" where
  "ceilI_plus a c n = of_int (trunc (fl (of_int (ceil_div (sint a) c) + n)))"

text \<open>\<open>len(x.Bytes())\<close> for a non-zero \<open>x\<close>: the number of significant bytes.\<close>

fun byte_len :: "nat \<Rightarrow> nat" where
  "byte_len n = (if n = 0 then 0 else Suc (byte_len (n div 256)))"

declare byte_len.simps [simp del]

definition byteLen :: "u256 \<Rightarrow> nat" where
  "byteLen x = byte_len (unat x)"

primrec rel_loop :: "byte list \<Rightarrow> nat \<Rightarrow> nat" where
  "rel_loop [] i = 0"
| "rel_loop (b # bs) i = (if b = 0 then rel_loop bs (Suc i) else i)"

definition getRelevantNumberBytes :: "byte list \<Rightarrow> goint" where
  "getRelevantNumberBytes input = of_nat (length input - rel_loop input 0)"

text \<open>
  The package variables of the P-256 precompile. \<open>SECP256R1_N.Sub(SECP256R1_N, 1)\<close> stores its
  result in \<open>SECP256R1_N\<close> and returns that same object, so the variables are addresses into a
  store of \<open>big.Int\<close> objects: address 0 for \<open>SECP256R1_N\<close>, 1 for \<open>SECP256R1_P\<close>.
\<close>

definition big_Sub_at :: "int list \<Rightarrow> nat \<Rightarrow> nat \<Rightarrow> int \<Rightarrow> int list \<times> nat" where
  "big_Sub_at h z x y = (h[z := h ! x - y], z)"

definition secp_init :: "int list \<times> nat \<times> nat" where
  "secp_init =
     (let h = [0xffffffff00000000ffffffffffffffffbce6faada7179e84f3b9cac2fc632551];
          (h, n_minus_one) = big_Sub_at h 0 0 1;
          h = h @ [0xffffffff00000001000000000000000000000000ffffffffffffffffffffffff];
          (h, p_minus_one) = big_Sub_at h 0 1 1
      in (h, n_minus_one, p_minus_one))"

definition SECP256R1_N_MINUS_ONE :: int where
  "SECP256R1_N_MINUS_ONE = (case secp_init of (h, n, p) \<Rightarrow> h ! n)"
definition SECP256R1_P_MINUS_ONE :: int where
  "SECP256R1_P_MINUS_ONE = (case secp_init of (h, n, p) \<Rightarrow> h ! p)"
definition SECP256R1_P :: int where
  "SECP256R1_P = (case secp_init of (h, n, p) \<Rightarrow> h ! 1)"
definition SECP256R1_A :: int where
  "SECP256R1_A = 0xffffffff00000001000000000000000000000000fffffffffffffffffffffffc"
definition SECP256R1_B :: int where
  "SECP256R1_B = 0x5ac635d8aa3a93e7b3ebbd55769886bc651d06b0cc53b0f63bce3c3e27d2604b"

section \<open>The methods of the collector\<close>

named_theorems cc_methods \<open>the bodies of the collector's methods\<close>

text \<open>
  \<open>ecRecover\<close> takes \<open>uint256\<close>'s \<open>Sqrt\<close> as a parameter: it returns its receiver, so never nil,
  and its value is not used on that path.
\<close>

definition offsetUtil :: cop where [cc_methods]:
  "offsetUtil = run [Deduct CK_S 10, Deduct CK_B 1]"

definition divArith :: cop where [cc_methods]:
  "divArith = run [Deduct CK_S 40, Deduct CK_B 3, Deduct CK_A 1]"

definition SHRarith :: cop where [cc_methods]:
  "SHRarith = run [Deduct CK_S 40, Deduct CK_B 2, Deduct CK_A 1, divArith]"

definition SHLarith :: cop where [cc_methods]:
  "SHLarith = run [Deduct CK_S 40, Deduct CK_B 2, Deduct CK_A 2]"

definition mLoadX :: cop where [cc_methods]:
  "mLoadX = run [Deduct CK_S 30, Deduct CK_B 2, Deduct CK_M 1, offsetUtil, SHRarith, SHLarith]"

definition opCode :: "ScopeContext \<Rightarrow> cop" where [cc_methods]:
  "opCode scope = run [Deduct CK_S 12,
     \<lambda>cc. (if IsCreate scope \<or> IsCreate2 scope \<or> cc_isDeploy cc
          then run [mLoadX, SHRarith] else Inr) cc]"

definition addBatchHashData :: cop where [cc_methods]:
  "addBatchHashData = run [Deduct CK_S 10]"

definition getLenBytes :: "goint \<Rightarrow> cop" where [cc_methods]:
  "getLenBytes l = run [Deduct CK_S (l * 7 + 12), Deduct CK_B (l * 1), multiCall SHRarith l]"

definition addHashTx :: cop where [cc_methods]:
  "addHashTx = run [Deduct CK_S 10]"

definition addL2HashTx :: cop where [cc_methods]:
  "addL2HashTx = run [Deduct CK_S 10]"

definition addBatchHashByteByByte :: cop where [cc_methods]:
  "addBatchHashByteByByte = run [Deduct CK_S 25, Deduct CK_B 1, SHRarith, addBatchHashData]"

definition ecRecover :: "(u256 \<Rightarrow> u256 option) \<Rightarrow> u256 \<Rightarrow> u256 \<Rightarrow> u256 \<Rightarrow> bool \<Rightarrow> cop" where [cc_methods]:
  "ecRecover u256_Sqrt v r s isPrecompiled =
     (let upperLimit = (if \<not> isPrecompiled then fnecHalf else fnecMinusOne);
          fnecCheck = fnecMinusOne < r;
          upperLimitCheck = upperLimit < s
      in if ucast r = (0 :: uint64) \<or> ucast s = (0 :: uint64) \<or> fnecCheck \<or> upperLimitCheck \<or>
            (ucast v \<noteq> (27 :: uint64) \<and> ucast v \<noteq> (28 :: uint64))
         then run [Deduct CK_S 45, Deduct CK_A 2, Deduct CK_B 8]
         else (let rExp = r ^ 3; c = (rExp + 7) mod fpec
               in case u256_Sqrt c of
                    None \<Rightarrow> (\<lambda>cc. Inl (Panic ''nil pointer dereference''))
                  | Some _ \<Rightarrow>
                      (let r2 = (- 1 :: u256) in
                       if r2 < fpec
                       then run [Deduct CK_S 4527, Deduct CK_A 1014, Deduct CK_B 10]
                       else run [Deduct CK_S 6294, Deduct CK_A 528, Deduct CK_B 523, Deduct CK_K 1])))"

definition failAssert :: cop where [cc_methods]:
  "failAssert = run [Deduct CK_S 2]"

definition consolidateBlock :: cop where [cc_methods]:
  "consolidateBlock = run [Deduct CK_S 20, Deduct CK_B 2, Deduct CK_P (2 * MCPL)]"

definition finishBatchProcessing :: cop where [cc_methods]:
  "finishBatchProcessing = run [
     Deduct CK_S 200, Deduct CK_K 2, \<lambda>cc. Deduct CK_P (cc_smtLevels cc) cc,
     Deduct CK_B 2]"

definition isColdAddress :: cop where [cc_methods]:
  "isColdAddress = run [Deduct CK_S 100,
     \<lambda>cc. (if cc_forkId cc \<ge> ForkId13Durian then Deduct CK_B (3 + 1) else Deduct CK_B (2 + 1)) cc,
     Deduct CK_P (2 * MCPL)]"

definition addArith :: cop where [cc_methods]:
  "addArith = run [Deduct CK_S 10, Deduct CK_B 1]"

definition subArith :: cop where [cc_methods]:
  "subArith = run [Deduct CK_S 10, Deduct CK_B 1]"

definition mulArith :: cop where [cc_methods]:
  "mulArith = run [Deduct CK_S 40, Deduct CK_B 1, Deduct CK_A 1]"

definition fillBlockInfoTreeWithTxReceipt :: cop where [cc_methods]:
  "fillBlockInfoTreeWithTxReceipt = run [Deduct CK_S 20, Deduct CK_P (3 * MCPL)]"

definition moveBalances :: "goint \<Rightarrow> cop" where [cc_methods]:
  "moveBalances smtLevels = run [Deduct CK_S 25, Deduct CK_B (3 + 2), Deduct CK_P (4 * smtLevels)]"

definition checkBytecodeStartsEF :: cop where [cc_methods]:
  "checkBytecodeStartsEF = run [Deduct CK_S 20, mLoadX, SHRarith]"

definition mLoad32 :: cop where [cc_methods]:
  "mLoad32 = run [Deduct CK_S 40, Deduct CK_B 2, Deduct CK_M 1, offsetUtil, SHRarith, SHLarith]"

definition hashPoseidonLinearFromMemoryLoop :: cop where [cc_methods]:
  "hashPoseidonLinearFromMemoryLoop = run [Deduct CK_S 8, mLoad32]"

definition hashPoseidonLinearFromMemory :: "goint \<Rightarrow> cop" where [cc_methods]:
  "hashPoseidonLinearFromMemory memSize = run [
     Deduct CK_S 50, Deduct CK_B (1 + 1), Deduct CK_P (ceilI (memSize + 1) 56),
     Deduct CK_D (ceilI (memSize + 1) 56), divArith,
     multiCall hashPoseidonLinearFromMemoryLoop (signed_drop_bit 5 memSize), mLoadX, SHRarith]"

definition maskAddress :: cop where [cc_methods]:
  "maskAddress = run [Deduct CK_S 6, Deduct CK_B 1]"

definition processContractCall :: "goint \<Rightarrow> goint \<Rightarrow> bool \<Rightarrow> bool \<Rightarrow> bool \<Rightarrow> cop" where [cc_methods]:
  "processContractCall smtLevels bytecodeLength isDeploy isCreate isCreate2 = run [
     Deduct CK_S 40, Deduct CK_B (4 + 1), Deduct CK_P 1, Deduct CK_D 1, Deduct CK_P (2 * smtLevels),
     moveBalances smtLevels,
     (if isDeploy \<or> isCreate \<or> isCreate2
      then run [Deduct CK_S 15, Deduct CK_B 2, Deduct CK_P (2 * smtLevels), checkBytecodeStartsEF,
             hashPoseidonLinearFromMemory bytecodeLength,
             (if isCreate
              then run [Deduct CK_S 40, Deduct CK_K 1, maskAddress]
              else if isCreate2
              then run [Deduct CK_S 40, divArith, Deduct CK_K (ceilI_plus (bytecodeLength + 1) 136 1),
                     multiCall mLoad32 (signed_drop_bit 5 bytecodeLength), mLoadX, SHRarith,
                     Deduct CK_K 1, maskAddress]
              else Inr)]
      else run [Deduct CK_P (ceilI (bytecodeLength + 1) 56), Deduct CK_D (ceilI (bytecodeLength + 1) 56),
             (if sint bytecodeLength \<ge> 56 then divArith else Inr)])]"

definition setupNewBlockInfoTree :: cop where [cc_methods]:
  "setupNewBlockInfoTree = run [Deduct CK_S 40, Deduct CK_B 7, Deduct CK_P (6 * MCPL)]"

definition verifyMerkleProof :: cop where [cc_methods]:
  "verifyMerkleProof = run [Deduct CK_S 250, Deduct CK_B 1, Deduct CK_K 33]"

definition processChangeL2Block :: "bool \<Rightarrow> cop" where [cc_methods]:
  "processChangeL2Block verifyMerkleProof_arg = run [
     Deduct CK_S 70, Deduct CK_B (4 + 4), \<lambda>cc. Deduct CK_P (6 * cc_smtLevels cc) cc, Deduct CK_K 2,
     consolidateBlock, setupNewBlockInfoTree,
     (if verifyMerkleProof_arg then verifyMerkleProof else Inr)]"

definition readFromCallDataOffset :: cop where [cc_methods]:
  "readFromCallDataOffset = run [Deduct CK_S 25, mLoadX]"

definition mStore32 :: cop where [cc_methods]:
  "mStore32 = run [
     Deduct CK_S 80, Deduct CK_B 1, Deduct CK_M 1, offsetUtil, multiCall SHRarith 2,
     multiCall SHLarith 2]"

definition mStoreX :: cop where [cc_methods]:
  "mStoreX = run [
     Deduct CK_S 80, Deduct CK_B 1, Deduct CK_M 1, offsetUtil, multiCall SHRarith 2,
     multiCall SHLarith 2]"

definition preEcRecover :: "(u256 \<Rightarrow> u256 option) \<Rightarrow> u256 \<Rightarrow> u256 \<Rightarrow> u256 \<Rightarrow> cop" where [cc_methods]:
  "preEcRecover u256_Sqrt v r s = run [Deduct CK_S 35, Deduct CK_B 1,
     multiCall readFromCallDataOffset 4, ecRecover u256_Sqrt v r s True, mStore32, mStoreX]"

definition ecAdd :: cop where [cc_methods]:
  "ecAdd = run [Deduct CK_S 800, Deduct CK_B 50, Deduct CK_A 50]"

definition preECAdd :: cop where [cc_methods]:
  "preECAdd = run [
     Deduct CK_S 50, Deduct CK_B 1, multiCall readFromCallDataOffset 4,
     multiCall mStore32 4, mStoreX, ecAdd]"

definition decodeChangeL2BlockTx :: cop where [cc_methods]:
  "decodeChangeL2BlockTx = run [Deduct CK_S 20, multiCall addBatchHashData 3]"

definition ecMul :: cop where [cc_methods]:
  "ecMul = run [Deduct CK_S 175000, Deduct CK_B 20000, Deduct CK_A 20000]"

definition preECMul :: cop where [cc_methods]:
  "preECMul = run [
     Deduct CK_S 50, Deduct CK_B 1, multiCall readFromCallDataOffset 3,
     multiCall mStore32 4, mStoreX, ecMul]"

definition ecPairing :: "goint \<Rightarrow> cop" where [cc_methods]:
  "ecPairing inputsCount = run [
     Deduct CK_S (16 + inputsCount * 200000 + 175000), Deduct CK_B (inputsCount * 4100 + 750),
     Deduct CK_A (inputsCount * 15000 + 17500)]"

definition preECPairing :: "goint \<Rightarrow> cop" where [cc_methods]:
  "preECPairing inputsCount = run [Deduct CK_S 50, Deduct CK_B 1,
     multiCall readFromCallDataOffset 6, divArith, mStore32, mStoreX, ecPairing inputsCount]"

definition preModExpLoop :: cop where [cc_methods]:
  "preModExpLoop = run [Deduct CK_S 8, mStore32]"

definition modExp :: "goint \<Rightarrow> goint \<Rightarrow> goint \<Rightarrow> int \<Rightarrow> int \<Rightarrow> int \<Rightarrow> cop" where [cc_methods]:
  "modExp bLen mLen eLen base exponent modulus = (\<lambda>cc.
     rbind (if cc_forkId cc \<ge> ForkId13Durian
            then expectedModExpCounters (ceilI bLen 32) (ceilI eLen 32) (ceilI mLen 32)
                   base exponent modulus
            else expectedModExpCounters (ceilI bLen 32) (ceilI mLen 32) (ceilI eLen 32)
                   base exponent modulus)
       (\<lambda>(steps, binary, arith).
          run [Deduct CK_S (of_int steps), Deduct CK_B (of_int binary), Deduct CK_A (of_int arith)] cc))"

definition preModExp ::
  "goint \<Rightarrow> goint \<Rightarrow> goint \<Rightarrow> goint \<Rightarrow> goint \<Rightarrow> int \<Rightarrow> int \<Rightarrow> int \<Rightarrow> cop" where [cc_methods]:
  "preModExp callDataLength returnDataLength bLen mLen eLen base exponent modulus = run [
     Deduct CK_S 100, Deduct CK_B 20, multiCall readFromCallDataOffset 4, SHRarith,
     multiCall addArith 2, multiCall divArith 3, multiCall mulArith 3, subArith,
     multiCall SHLarith 2, multiCall mStoreX 2,
     multiCall preModExpLoop (signed_drop_bit 5 callDataLength),
     multiCall preModExpLoop (signed_drop_bit 5 returnDataLength),
     (if big_Uint64 modulus > 0 then modExp bLen mLen eLen base exponent modulus else Inr)]"

definition preSha256Loop :: cop where [cc_methods]:
  "preSha256Loop = run [Deduct CK_S 11, readFromCallDataOffset]"

definition preSha256 :: "goint \<Rightarrow> cop" where [cc_methods]:
  "preSha256 callDataLength = run [
     Deduct CK_S 100, Deduct CK_B 1, Deduct CK_SHA (ceilI (callDataLength + 8) 64),
     multiCall divArith 2, mStore32, mStoreX,
     multiCall preSha256Loop (signed_drop_bit 5 callDataLength), readFromCallDataOffset, SHRarith]"

definition identityLoop :: cop where [cc_methods]:
  "identityLoop = run [Deduct CK_S 8, readFromCallDataOffset, mStore32]"

definition identityReturnLoop :: cop where [cc_methods]:
  "identityReturnLoop = run [Deduct CK_S 12, mLoad32, mStore32]"

definition preIdentity :: "goint \<Rightarrow> goint \<Rightarrow> cop" where [cc_methods]:
  "preIdentity callDataLength returnDataLength = run [
     Deduct CK_S 45, Deduct CK_B 2, divArith,
     multiCall identityLoop (signed_drop_bit 5 callDataLength), readFromCallDataOffset, mStoreX,
     multiCall identityReturnLoop (signed_drop_bit 5 returnDataLength), mLoadX, mStoreX]"

definition abs_cc :: cop where [cc_methods]:
  "abs_cc = run [Deduct CK_S 10, Deduct CK_B 2]"

definition opAdd :: "EVM \<Rightarrow> ScopeContext \<Rightarrow> cop" where [cc_methods]:
  "opAdd interpreter scope = run [opCode scope, Deduct CK_S 10, Deduct CK_B 1]"

definition opMul :: "EVM \<Rightarrow> ScopeContext \<Rightarrow> cop" where [cc_methods]:
  "opMul interpreter scope = run [opCode scope, Deduct CK_S 10, mulArith]"

definition opSub :: "EVM \<Rightarrow> ScopeContext \<Rightarrow> cop" where [cc_methods]:
  "opSub interpreter scope = run [opCode scope, Deduct CK_S 10, Deduct CK_B 1]"

definition opDiv :: "EVM \<Rightarrow> ScopeContext \<Rightarrow> cop" where [cc_methods]:
  "opDiv interpreter scope = run [opCode scope, Deduct CK_S 15, divArith]"

definition opSDiv :: "EVM \<Rightarrow> ScopeContext \<Rightarrow> cop" where [cc_methods]:
  "opSDiv interpreter scope = run [
     opCode scope, Deduct CK_S 25, Deduct CK_B 1, multiCall abs_cc 2, divArith]"

definition opMod :: "EVM \<Rightarrow> ScopeContext \<Rightarrow> cop" where [cc_methods]:
  "opMod interpreter scope = run [opCode scope, Deduct CK_S 20, divArith]"

definition opSMod :: "EVM \<Rightarrow> ScopeContext \<Rightarrow> cop" where [cc_methods]:
  "opSMod interpreter scope = run [
     opCode scope, Deduct CK_S 20, Deduct CK_B 1, multiCall abs_cc 2, divArith]"

definition opAddMod :: "EVM \<Rightarrow> ScopeContext \<Rightarrow> cop" where [cc_methods]:
  "opAddMod interpreter scope = run [
     opCode scope, Deduct CK_S 30, Deduct CK_B 3, Deduct CK_A 1]"

definition utilMulMod :: cop where [cc_methods]:
  "utilMulMod = run [Deduct CK_S 50, Deduct CK_B 4, Deduct CK_A 2, mulArith]"

definition opMulMod :: "EVM \<Rightarrow> ScopeContext \<Rightarrow> cop" where [cc_methods]:
  "opMulMod interpreter scope = run [opCode scope, Deduct CK_S 10, utilMulMod]"

definition getLenBits :: "goint \<Rightarrow> cop" where [cc_methods]:
  "getLenBits inputLength = run [Deduct CK_S 12,
     for_loop (run [Deduct CK_S 9, Deduct CK_B 1, divArith]) (nat (sint inputLength))]"

definition expAd :: "goint \<Rightarrow> cop" where [cc_methods]:
  "expAd inputLength = run [Deduct CK_S 30, Deduct CK_B 2, getLenBits inputLength,
     for_loop (run [Deduct CK_S 12, Deduct CK_B 2, divArith, mulArith, mulArith]) (nat (sint inputLength))]"

definition opExp :: "EVM \<Rightarrow> ScopeContext \<Rightarrow> cop" where [cc_methods]:
  "opExp interpreter scope = run [opCode scope, Deduct CK_S 10,
     \<lambda>cc. rbind (PeekAt scope 2) (\<lambda>exponent.
       let exponentLength = (if exponent = 0 then 1 else of_nat (byteLen exponent)) in
       run [getLenBytes exponentLength, expAd (exponentLength * 8)] cc)]"

definition opSignExtend :: "EVM \<Rightarrow> ScopeContext \<Rightarrow> cop" where [cc_methods]:
  "opSignExtend interpreter scope = run [
     opCode scope, Deduct CK_S 20, Deduct CK_B 6,
     \<lambda>cc. Deduct CK_P (2 * cc_smtLevels cc) cc]"

definition opBlockHash :: "EVM \<Rightarrow> ScopeContext \<Rightarrow> cop" where [cc_methods]:
  "opBlockHash interpreter scope = run [
     opCode scope, Deduct CK_S 15, \<lambda>cc. Deduct CK_P (cc_smtLevels cc) cc,
     Deduct CK_K 1]"

definition opCoinbase :: "EVM \<Rightarrow> ScopeContext \<Rightarrow> cop" where [cc_methods]:
  "opCoinbase interpreter scope = run [opCode scope, Deduct CK_S 5]"

definition opTimestamp :: "EVM \<Rightarrow> ScopeContext \<Rightarrow> cop" where [cc_methods]:
  "opTimestamp interpreter scope = run [opCode scope, Deduct CK_S 5]"

definition opNumber :: "EVM \<Rightarrow> ScopeContext \<Rightarrow> cop" where [cc_methods]:
  "opNumber interpreter scope = run [opCode scope, Deduct CK_S 5]"

definition opDifficulty :: "EVM \<Rightarrow> ScopeContext \<Rightarrow> cop" where [cc_methods]:
  "opDifficulty interpreter scope = run [opCode scope, Deduct CK_S 5]"

definition opGasLimit :: "EVM \<Rightarrow> ScopeContext \<Rightarrow> cop" where [cc_methods]:
  "opGasLimit interpreter scope = run [opCode scope, Deduct CK_S 5]"

definition opChainId :: "EVM \<Rightarrow> ScopeContext \<Rightarrow> cop" where [cc_methods]:
  "opChainId interpreter scope = run [opCode scope, Deduct CK_S 5]"

definition opCalldataLoad :: "EVM \<Rightarrow> ScopeContext \<Rightarrow> cop" where [cc_methods]:
  "opCalldataLoad interpreter scope = run [
     opCode scope, Deduct CK_S 15, readFromCallDataOffset]"

definition opCalldataSize :: "EVM \<Rightarrow> ScopeContext \<Rightarrow> cop" where [cc_methods]:
  "opCalldataSize interpreter scope = run [opCode scope, Deduct CK_S 10]"

definition saveMem :: "goint \<Rightarrow> cop" where [cc_methods]:
  "saveMem inputSize =
     (if inputSize = 0 then run [Deduct CK_S 12, Deduct CK_B 1]
      else run [Deduct CK_S 50, Deduct CK_B 5, mulArith, divArith])"

definition opCalldataCopyLoop :: cop where [cc_methods]:
  "opCalldataCopyLoop = run [Deduct CK_S 30, readFromCallDataOffset, offsetUtil, Deduct CK_M 1]"

definition opCalldataCopy :: "EVM \<Rightarrow> ScopeContext \<Rightarrow> cop" where [cc_methods]:
  "opCalldataCopy interpreter scope = (\<lambda>cc. rbind (PeekInt scope 3) (\<lambda>inputLen.
     (if inputLen \<noteq> 0
      then run [opCode scope, Deduct CK_S 100, Deduct CK_B 2, saveMem inputLen, offsetUtil,
             multiCall opCalldataCopyLoop (signed_drop_bit 5 inputLen), readFromCallDataOffset,
             multiCall mStoreX 2]
      else Inr) cc))"

definition opCodeSize :: "EVM \<Rightarrow> ScopeContext \<Rightarrow> cop" where [cc_methods]:
  "opCodeSize interpreter scope = run [
     opCode scope, Deduct CK_S 10, \<lambda>cc. Deduct CK_P (cc_smtLevels cc) cc]"

definition opExtCodeSize :: "EVM \<Rightarrow> ScopeContext \<Rightarrow> cop" where [cc_methods]:
  "opExtCodeSize interpreter scope = run [
     opCode scope, Deduct CK_S 10, \<lambda>cc. Deduct CK_P (cc_smtLevels cc) cc,
     maskAddress, isColdAddress]"

definition opCodeCopyLoop :: cop where [cc_methods]:
  "opCodeCopyLoop = run [Deduct CK_S 30, Deduct CK_B 2, Deduct CK_M 1, offsetUtil]"

definition opExtCodeCopy :: "EVM \<Rightarrow> ScopeContext \<Rightarrow> cop" where [cc_methods]:
  "opExtCodeCopy interpreter scope = (\<lambda>cc.
     rbind (PeekAt scope 1) (\<lambda>address. let bytecodeLen = GetCodeSize interpreter (ucast address) in
     rbind (PeekInt scope 4) (\<lambda>length_arg.
     (if length_arg \<noteq> 0
      then run [opCode scope, Deduct CK_S 60, maskAddress, isColdAddress,
             \<lambda>cc. Deduct CK_P (2 * cc_smtLevels cc + ceilI bytecodeLen 56) cc,
             Deduct CK_D (ceilI bytecodeLen 56), multiCall divArith 2, saveMem length_arg, mulArith,
             Deduct CK_M length_arg, multiCall opCodeCopyLoop length_arg, Deduct CK_B 1]
      else Inr) cc)))"

definition opCodeCopy :: "EVM \<Rightarrow> ScopeContext \<Rightarrow> cop" where [cc_methods]:
  "opCodeCopy interpreter scope = (\<lambda>cc. rbind (PeekInt scope 3) (\<lambda>length_arg.
     (if length_arg \<noteq> 0
      then run [opCode scope,
             \<lambda>cc. (if IsCreate scope \<or> cc_isDeploy cc
                  then opCalldataCopy interpreter scope
                  else run [Deduct CK_S 40, Deduct CK_B 3, saveMem length_arg, divArith, mulArith,
                         multiCall opCodeCopyLoop length_arg]) cc]
      else Inr) cc))"

definition opReturnDataSize :: "EVM \<Rightarrow> ScopeContext \<Rightarrow> cop" where [cc_methods]:
  "opReturnDataSize interpreter scope = run [opCode scope, Deduct CK_S 11, Deduct CK_B 1]"

definition returnDataCopyLoop :: cop where [cc_methods]:
  "returnDataCopyLoop = run [Deduct CK_S 10, mLoad32, mStore32]"

definition opReturnDataCopy :: "EVM \<Rightarrow> ScopeContext \<Rightarrow> cop" where [cc_methods]:
  "opReturnDataCopy interpreter scope = (\<lambda>cc. rbind (PeekInt scope 3) (\<lambda>length_arg.
     (if length_arg \<noteq> 0
      then run [opCode scope, Deduct CK_S 50, Deduct CK_B 2, saveMem length_arg, divArith, mulArith,
             multiCall returnDataCopyLoop (signed_drop_bit 5 length_arg), mLoadX, mStoreX]
      else Inr) cc))"

definition opExtCodeHash :: "EVM \<Rightarrow> ScopeContext \<Rightarrow> cop" where [cc_methods]:
  "opExtCodeHash interpreter scope = run [
     opCode scope, Deduct CK_S 10, \<lambda>cc. Deduct CK_P (cc_smtLevels cc) cc,
     maskAddress, isColdAddress]"

definition opLT :: "EVM \<Rightarrow> ScopeContext \<Rightarrow> cop" where [cc_methods]:
  "opLT interpreter scope = run [opCode scope, Deduct CK_S 8, Deduct CK_B 1]"

definition opGT :: "EVM \<Rightarrow> ScopeContext \<Rightarrow> cop" where [cc_methods]:
  "opGT interpreter scope = run [opCode scope, Deduct CK_S 8, Deduct CK_B 1]"

definition opSLT :: "EVM \<Rightarrow> ScopeContext \<Rightarrow> cop" where [cc_methods]:
  "opSLT interpreter scope = run [opCode scope, Deduct CK_S 8, Deduct CK_B 1]"

definition opSGT :: "EVM \<Rightarrow> ScopeContext \<Rightarrow> cop" where [cc_methods]:
  "opSGT interpreter scope = run [opCode scope, Deduct CK_S 8, Deduct CK_B 1]"

definition opEQ :: "EVM \<Rightarrow> ScopeContext \<Rightarrow> cop" where [cc_methods]:
  "opEQ interpreter scope = run [opCode scope, Deduct CK_S 8, Deduct CK_B 1]"

definition opIsZero :: "EVM \<Rightarrow> ScopeContext \<Rightarrow> cop" where [cc_methods]:
  "opIsZero interpreter scope = run [opCode scope, Deduct CK_S 8, Deduct CK_B 1]"

definition opAnd :: "EVM \<Rightarrow> ScopeContext \<Rightarrow> cop" where [cc_methods]:
  "opAnd interpreter scope = run [opCode scope, Deduct CK_S 10, Deduct CK_B 1]"

definition opOr :: "EVM \<Rightarrow> ScopeContext \<Rightarrow> cop" where [cc_methods]:
  "opOr interpreter scope = run [opCode scope, Deduct CK_S 10, Deduct CK_B 1]"

definition opXor :: "EVM \<Rightarrow> ScopeContext \<Rightarrow> cop" where [cc_methods]:
  "opXor interpreter scope = run [opCode scope, Deduct CK_S 10, Deduct CK_B 1]"

definition opNot :: "EVM \<Rightarrow> ScopeContext \<Rightarrow> cop" where [cc_methods]:
  "opNot interpreter scope = run [opCode scope, Deduct CK_S 10, Deduct CK_B 1]"

definition opByte :: "EVM \<Rightarrow> ScopeContext \<Rightarrow> cop" where [cc_methods]:
  "opByte interpreter scope = run [opCode scope, Deduct CK_S 15, Deduct CK_B 2, SHRarith]"

definition shrArithBit :: cop where [cc_methods]:
  "shrArithBit = run [Deduct CK_S 30, Deduct CK_B 2, divArith]"

definition opSHR :: "EVM \<Rightarrow> ScopeContext \<Rightarrow> cop" where [cc_methods]:
  "opSHR interpreter scope = run [opCode scope, Deduct CK_S 8, Deduct CK_B 1, shrArithBit]"

definition shlArithBit :: cop where [cc_methods]:
  "shlArithBit = run [Deduct CK_S 50, Deduct CK_B 2, Deduct CK_A 2]"

definition opSHL :: "EVM \<Rightarrow> ScopeContext \<Rightarrow> cop" where [cc_methods]:
  "opSHL interpreter scope = run [opCode scope, Deduct CK_S 8, Deduct CK_B 1, shlArithBit]"

definition opSAR :: "EVM \<Rightarrow> ScopeContext \<Rightarrow> cop" where [cc_methods]:
  "opSAR interpreter scope = run [opCode scope, Deduct CK_S 25, Deduct CK_B 5, shrArithBit]"

definition opStop :: "EVM \<Rightarrow> ScopeContext \<Rightarrow> cop" where [cc_methods]:
  "opStop interpreter scope = run [opCode scope, Deduct CK_S 20]"

definition computeGasSendCall :: cop where [cc_methods]:
  "computeGasSendCall = run [Deduct CK_S 25, Deduct CK_B 2]"

definition saveCalldataPointer :: cop where [cc_methods]:
  "saveCalldataPointer = run [Deduct CK_S 6]"

definition checkpointBlockInfoTree :: cop where [cc_methods]:
  "checkpointBlockInfoTree = run [Deduct CK_S 4]"

definition checkpointTouched :: cop where [cc_methods]:
  "checkpointTouched = run [Deduct CK_S 2]"

definition opCreate :: "EVM \<Rightarrow> ScopeContext \<Rightarrow> cop" where [cc_methods]:
  "opCreate interpreter scope = (\<lambda>cc. rbind (PeekInt scope 3) (\<lambda>size_arg.
     let nonce = EVM_GetNonce interpreter (CallerAddress scope) + 1;
         nonceByteLength = getRelevantNumberBytes (Uint64ToBytes nonce) in
     run [opCode scope, Deduct CK_S 70, Deduct CK_B 3, \<lambda>cc. Deduct CK_P (3 * cc_smtLevels cc) cc,
       saveMem size_arg, getLenBytes nonceByteLength, computeGasSendCall, saveCalldataPointer,
       checkpointBlockInfoTree, checkpointTouched,
       \<lambda>cc. processContractCall (cc_smtLevels cc) size_arg False True False cc] cc))"

definition isEmptyAccount :: cop where [cc_methods]:
  "isEmptyAccount = run [
     Deduct CK_S 30, Deduct CK_B 3, \<lambda>cc. Deduct CK_P (3 * cc_smtLevels cc) cc]"

definition opCall :: "EVM \<Rightarrow> ScopeContext \<Rightarrow> cop" where [cc_methods]:
  "opCall interpreter scope = (\<lambda>cc. rbind (PeekAt scope 2) (\<lambda>addr.
     let toAddrBytecodeLength = GetCodeSize interpreter (ucast addr) in
     rbind (PeekInt scope 5) (\<lambda>inSize. rbind (PeekInt scope 7) (\<lambda>outSize.
     run [opCode scope, Deduct CK_S 80, Deduct CK_B 5, maskAddress, saveMem inSize, saveMem outSize,
       isColdAddress, isEmptyAccount, computeGasSendCall, saveCalldataPointer,
       checkpointBlockInfoTree, checkpointTouched,
       \<lambda>cc. processContractCall (cc_smtLevels cc) toAddrBytecodeLength False False False cc] cc))))"

definition opCallCode :: "EVM \<Rightarrow> ScopeContext \<Rightarrow> cop" where [cc_methods]:
  "opCallCode interpreter scope = (\<lambda>cc. rbind (PeekAt scope 2) (\<lambda>addr.
     let toAddrBytecodeLength = GetCodeSize interpreter (ucast addr) in
     rbind (PeekInt scope 5) (\<lambda>inSize. rbind (PeekInt scope 7) (\<lambda>outSize.
     run [opCode scope, Deduct CK_S 80, Deduct CK_B 5, maskAddress, saveMem inSize, saveMem outSize,
       isColdAddress, computeGasSendCall, saveCalldataPointer,
       checkpointBlockInfoTree, checkpointTouched,
       \<lambda>cc. processContractCall (cc_smtLevels cc) toAddrBytecodeLength False False False cc] cc))))"

definition opDelegateCall :: "EVM \<Rightarrow> ScopeContext \<Rightarrow> cop" where [cc_methods]:
  "opDelegateCall interpreter scope = (\<lambda>cc. rbind (PeekAt scope 2) (\<lambda>addr.
     let toAddrBytecodeLength = GetCodeSize interpreter (ucast addr) in
     rbind (PeekInt scope 4) (\<lambda>inSize. rbind (PeekInt scope 6) (\<lambda>outSize.
     run [opCode scope, Deduct CK_S 80, maskAddress, saveMem inSize, saveMem outSize,
       isColdAddress, computeGasSendCall, saveCalldataPointer,
       checkpointBlockInfoTree, checkpointTouched,
       \<lambda>cc. processContractCall (cc_smtLevels cc) toAddrBytecodeLength False False False cc] cc))))"

definition opStaticCall :: "EVM \<Rightarrow> ScopeContext \<Rightarrow> cop" where [cc_methods]:
  "opStaticCall interpreter scope = (\<lambda>cc. rbind (PeekAt scope 2) (\<lambda>addr.
     let toAddrBytecodeLength = GetCodeSize interpreter (ucast addr) in
     rbind (PeekInt scope 4) (\<lambda>inSize. rbind (PeekInt scope 6) (\<lambda>outSize.
     run [opCode scope, Deduct CK_S 80, maskAddress, saveMem inSize, saveMem outSize,
       isColdAddress, computeGasSendCall, saveCalldataPointer,
       checkpointBlockInfoTree, checkpointTouched,
       \<lambda>cc. processContractCall (cc_smtLevels cc) toAddrBytecodeLength False False False cc] cc))))"

definition opCreate2 :: "EVM \<Rightarrow> ScopeContext \<Rightarrow> cop" where [cc_methods]:
  "opCreate2 interpreter scope = (\<lambda>cc. rbind (PeekInt scope 3) (\<lambda>inSize.
     let accNonce = EVM_GetNonce interpreter (CallerAddress scope) + 1;
         nonceByteLength = getRelevantNumberBytes (Uint64ToBytes accNonce) in
     run [opCode scope, Deduct CK_S 80, Deduct CK_B 4, \<lambda>cc. Deduct CK_P (2 * cc_smtLevels cc) cc,
       saveMem inSize, divArith, getLenBytes nonceByteLength, computeGasSendCall,
       saveCalldataPointer, checkpointBlockInfoTree, checkpointTouched,
       \<lambda>cc. processContractCall (cc_smtLevels cc) inSize False False True cc] cc))"

definition returnLoop :: cop where [cc_methods]:
  "returnLoop = run [Deduct CK_S 12, mLoad32, mStore32]"

definition opReturn :: "EVM \<Rightarrow> ScopeContext \<Rightarrow> cop" where [cc_methods]:
  "opReturn interpreter scope = (\<lambda>cc. rbind (PeekInt scope 2) (\<lambda>returnSize.
     run [opCode scope, Deduct CK_S 30, Deduct CK_B 1, saveMem returnSize,
       \<lambda>cc. (if cc_isDeploy cc \<or> IsCreate scope
            then (if IsCreate scope
                  then run [Deduct CK_S 25, Deduct CK_B 2, \<lambda>cc. Deduct CK_P (2 * cc_smtLevels cc) cc,
                         checkBytecodeStartsEF, hashPoseidonLinearFromMemory returnSize]
                  else Inr)
            else run [multiCall returnLoop (signed_drop_bit 5 returnSize), mLoadX, mStoreX]) cc] cc))"

definition revertTouched :: cop where [cc_methods]:
  "revertTouched = run [Deduct CK_S 2]"

definition revertBlockInfoTree :: cop where [cc_methods]:
  "revertBlockInfoTree = run [Deduct CK_S 4]"

definition revertLoop :: cop where [cc_methods]:
  "revertLoop = run [Deduct CK_S 12, mLoad32, mStore32]"

definition opRevert :: "EVM \<Rightarrow> ScopeContext \<Rightarrow> cop" where [cc_methods]:
  "opRevert interpreter scope = (\<lambda>cc. rbind (PeekInt scope 2) (\<lambda>size_arg.
     run [opCode scope, Deduct CK_S 40, Deduct CK_B 1, revertTouched, revertBlockInfoTree,
       saveMem size_arg, multiCall revertLoop (signed_drop_bit 5 size_arg), mLoadX, mStoreX] cc))"

definition opSendAll :: "EVM \<Rightarrow> ScopeContext \<Rightarrow> cop" where [cc_methods]:
  "opSendAll interpreter scope = run [
     opCode scope, Deduct CK_S 60, Deduct CK_B (2 + 1),
     \<lambda>cc. Deduct CK_P (4 * cc_smtLevels cc) cc, maskAddress, isEmptyAccount,
     isColdAddress, addArith]"

definition opInvalid :: "EVM \<Rightarrow> ScopeContext \<Rightarrow> cop" where [cc_methods]:
  "opInvalid interpreter scope = run [opCode scope, Deduct CK_S 50]"

definition opAddress :: "EVM \<Rightarrow> ScopeContext \<Rightarrow> cop" where [cc_methods]:
  "opAddress interpreter scope = run [opCode scope, Deduct CK_S 6]"

definition opSelfBalance :: "EVM \<Rightarrow> ScopeContext \<Rightarrow> cop" where [cc_methods]:
  "opSelfBalance interpreter scope = run [
     opCode scope, Deduct CK_S 8, \<lambda>cc. Deduct CK_P (cc_smtLevels cc) cc]"

definition opBalance :: "EVM \<Rightarrow> ScopeContext \<Rightarrow> cop" where [cc_methods]:
  "opBalance interpreter scope = run [
     opCode scope, Deduct CK_S 8, \<lambda>cc. Deduct CK_P (cc_smtLevels cc) cc,
     maskAddress, isColdAddress]"

definition opOrigin :: "EVM \<Rightarrow> ScopeContext \<Rightarrow> cop" where [cc_methods]:
  "opOrigin interpreter scope = run [opCode scope, Deduct CK_S 5]"

definition opCaller :: "EVM \<Rightarrow> ScopeContext \<Rightarrow> cop" where [cc_methods]:
  "opCaller interpreter scope = run [opCode scope, Deduct CK_S 5]"

definition opCallValue :: "EVM \<Rightarrow> ScopeContext \<Rightarrow> cop" where [cc_methods]:
  "opCallValue interpreter scope = run [opCode scope, Deduct CK_S 5]"

definition opGasPrice :: "EVM \<Rightarrow> ScopeContext \<Rightarrow> cop" where [cc_methods]:
  "opGasPrice interpreter scope = run [opCode scope, Deduct CK_S 5]"

definition opGas :: "EVM \<Rightarrow> ScopeContext \<Rightarrow> cop" where [cc_methods]:
  "opGas interpreter scope = run [opCode scope, Deduct CK_S 4]"

definition sha3Loop :: cop where [cc_methods]:
  "sha3Loop = run [Deduct CK_S 8, mLoad32]"

definition opSha3 :: "EVM \<Rightarrow> ScopeContext \<Rightarrow> cop" where [cc_methods]:
  "opSha3 interpreter scope = (\<lambda>cc. rbind (PeekInt scope 2) (\<lambda>size_arg.
     run [opCode scope, Deduct CK_S 40, Deduct CK_K (ceilI (size_arg + 1) 136), saveMem size_arg,
       multiCall divArith 2, mulArith, multiCall sha3Loop (signed_drop_bit 5 size_arg), mLoadX,
       SHRarith] cc))"

definition checkJumpDest :: "ScopeContext \<Rightarrow> cop" where [cc_methods]:
  "checkJumpDest scope = run [Deduct CK_S 10, Deduct CK_B 1,
     \<lambda>cc. (if IsCreate scope
          then if cc_isDeploy cc then run [Deduct CK_B 1, mLoadX] else Inr
          else Inr) cc]"

definition opJump :: "EVM \<Rightarrow> ScopeContext \<Rightarrow> cop" where [cc_methods]:
  "opJump interpreter scope = run [opCode scope, Deduct CK_S 5, checkJumpDest scope]"

definition opJumpI :: "EVM \<Rightarrow> ScopeContext \<Rightarrow> cop" where [cc_methods]:
  "opJumpI interpreter scope = run [
     opCode scope, Deduct CK_S 10, Deduct CK_B 1, checkJumpDest scope]"

definition opPC :: "EVM \<Rightarrow> ScopeContext \<Rightarrow> cop" where [cc_methods]:
  "opPC interpreter scope = run [opCode scope, Deduct CK_S 4]"

definition opJumpDest :: "EVM \<Rightarrow> ScopeContext \<Rightarrow> cop" where [cc_methods]:
  "opJumpDest interpreter scope = run [opCode scope, Deduct CK_S 2]"

definition logLoop :: cop where [cc_methods]:
  "logLoop = run [Deduct CK_S 10, mLoad32]"

definition fillBlockInfoTreeWithLog :: cop where [cc_methods]:
  "fillBlockInfoTreeWithLog = run [Deduct CK_S 11, Deduct CK_P MCPL, Deduct CK_B 1]"

definition log_cc :: "ScopeContext \<Rightarrow> cop" where [cc_methods]:
  "log_cc scope = (\<lambda>cc. rbind (PeekInt scope 2) (\<lambda>size_arg.
     run [opCode scope, Deduct CK_S (34 + 7 * 4), saveMem size_arg, mulArith, divArith,
       Deduct CK_P (ceilI_plus size_arg 56 4), Deduct CK_D (ceilI_plus size_arg 56 4),
       multiCall logLoop (signed_drop_bit 5 (size_arg + 1)), mLoadX, SHRarith,
       fillBlockInfoTreeWithLog, Deduct CK_B 1] cc))"

definition opLog0 :: "EVM \<Rightarrow> ScopeContext \<Rightarrow> cop" where [cc_methods]:
  "opLog0 interpreter scope = run [log_cc scope]"

definition opLog1 :: "EVM \<Rightarrow> ScopeContext \<Rightarrow> cop" where [cc_methods]:
  "opLog1 interpreter scope = run [log_cc scope]"

definition opLog2 :: "EVM \<Rightarrow> ScopeContext \<Rightarrow> cop" where [cc_methods]:
  "opLog2 interpreter scope = run [log_cc scope]"

definition opLog3 :: "EVM \<Rightarrow> ScopeContext \<Rightarrow> cop" where [cc_methods]:
  "opLog3 interpreter scope = run [log_cc scope]"

definition opLog4 :: "EVM \<Rightarrow> ScopeContext \<Rightarrow> cop" where [cc_methods]:
  "opLog4 interpreter scope = run [log_cc scope]"

definition opPush0 :: "EVM \<Rightarrow> ScopeContext \<Rightarrow> cop" where [cc_methods]:
  "opPush0 interpreter scope = run [opCode scope, Deduct CK_S 4]"

definition readPush :: "goint \<Rightarrow> cop" where [cc_methods]:
  "readPush num =
     (if num = 1 then Deduct CK_S 2
      else if num = 2 then Deduct CK_S 4
      else if num = 3 then Deduct CK_S 5
      else if num = 4 then Deduct CK_S 6
      else if num = 32 then Deduct CK_S 45
      else Deduct CK_S (6 + num * 2))"

definition opPush :: "goint \<Rightarrow> ScopeContext \<Rightarrow> cop" where [cc_methods]:
  "opPush num scope = run [opCode scope, Deduct CK_S 2,
     \<lambda>cc. (if IsCreate scope \<or> cc_isDeploy cc
          then (if IsCreate scope then run [Deduct CK_S 20, mLoadX, SHRarith]
                else run [Deduct CK_S 10,
                       for_loop (run [Deduct CK_S 10, SHLarith]) (nat (sint num))])
          else run [Deduct CK_S 10, readPush num]) cc]"

definition opPushGenerator :: "goint \<Rightarrow> EVM \<Rightarrow> ScopeContext \<Rightarrow> cop" where [cc_methods]:
  "opPushGenerator num interpreter scope = opPush num scope"

definition opDup :: "EVM \<Rightarrow> ScopeContext \<Rightarrow> cop" where [cc_methods]:
  "opDup interpreter scope = run [opCode scope, Deduct CK_S 6]"

definition opSwap :: "EVM \<Rightarrow> ScopeContext \<Rightarrow> cop" where [cc_methods]:
  "opSwap interpreter scope = run [opCode scope, Deduct CK_S 7]"

definition opPop :: "EVM \<Rightarrow> ScopeContext \<Rightarrow> cop" where [cc_methods]:
  "opPop interpreter scope = run [opCode scope, Deduct CK_S 3]"

definition opMLoad :: "EVM \<Rightarrow> ScopeContext \<Rightarrow> cop" where [cc_methods]:
  "opMLoad interpreter scope = run [opCode scope, Deduct CK_S 8, saveMem 32, mLoad32]"

definition opMStore :: "EVM \<Rightarrow> ScopeContext \<Rightarrow> cop" where [cc_methods]:
  "opMStore interpreter scope = run [
     opCode scope, Deduct CK_S 22, Deduct CK_M 1, saveMem 32, offsetUtil]"

definition opMStore8 :: "EVM \<Rightarrow> ScopeContext \<Rightarrow> cop" where [cc_methods]:
  "opMStore8 interpreter scope = run [
     opCode scope, Deduct CK_S 13, Deduct CK_M 1, saveMem 1, offsetUtil]"

definition opMSize :: "EVM \<Rightarrow> ScopeContext \<Rightarrow> cop" where [cc_methods]:
  "opMSize interpreter scope = run [opCode scope, Deduct CK_S 15, divArith]"

definition isColdSlot :: cop where [cc_methods]:
  "isColdSlot = run [Deduct CK_S 20, Deduct CK_B 1, Deduct CK_P (2 * MCPL)]"

definition opSLoad :: "EVM \<Rightarrow> ScopeContext \<Rightarrow> cop" where [cc_methods]:
  "opSLoad interpreter scope = run [
     opCode scope, Deduct CK_S 10, \<lambda>cc. Deduct CK_P (cc_smtLevels cc) cc,
     isColdSlot]"

definition opSSTore :: "EVM \<Rightarrow> ScopeContext \<Rightarrow> cop" where [cc_methods]:
  "opSSTore interpreter scope = run [
     opCode scope, Deduct CK_S 70, Deduct CK_B 8,
     \<lambda>cc. Deduct CK_P (3 * cc_smtLevels cc) cc, isColdSlot]"

definition p256verify :: "int \<Rightarrow> int \<Rightarrow> int \<Rightarrow> int \<Rightarrow> cop" where [cc_methods]:
  "p256verify r s x y =
     (if r = 0 then run [Deduct CK_S 13, Deduct CK_B 1]
      else if SECP256R1_N_MINUS_ONE < r then run [Deduct CK_S 15, Deduct CK_B 2]
      else if s = 0 then run [Deduct CK_S 17, Deduct CK_B 3]
      else if SECP256R1_N_MINUS_ONE < s then run [Deduct CK_S 19, Deduct CK_B 4]
      else if SECP256R1_P_MINUS_ONE < x then run [Deduct CK_S 22, Deduct CK_B 5]
      else if SECP256R1_P_MINUS_ONE < y then run [Deduct CK_S 24, Deduct CK_B 6]
      else if x = 0 \<and> y = 0 then run [Deduct CK_S 29, Deduct CK_B 8]
      else (let aux_x3 = x ^ 3 mod SECP256R1_P;
                aux_ax_b = big_Add (big_Mul x SECP256R1_A) x SECP256R1_B;
                aux_x3_ax_b = (aux_x3 + aux_ax_b) mod SECP256R1_P;
                aux_y2 = y ^ 2 mod SECP256R1_P
            in if aux_y2 \<noteq> aux_x3_ax_b
               then run [Deduct CK_S 104, Deduct CK_B 15, Deduct CK_A 12]
               else run [Deduct CK_S 7718, Deduct CK_B 22, Deduct CK_A 531]))"

definition preP256Verify :: "int \<Rightarrow> int \<Rightarrow> int \<Rightarrow> int \<Rightarrow> cop" where [cc_methods]:
  "preP256Verify r s x y = run [Deduct CK_S 50, Deduct CK_B 1,
     multiCall readFromCallDataOffset 5, p256verify r s x y, mStore32, mStoreX]"

end
