(* ===== verification/ZkCounterTable.thy ===== *)
theory ZkCounterTable
  imports ZkCounters
begin

text \<open>
  The dispatch table \<open>SimpleCounterOperations\<close>, the jump-table wrapper, and the contract every
  method of the collector keeps: no panic on a well-formed collector, \<open>used + remaining\<close> equal to
  the limit of each counter, limits and configuration untouched. The locale \<open>counter_table\<close> is
  the interface the interpreter loop relies on; it is interpreted on the table of the source.
\<close>

section \<open>The dispatch table\<close>

type_synonym executionFunc = "EVM \<Rightarrow> ScopeContext \<Rightarrow> cop"

definition counterCalls :: "(byte \<times> executionFunc) list" where
  "counterCalls =
     [
      (0x01, opAdd), (0x02, opMul), (0x03, opSub), (0x04, opDiv), (0x05, opSDiv), (0x06, opMod),
      (0x07, opSMod), (0x08, opAddMod), (0x09, opMulMod), (0x0a, opExp), (0x0b, opSignExtend),
      (0x40, opBlockHash), (0x41, opCoinbase), (0x42, opTimestamp), (0x43, opNumber),
      (0x44, opDifficulty), (0x45, opGasLimit), (0x46, opChainId), (0x35, opCalldataLoad),
      (0x36, opCalldataSize), (0x37, opCalldataCopy), (0x38, opCodeSize), (0x3b, opExtCodeSize),
      (0x3c, opExtCodeCopy), (0x39, opCodeCopy), (0x3d, opReturnDataSize),
      (0x3e, opReturnDataCopy), (0x3f, opExtCodeHash), (0x10, opLT), (0x11, opGT), (0x12, opSLT),
      (0x13, opSGT), (0x14, opEQ), (0x15, opIsZero), (0x16, opAnd), (0x17, opOr), (0x18, opXor),
      (0x19, opNot), (0x1a, opByte), (0x1c, opSHR), (0x1b, opSHL), (0x1d, opSAR), (0x00, opStop),
      (0xf0, opCreate), (0xf1, opCall), (0xf2, opCallCode), (0xf4, opDelegateCall),
      (0xfa, opStaticCall), (0xf5, opCreate2), (0xf3, opReturn), (0xfd, opRevert),
      (0xff, opSendAll), (0xfe, opInvalid), (0x30, opAddress), (0x47, opSelfBalance),
      (0x32, opOrigin), (0x33, opCaller), (0x34, opCallValue), (0x3a, opGasPrice), (0x5a, opGas),
      (0x20, opSha3), (0x56, opJump), (0x57, opJumpI), (0x58, opPC), (0x5b, opJumpDest),
      (0xa0, opLog0), (0xa1, opLog1), (0xa2, opLog2), (0xa3, opLog3), (0xa4, opLog4),
      (0x5f, opPush0), (0x60, opPushGenerator 1), (0x61, opPushGenerator 2),
      (0x62, opPushGenerator 3), (0x63, opPushGenerator 4), (0x64, opPushGenerator 5),
      (0x65, opPushGenerator 6), (0x66, opPushGenerator 7), (0x67, opPushGenerator 8),
      (0x68, opPushGenerator 9), (0x69, opPushGenerator 10), (0x6a, opPushGenerator 11),
      (0x6b, opPushGenerator 12), (0x6c, opPushGenerator 13), (0x6d, opPushGenerator 14),
      (0x6e, opPushGenerator 15), (0x6f, opPushGenerator 16), (0x70, opPushGenerator 17),
      (0x71, opPushGenerator 18), (0x72, opPushGenerator 19), (0x73, opPushGenerator 20),
      (0x74, opPushGenerator 21), (0x75, opPushGenerator 22), (0x76, opPushGenerator 23),
      (0x77, opPushGenerator 24), (0x78, opPushGenerator 25), (0x79, opPushGenerator 26),
      (0x7a, opPushGenerator 27), (0x7b, opPushGenerator 28), (0x7c, opPushGenerator 29),
      (0x7d, opPushGenerator 30), (0x7e, opPushGenerator 31), (0x7f, opPushGenerator 32),
      (0x80, opDup), (0x81, opDup), (0x82, opDup), (0x83, opDup), (0x84, opDup), (0x85, opDup),
      (0x86, opDup), (0x87, opDup), (0x88, opDup), (0x89, opDup), (0x8a, opDup), (0x8b, opDup),
      (0x8c, opDup), (0x8d, opDup), (0x8e, opDup), (0x8f, opDup), (0x90, opSwap), (0x91, opSwap),
      (0x92, opSwap), (0x93, opSwap), (0x94, opSwap), (0x95, opSwap), (0x96, opSwap),
      (0x97, opSwap), (0x98, opSwap), (0x99, opSwap), (0x9a, opSwap), (0x9b, opSwap),
      (0x9c, opSwap), (0x9d, opSwap), (0x9e, opSwap), (0x9f, opSwap), (0x50, opPop),
      (0x51, opMLoad), (0x52, opMStore), (0x53, opMStore8), (0x59, opMSize), (0x54, opSLoad),
      (0x55, opSSTore), (0x31, opBalance)]"

definition SimpleCounterOperations :: "byte \<Rightarrow> executionFunc option" where
  "SimpleCounterOperations op = map_of counterCalls op"

text \<open>
  The wrapper around an instruction: the counters are charged before the original instruction
  runs, and a failure of the former keeps the latter from running. The original \<open>execute\<close> is a
  function of the table that is wrapped; it may also change the collector, through calls it makes.
\<close>

definition WrapJumpTableWithZkCounters ::
  "(byte \<Rightarrow> executionFunc) \<Rightarrow> (byte \<Rightarrow> executionFunc option) \<Rightarrow> byte \<Rightarrow> executionFunc" where
  "WrapJumpTableWithZkCounters originalTable calls op =
     (case calls op of
        Some counter \<Rightarrow> (\<lambda>i s cc. rbind (counter i s cc) (originalTable op i s))
      | None \<Rightarrow> originalTable op)"

text \<open>
  How deep the counter handler of an opcode looks into the stack: the largest index of its \<open>PeekAt\<close>
  calls. It never exceeds the \<open>numPop\<close> of the opcode's row in \<open>core/vm/jump_table.go\<close>, the number of
  items the interpreter checks for before it calls the handler, and is smaller where the handler
  does not look at every operand (3 of the 4 of \<open>CREATE2\<close>, 2 of the operands of a \<open>LOG\<close>).
\<close>

definition stack_needed :: "byte \<Rightarrow> nat" where
  "stack_needed op = (case map_of
     [(0x0a, 2), (0x37, 3), (0x3c, 4), (0x39, 3), (0x3e, 3), (0xf0, 3), (0xf1, 7), (0xf2, 7),
      (0xf4, 6), (0xfa, 6), (0xf5, 3), (0xf3, 2), (0xfd, 2), (0x20, 2), (0xa0, 2), (0xa1, 2),
      (0xa2, 2), (0xa3, 2), (0xa4, 2)] op of Some n \<Rightarrow> n | None \<Rightarrow> 0)"

section \<open>The contract of a method\<close>

definition balanced :: "Counter option \<Rightarrow> bool" where
  "balanced v = (case v of None \<Rightarrow> False | Some c \<Rightarrow> used c + remaining c = initialAmount c)"

definition wf_counters :: "Counters \<Rightarrow> bool" where
  "wf_counters cs \<longleftrightarrow> length cs = CounterTypesCount \<and> list_all balanced cs"

definition limits_of :: "Counters \<Rightarrow> (string \<times> goint) option list" where
  "limits_of cs = map (map_option (\<lambda>c. (cname c, initialAmount c))) cs"

definition same_config :: "CounterCollector \<Rightarrow> CounterCollector \<Rightarrow> bool" where
  "same_config cc cc' \<longleftrightarrow>
     limits_of (cc_counters cc') = limits_of (cc_counters cc) \<and> cc_smtLevels cc' = cc_smtLevels cc \<and>
     cc_isDeploy cc' = cc_isDeploy cc \<and> cc_transaction cc' = cc_transaction cc \<and>
     cc_forkId cc' = cc_forkId cc"

definition charges :: "cop \<Rightarrow> bool" where
  "charges f \<longleftrightarrow>
     (\<forall>cc. wf_counters (cc_counters cc) \<longrightarrow>
        (\<exists>cc'. f cc = Inr cc' \<and> wf_counters (cc_counters cc') \<and> same_config cc cc'))"

named_theorems charges_intros \<open>rules of the method contract\<close>

lemma chargesI:
  "(\<And>cc. wf_counters (cc_counters cc) \<Longrightarrow>
      \<exists>cc'. f cc = Inr cc' \<and> wf_counters (cc_counters cc') \<and> same_config cc cc') \<Longrightarrow> charges f"
  by (simp add: charges_def)

lemma chargesE:
  assumes "charges f" "wf_counters (cc_counters cc)"
  obtains cc' where "f cc = Inr cc'" "wf_counters (cc_counters cc')" "same_config cc cc'"
  using assms by (auto simp: charges_def)

lemma same_config_refl [simp]: "same_config cc cc"
  by (simp add: same_config_def)

lemma same_config_trans: "same_config a b \<Longrightarrow> same_config b c \<Longrightarrow> same_config a c"
  by (simp add: same_config_def)

lemma key_index_less [simp]: "key_index k < CounterTypesCount"
  by (cases k) (simp_all add: CounterTypesCount_def)

lemma counter_at_wf:
  assumes "wf_counters cs" "i < CounterTypesCount"
  obtains c where "cs ! i = Some c" "counter_at cs i = Inr c" "used c + remaining c = initialAmount c"
  using assms by (cases "cs ! i")
    (auto simp: wf_counters_def list_all_length balanced_def counter_at_def idx_in split: option.splits)

lemma charges_Deduct [charges_intros]: "charges (Deduct k n)"
proof (rule chargesI)
  fix cc :: CounterCollector assume wf: "wf_counters (cc_counters cc)"
  obtain c where c: "cc_counters cc ! key_index k = Some c"
    "counter_at (cc_counters cc) (key_index k) = Inr c" "used c + remaining c = initialAmount c"
    using counter_at_wf [OF wf key_index_less] .
  have len: "key_index k < length (cc_counters cc)" using wf by (simp add: wf_counters_def)
  define c' where "c' = c\<lparr>used := used c + n, remaining := remaining c - n\<rparr>"
  have "balanced (Some c')" using c(3) by (simp add: c'_def balanced_def)
  then have "wf_counters ((cc_counters cc)[key_index k := Some c'])"
    using wf by (auto simp: wf_counters_def list_all_length nth_list_update)
  moreover have "limits_of ((cc_counters cc)[key_index k := Some c']) = limits_of (cc_counters cc)"
    using c(1) len by (auto simp: limits_of_def map_update c'_def intro!: list_update_same_conv [THEN iffD2])
  moreover have "Deduct k n cc = Inr (cc\<lparr>cc_counters := (cc_counters cc)[key_index k := Some c']\<rparr>)"
    using c(2) len by (simp add: Deduct_def set_counter_def setidx_in c'_def)
  ultimately show "\<exists>cc'. Deduct k n cc = Inr cc' \<and> wf_counters (cc_counters cc') \<and> same_config cc cc'"
    by (simp add: same_config_def)
qed

lemma charges_Deduct_dyn [charges_intros]: "charges (\<lambda>cc. Deduct k (h cc) cc)"
  using charges_Deduct by (auto simp: charges_def)

lemma charges_skip [charges_intros]: "charges Inr"
  by (simp add: charges_def)

lemma charges_run_Nil [charges_intros]: "charges (run [])"
  by (simp add: charges_def)

lemma charges_bind: "charges f \<Longrightarrow> charges g \<Longrightarrow> charges (\<lambda>cc. rbind (f cc) g)"
  unfolding charges_def by (metis rbind_Inr same_config_trans)

lemma charges_run_Cons [charges_intros]: "charges f \<Longrightarrow> charges (run fs) \<Longrightarrow> charges (run (f # fs))"
  using charges_bind [of f "run fs"] by (simp add: charges_def)

lemma charges_if [charges_intros]: "charges f \<Longrightarrow> charges g \<Longrightarrow> charges (if b then f else g)"
  by (simp add: charges_def)

lemma charges_if_app [charges_intros]:
  "charges (\<lambda>cc. f cc cc) \<Longrightarrow> charges (\<lambda>cc. g cc cc) \<Longrightarrow> charges (\<lambda>cc. (if p cc then f cc else g cc) cc)"
  by (simp add: charges_def)

lemma charges_if_dyn [charges_intros]:
  "charges f \<Longrightarrow> charges g \<Longrightarrow> charges (\<lambda>cc. if p cc then f cc else g cc)"
  by (auto simp: charges_def)

lemma charges_for_loop [charges_intros]: "charges f \<Longrightarrow> charges (for_loop f n)"
proof (induction n)
  case (Suc n)
  then show ?case using charges_bind [of f "for_loop f n"] by (simp add: charges_def)
qed (simp add: charges_def)

lemma overflown_loop_wf:
  "list_all balanced cs \<Longrightarrow>
   overflown_loop cs = Inr (list_ex (\<lambda>v. case v of Some c \<Rightarrow> sint (remaining c) < 0 | None \<Rightarrow> False) cs)"
  by (induction cs) (auto simp: balanced_def split: option.splits)

lemma charges_multiCall_loop: "charges f \<Longrightarrow> charges (multiCall_loop f i n)"
proof (induction n arbitrary: i)
  case (Suc n)
  show ?case
  proof (rule chargesI)
    fix cc :: CounterCollector assume wf: "wf_counters (cc_counters cc)"
    then obtain b where b: "isOverflown cc = Inr b"
      using overflown_loop_wf [of "cc_counters cc"] by (auto simp: isOverflown_def wf_counters_def)
    have "charges (\<lambda>cc. rbind (f cc) (multiCall_loop f (Suc i) n))"
      by (rule charges_bind [OF Suc.prems Suc.IH [OF Suc.prems]])
    then obtain cc' where "rbind (f cc) (multiCall_loop f (Suc i) n) = Inr cc'"
      "wf_counters (cc_counters cc')" "same_config cc cc'" using wf by (rule chargesE)
    then show "\<exists>cc'. multiCall_loop f i (Suc n) cc = Inr cc' \<and> wf_counters (cc_counters cc') \<and>
                 same_config cc cc'"
      using wf b by auto
  qed
qed (simp add: charges_def)

lemma charges_multiCall [charges_intros]: "charges f \<Longrightarrow> charges (multiCall f n)"
  unfolding multiCall_def by (rule charges_multiCall_loop)

lemma PeekAt_ok [simp]:
  "0 < n \<Longrightarrow> n \<le> length (Stack s) \<Longrightarrow> PeekAt s n = Inr (Stack s ! (length (Stack s) - n))"
  by (simp add: PeekAt_def idx_in)

lemma PeekInt_ok [simp]:
  "0 < n \<Longrightarrow> n \<le> length (Stack s) \<Longrightarrow> PeekInt s n = Inr (ucast (Stack s ! (length (Stack s) - n)))"
  by (simp add: PeekInt_def)

section \<open>Every method keeps the contract\<close>

lemma charges_opCode [charges_intros]: "charges (opCode s)"
  unfolding cc_methods by (intro charges_intros)

lemma charges_saveMem [charges_intros]: "charges (saveMem n)"
  unfolding cc_methods by (intro charges_intros)

lemma charges_getLenBytes [charges_intros]: "charges (getLenBytes n)"
  unfolding cc_methods by (intro charges_intros)

lemma charges_processContractCall [charges_intros]: "charges (processContractCall l n d c c2)"
  unfolding cc_methods by (intro charges_intros)

lemma charges_processContractCall_dyn [charges_intros]:
  "charges (\<lambda>cc. processContractCall (cc_smtLevels cc) n d c c2 cc)"
  using charges_processContractCall by (auto simp: charges_def)

lemma charges_PeekAt [charges_intros]:
  "0 < n \<Longrightarrow> n \<le> length (Stack s) \<Longrightarrow> (\<And>x. charges (F x)) \<Longrightarrow>
   charges (\<lambda>cc. rbind (PeekAt s n) (\<lambda>x. F x cc))"
  by (simp add: charges_def)

lemma charges_PeekInt [charges_intros]:
  "0 < n \<Longrightarrow> n \<le> length (Stack s) \<Longrightarrow> (\<And>x. charges (F x)) \<Longrightarrow>
   charges (\<lambda>cc. rbind (PeekInt s n) (\<lambda>x. F x cc))"
  by (simp add: charges_def)

lemma charges_call_helpers [charges_intros]:
  "charges computeGasSendCall" "charges saveCalldataPointer" "charges checkpointBlockInfoTree"
  "charges checkpointTouched" "charges maskAddress" "charges isColdAddress" "charges isEmptyAccount"
  "charges divArith"
  unfolding cc_methods by (intro charges_intros)+

text \<open>The handlers that look at the stack, under the depth they need.\<close>

lemma charges_opExp: "2 \<le> length (Stack s) \<Longrightarrow> charges (opExp i s)"
  unfolding cc_methods Let_def by (intro charges_intros) simp_all

lemma charges_opCalldataCopy: "3 \<le> length (Stack s) \<Longrightarrow> charges (opCalldataCopy i s)"
  unfolding cc_methods Let_def by (intro charges_intros) simp_all

lemma charges_opExtCodeCopy: "4 \<le> length (Stack s) \<Longrightarrow> charges (opExtCodeCopy i s)"
  unfolding cc_methods Let_def by (intro charges_intros) simp_all

lemma charges_opCodeCopy: "3 \<le> length (Stack s) \<Longrightarrow> charges (opCodeCopy i s)"
  unfolding cc_methods Let_def by (intro charges_intros) simp_all

lemma charges_opReturnDataCopy: "3 \<le> length (Stack s) \<Longrightarrow> charges (opReturnDataCopy i s)"
  unfolding cc_methods Let_def by (intro charges_intros) simp_all

lemma charges_opCreate: "3 \<le> length (Stack s) \<Longrightarrow> charges (opCreate i s)"
  unfolding opCreate_def Let_def by (intro charges_intros) simp_all

lemma charges_opCreate2: "3 \<le> length (Stack s) \<Longrightarrow> charges (opCreate2 i s)"
  unfolding opCreate2_def Let_def by (intro charges_intros) simp_all

lemma charges_opCall: "7 \<le> length (Stack s) \<Longrightarrow> charges (opCall i s)"
  unfolding opCall_def Let_def by (intro charges_intros) simp_all

lemma charges_opCallCode: "7 \<le> length (Stack s) \<Longrightarrow> charges (opCallCode i s)"
  unfolding opCallCode_def Let_def by (intro charges_intros) simp_all

lemma charges_opDelegateCall: "6 \<le> length (Stack s) \<Longrightarrow> charges (opDelegateCall i s)"
  unfolding opDelegateCall_def Let_def by (intro charges_intros) simp_all

lemma charges_opStaticCall: "6 \<le> length (Stack s) \<Longrightarrow> charges (opStaticCall i s)"
  unfolding opStaticCall_def Let_def by (intro charges_intros) simp_all

lemma charges_opReturn: "2 \<le> length (Stack s) \<Longrightarrow> charges (opReturn i s)"
  unfolding cc_methods Let_def by (intro charges_intros) simp_all

lemma charges_opRevert: "2 \<le> length (Stack s) \<Longrightarrow> charges (opRevert i s)"
  unfolding cc_methods Let_def by (intro charges_intros) simp_all

lemma charges_opSha3: "2 \<le> length (Stack s) \<Longrightarrow> charges (opSha3 i s)"
  unfolding cc_methods Let_def by (intro charges_intros) simp_all

lemma charges_opLog0: "2 \<le> length (Stack s) \<Longrightarrow> charges (opLog0 i s)"
  unfolding cc_methods Let_def by (intro charges_intros) simp_all

lemma charges_opLog1: "2 \<le> length (Stack s) \<Longrightarrow> charges (opLog1 i s)"
  unfolding cc_methods Let_def by (intro charges_intros) simp_all

lemma charges_opLog2: "2 \<le> length (Stack s) \<Longrightarrow> charges (opLog2 i s)"
  unfolding cc_methods Let_def by (intro charges_intros) simp_all

lemma charges_opLog3: "2 \<le> length (Stack s) \<Longrightarrow> charges (opLog3 i s)"
  unfolding cc_methods Let_def by (intro charges_intros) simp_all

lemma charges_opLog4: "2 \<le> length (Stack s) \<Longrightarrow> charges (opLog4 i s)"
  unfolding cc_methods Let_def by (intro charges_intros) simp_all

lemmas charges_stack = charges_opExp charges_opCalldataCopy charges_opExtCodeCopy charges_opCodeCopy charges_opReturnDataCopy charges_opCreate charges_opCreate2
  charges_opCall charges_opCallCode charges_opDelegateCall charges_opStaticCall
  charges_opReturn charges_opRevert charges_opSha3 charges_opLog0
  charges_opLog1 charges_opLog2 charges_opLog3 charges_opLog4

lemma charges_simple:
  "charges (opAdd i s)" "charges (opMul i s)" "charges (opSub i s)" "charges (opDiv i s)"
  "charges (opSDiv i s)" "charges (opMod i s)" "charges (opSMod i s)" "charges (opAddMod i s)"
  "charges (opMulMod i s)" "charges (opSignExtend i s)" "charges (opBlockHash i s)"
  "charges (opCoinbase i s)" "charges (opTimestamp i s)" "charges (opNumber i s)"
  "charges (opDifficulty i s)" "charges (opGasLimit i s)" "charges (opChainId i s)"
  "charges (opCalldataLoad i s)" "charges (opCalldataSize i s)" "charges (opCodeSize i s)"
  "charges (opExtCodeSize i s)" "charges (opReturnDataSize i s)" "charges (opExtCodeHash i s)"
  "charges (opLT i s)" "charges (opGT i s)" "charges (opSLT i s)" "charges (opSGT i s)"
  "charges (opEQ i s)" "charges (opIsZero i s)" "charges (opAnd i s)" "charges (opOr i s)"
  "charges (opXor i s)" "charges (opNot i s)" "charges (opByte i s)" "charges (opSHR i s)"
  "charges (opSHL i s)" "charges (opSAR i s)" "charges (opStop i s)" "charges (opSendAll i s)"
  "charges (opInvalid i s)" "charges (opAddress i s)" "charges (opSelfBalance i s)"
  "charges (opOrigin i s)" "charges (opCaller i s)" "charges (opCallValue i s)"
  "charges (opGasPrice i s)" "charges (opGas i s)" "charges (opJump i s)" "charges (opJumpI i s)"
  "charges (opPC i s)" "charges (opJumpDest i s)" "charges (opPush0 i s)"
  "charges (opPushGenerator n i s)" "charges (opDup i s)" "charges (opSwap i s)"
  "charges (opPop i s)" "charges (opMLoad i s)" "charges (opMStore i s)"
  "charges (opMStore8 i s)" "charges (opMSize i s)" "charges (opSLoad i s)"
  "charges (opSSTore i s)" "charges (opBalance i s)"
  unfolding cc_methods by (intro charges_intros)+

definition row_ok :: "ScopeContext \<Rightarrow> EVM \<Rightarrow> byte \<times> executionFunc \<Rightarrow> bool" where
  "row_ok s i r \<longleftrightarrow> (stack_needed (fst r) \<le> length (Stack s) \<longrightarrow> charges (snd r i s))"

lemma row_ok_stackI: "(stack_needed op \<le> length (Stack s) \<Longrightarrow> charges (h i s)) \<Longrightarrow> row_ok s i (op, h)"
  by (simp add: row_ok_def)

lemma row_okI: "charges (h i s) \<Longrightarrow> row_ok s i (op, h)"
  by (simp add: row_ok_def)

lemma counterCalls_ok: "list_all (row_ok s i) counterCalls"
  unfolding counterCalls_def list.pred_inject(2)
  by (intro conjI list.pred_inject(1);
      ((rule row_okI, rule charges_simple) |
       (rule row_ok_stackI, rule charges_stack, simp add: stack_needed_def)))

section \<open>The interface of the interpreter loop\<close>

text \<open>The counters charged for a sequence of executed instructions.\<close>

primrec charge_trace ::
  "(byte \<Rightarrow> executionFunc option) \<Rightarrow> (byte \<times> EVM \<times> ScopeContext) list \<Rightarrow> cop" where
  "charge_trace calls [] cc = Inr cc"
| "charge_trace calls (e # es) cc =
     rbind ((case e of (op, i, s) \<Rightarrow> (case calls op of Some h \<Rightarrow> h i s | None \<Rightarrow> Inr)) cc)
       (charge_trace calls es)"

locale counter_table =
  fixes calls :: "byte \<Rightarrow> executionFunc option"
    and needs :: "byte \<Rightarrow> nat"
  assumes keeps: "calls op = Some h \<Longrightarrow> needs op \<le> length (Stack s) \<Longrightarrow> charges (h i s)"
begin

lemma step_charges:
  assumes "needs op \<le> length (Stack s)"
  shows "charges (case calls op of Some h \<Rightarrow> h i s | None \<Rightarrow> Inr)"
  using keeps [OF _ assms] by (auto intro: charges_skip split: option.splits)

lemma trace_charges:
  "(\<And>op i s. (op, i, s) \<in> set es \<Longrightarrow> needs op \<le> length (Stack s)) \<Longrightarrow>
   charges (charge_trace calls es)"
proof (induction es)
  case (Cons e es)
  obtain op i s where e: "e = (op, i, s)" by (cases e) auto
  have "charges (case calls op of Some h \<Rightarrow> h i s | None \<Rightarrow> Inr)"
    by (rule step_charges) (use Cons.prems e in auto)
  moreover have "charges (charge_trace calls es)"
    using Cons.IH Cons.prems by (metis list.set_intros(2))
  ultimately show ?case
    using charges_bind [of "case calls op of Some h \<Rightarrow> h i s | None \<Rightarrow> Inr" "charge_trace calls es"]
    by (simp add: e charges_def)
qed (simp add: charges_def)

lemma wrapped_charges:
  assumes "needs op \<le> length (Stack s)" "charges (original op i s)"
  shows "charges (WrapJumpTableWithZkCounters original calls op i s)"
proof (cases "calls op")
  case None
  then show ?thesis using assms by (simp add: WrapJumpTableWithZkCounters_def)
next
  case (Some h)
  then show ?thesis
    using charges_bind [OF keeps [OF Some assms(1)] assms(2)]
    by (simp add: WrapJumpTableWithZkCounters_def)
qed

end

interpretation vcounters: counter_table SimpleCounterOperations stack_needed
proof unfold_locales
  fix op h i and s :: ScopeContext
  assume "SimpleCounterOperations op = Some h" and need: "stack_needed op \<le> length (Stack s)"
  then have "(op, h) \<in> set counterCalls"
    unfolding SimpleCounterOperations_def by (intro map_of_SomeD) simp
  then have "row_ok s i (op, h)" using counterCalls_ok by (auto simp: list_all_iff)
  then show "charges (h i s)" using need by (simp add: row_ok_def)
qed

section \<open>Properties\<close>

lemma wf_createCountrsByLimits [simp]: "wf_counters (createCountrsByLimits l)"
  by (simp add: wf_counters_def createCountrsByLimits_def NewCounters_def CounterTypesCount_def
      new_counter_def balanced_def numeral_nat)

text \<open>
  C14. Counter accounting of a whole execution: for every sequence of executed opcodes whose stack
  depth the interpreter has checked, the handlers of the dispatch table never panic, every counter
  still satisfies \<open>used + remaining = initialAmount\<close> (as 64-bit integers), and neither the limits nor
  the configuration of the collector changed.
\<close>

theorem opcode_trace_balanced:
  assumes "wf_counters (cc_counters cc)"
    and "\<And>op i s. (op, i, s) \<in> set es \<Longrightarrow> stack_needed op \<le> length (Stack s)"
  shows "\<exists>cc'. charge_trace SimpleCounterOperations es cc = Inr cc' \<and>
           wf_counters (cc_counters cc') \<and> same_config cc cc'"
proof -
  have "charges (charge_trace SimpleCounterOperations es)"
    by (rule vcounters.trace_charges) (rule assms(2))
  then show ?thesis using assms(1) by (simp add: charges_def)
qed

definition sample_scope :: ScopeContext where
  "sample_scope = \<lparr>Stack = [5, 64, 0, 1, 2, 3, 4], IsCreate = False, IsCreate2 = False, CallerAddress = 9\<rparr>"

definition sample_evm :: EVM where
  "sample_evm = \<lparr>GetCodeSize = (\<lambda>_. 100), EVM_GetNonce = (\<lambda>_. 300)\<rparr>"

theorem opcode_trace_balanced_witness:
  "\<exists>cc'. charge_trace SimpleCounterOperations
           [(0x01, sample_evm, sample_scope), (0xf1, sample_evm, sample_scope)]
           NewUnlimitedCounterCollector = Inr cc' \<and>
         wf_counters (cc_counters cc') \<and> same_config NewUnlimitedCounterCollector cc'"
  by (rule opcode_trace_balanced)
    (auto simp: NewUnlimitedCounterCollector_def stack_needed_def sample_scope_def)

lemma multiCall_loop_cases:
  "multiCall_loop f i n cc = Inr cc' \<Longrightarrow>
   for_loop f n cc = Inr cc' \<or> isOverflown cc' = Inr True"
proof (induction n arbitrary: i cc)
  case (Suc n)
  then obtain stop where stop: "(if i mod 1000 = 0 then isOverflown cc else Inr False) = Inr stop"
    by (auto simp: rbind_eq_Inr)
  show ?case
  proof (cases stop)
    case True
    with Suc.prems stop have "cc' = cc" by simp
    with True stop show ?thesis by (simp split: if_splits)
  next
    case False
    with Suc.prems stop obtain cc1 where "f cc = Inr cc1" "multiCall_loop f (Suc i) n cc1 = Inr cc'"
      by (auto simp: rbind_eq_Inr)
    with Suc.IH show ?thesis by simp
  qed
qed simp

text \<open>
  C17. The early exit of \<open>multiCall\<close> never hides an overflow: when the loop returns, either it made
  all the calls it was asked to make, or the collector it returns is overflown.
\<close>

theorem multiCall_complete_or_overflown:
  assumes "multiCall f n cc = Inr cc'"
  shows "for_loop f (nat (sint n)) cc = Inr cc' \<or> isOverflown cc' = Inr True"
  using assms unfolding multiCall_def by (rule multiCall_loop_cases)

definition sample_collector :: CounterCollector where
  "sample_collector = \<lparr>cc_counters = replicate 8 (Some (new_counter 100 ''c'')), cc_smtLevels = 32,
     cc_isDeploy = False, cc_transaction = None, cc_forkId = 12\<rparr>"

theorem multiCall_complete_or_overflown_witness:
  "\<exists>cc'. multiCall divArith 2 sample_collector = Inr cc' \<and>
     (for_loop divArith (nat (sint (2 :: goint))) sample_collector = Inr cc' \<or>
      isOverflown cc' = Inr True)"
proof -
  have "wf_counters (cc_counters sample_collector)"
    by (simp add: sample_collector_def wf_counters_def CounterTypesCount_def new_counter_def
        balanced_def list_all_iff)
  moreover have "charges (multiCall divArith 2)" by (intro charges_intros)
  ultimately obtain cc' where "multiCall divArith 2 sample_collector = Inr cc'"
    by (auto simp: charges_def)
  with multiCall_complete_or_overflown [OF this] show ?thesis by blast
qed

lemma charges_modExp:
  assumes "modulus \<noteq> 0"
  shows "charges (modExp bLen mLen eLen base exponent modulus)"
proof (rule chargesI)
  fix cc :: CounterCollector
  assume wf: "wf_counters (cc_counters cc)"
  have total: "\<exists>a b c. expectedModExpCounters x y z base exponent modulus = Inr (a, b, c)" for x y z
    using assms by (simp add: expectedModExpCounters_def big_Div_def big_Mod_def split_def Let_def)
  obtain a b c where abc: "(if cc_forkId cc \<ge> ForkId13Durian
      then expectedModExpCounters (ceilI bLen 32) (ceilI eLen 32) (ceilI mLen 32) base exponent modulus
      else expectedModExpCounters (ceilI bLen 32) (ceilI mLen 32) (ceilI eLen 32) base exponent modulus)
      = Inr (a, b, c)"
    using total by meson
  have "charges (run [Deduct CK_S (of_int a), Deduct CK_B (of_int b), Deduct CK_A (of_int c)])"
    by (intro charges_intros)
  then show "\<exists>cc'. modExp bLen mLen eLen base exponent modulus cc = Inr cc' \<and>
               wf_counters (cc_counters cc') \<and> same_config cc cc'"
    using wf abc by (simp add: modExp_def charges_def)
qed

lemma big_Uint64_zero: "0 < big_Uint64 m \<Longrightarrow> m \<noteq> 0"
  by (auto simp: big_Uint64_def)

lemma charges_modExp_guarded [charges_intros]:
  "charges (if 0 < big_Uint64 m then modExp bLen mLen eLen base exponent m else Inr)"
  using charges_modExp [OF big_Uint64_zero] charges_skip by simp

lemmas memory_methods = readFromCallDataOffset_def mLoadX_def offsetUtil_def SHRarith_def
  SHLarith_def divArith_def addArith_def mulArith_def subArith_def mStoreX_def mStore32_def
  preModExpLoop_def

lemma charges_preModExp: "charges (preModExp cd rd bLen mLen eLen base exponent modulus)"
  unfolding preModExp_def memory_methods by (intro charges_modExp_guarded charges_intros)

lemma charges_ecRecover:
  assumes "\<And>c. sqrt' c \<noteq> None"
  shows "charges (ecRecover sqrt' v r s pre)"
proof -
  obtain y where y: "sqrt' ((r ^ 3 + 7) mod fpec) = Some y" using assms by blast
  show ?thesis
    unfolding ecRecover_def Let_def y option.case by (intro charges_intros)
qed

text \<open>
  C18. The precompiles keep the same contract: on a well-formed collector the counter code of the
  elliptic-curve, hash, identity, modular exponentiation and signature precompiles returns without
  a panic and keeps every counter balanced, given that \<open>uint256\<close>'s \<open>Sqrt\<close> returns a value.
\<close>

theorem precompiles_balanced:
  assumes "\<And>c. u256_Sqrt c \<noteq> None"
    and "f \<in> {preEcRecover u256_Sqrt v r s, preSha256 n, preIdentity n m, preECAdd, preECMul,
               preECPairing n, preModExp n m bLen mLen eLen base exponent modulus,
               preP256Verify r' s' x y}"
    and "wf_counters (cc_counters cc)"
  shows "\<exists>cc'. f cc = Inr cc' \<and> wf_counters (cc_counters cc') \<and> same_config cc cc'"
proof -
  have "charges (ecRecover u256_Sqrt v r s True)" by (rule charges_ecRecover) (rule assms(1))
  then have "charges (preEcRecover u256_Sqrt v r s)"
    unfolding preEcRecover_def memory_methods by (intro charges_intros)
  moreover have "charges (preSha256 n)" "charges (preIdentity n m)" "charges preECAdd"
    "charges preECMul" "charges (preECPairing n)" "charges (preP256Verify r' s' x y)"
    unfolding cc_methods Let_def by (intro charges_intros)+
  ultimately have "charges f" using assms(2) charges_preModExp by auto
  then show ?thesis using assms(3) by (simp add: charges_def)
qed

theorem precompiles_balanced_witness:
  "\<exists>cc'. preEcRecover Some 27 5 6 sample_collector = Inr cc' \<and>
         wf_counters (cc_counters cc') \<and> same_config sample_collector cc'"
proof -
  have "wf_counters (cc_counters sample_collector)"
    by (simp add: sample_collector_def wf_counters_def CounterTypesCount_def new_counter_def
        balanced_def list_all_iff)
  then show ?thesis
    using precompiles_balanced [where u256_Sqrt = Some and f = "preEcRecover Some 27 5 6"
        and v = 27 and r = 5 and s = 6 and cc = sample_collector]
    by simp
qed

lemma SECP256R1_values:
  "SECP256R1_N_MINUS_ONE = SECP256R1_P - 1" "SECP256R1_P_MINUS_ONE = SECP256R1_P - 1"
  "SECP256R1_A = SECP256R1_P - 3" "odd SECP256R1_P"
  by (simp_all add: SECP256R1_N_MINUS_ONE_def SECP256R1_P_MINUS_ONE_def SECP256R1_P_def SECP256R1_A_def secp_init_def
      big_Sub_at_def)

text \<open>A point of the curve with a first coordinate other than 0 is not a point of the curve whose linear coefficient is 1.\<close>

lemma not_on_both_curves:
  fixes p :: int
  assumes "odd p" "0 < x" "x < p" "c mod p = (x ^ 3 + (p - 3) * x + b) mod p"
  shows "c mod p \<noteq> (x ^ 3 mod p + (x + b)) mod p"
proof
  assume "c mod p = (x ^ 3 mod p + (x + b)) mod p"
  then have "(x ^ 3 + (p - 3) * x + b) mod p = (x ^ 3 + (x + b)) mod p" using assms(4) by (simp add: mod_add_left_eq)
  then have "p dvd (x ^ 3 + (p - 3) * x + b) - (x ^ 3 + (x + b))" by (simp add: mod_eq_dvd_iff)
  moreover have "(x ^ 3 + (p - 3) * x + b) - (x ^ 3 + (x + b)) = p * x - 4 * x" by (simp add: algebra_simps)
  ultimately have "p dvd p * x - 4 * x" by simp
  then have "p dvd 4 * x" by (metis dvd_diff_right_iff dvd_triv_left)
  moreover have "coprime p (2 ^ 2)" using assms(1) by (simp only: coprime_power_right_iff coprime_right_2_iff_odd simp_thms)
  ultimately have "p dvd x" by (simp add: coprime_dvd_mult_right_iff)
  then show False using assms(2,3) zdvd_imp_le by fastforce
qed

text \<open>
  C29. The P-256 precompile is charged too little for public keys: for each point of the curve
  with a first coordinate other than 0, \<open>p256verify\<close> makes the charge of a point off the curve (104 steps,
  15 binaries, 12 arithmetics) and never that of a verification (7718, 22, 531), because the sum
  \<open>Mul(x, A).Add(x, B)\<close> drops the product. This is so for all parts \<open>r\<close> and \<open>s\<close> of the signature
  between 1 and the field prime minus one, also those the precompile has to refuse because they
  are not below the order of the group: \<open>SECP256R1_N_MINUS_ONE\<close> is the field prime minus one.
\<close>

theorem p256verify_undercharges_curve_points:
  assumes "0 < r" "r < SECP256R1_P" "0 < s" "s < SECP256R1_P" "0 < x" "x < SECP256R1_P" "0 \<le> y" "y < SECP256R1_P"
    and "y ^ 2 mod SECP256R1_P = (x ^ 3 + SECP256R1_A * x + SECP256R1_B) mod SECP256R1_P"
  shows "p256verify r s x y = run [Deduct CK_S 104, Deduct CK_B 15, Deduct CK_A 12]"
  using assms(1-8) not_on_both_curves [OF SECP256R1_values(4) assms(5,6) assms(9) [unfolded SECP256R1_values(3)]]
  by (simp add: p256verify_def SECP256R1_values(1,2) big_Add_def Let_def)

theorem p256verify_undercharges_curve_points_witness:
  "p256verify 0xffffffff00000000ffffffffffffffffbce6faada7179e84f3b9cac2fc632551 1
      0x6b17d1f2e12c4247f8bce6e563a440f277037d812deb33a0f4a13945d898c296
      0x4fe342e2fe1a7f9b8ee7eb4a7c0f9e162bce33576b315ececbb6406837bf51f5 =
    run [Deduct CK_S 104, Deduct CK_B 15, Deduct CK_A 12]"
proof (rule p256verify_undercharges_curve_points)
  show "(0x4fe342e2fe1a7f9b8ee7eb4a7c0f9e162bce33576b315ececbb6406837bf51f5 :: int) ^ 2 mod SECP256R1_P =
      (0x6b17d1f2e12c4247f8bce6e563a440f277037d812deb33a0f4a13945d898c296 ^ 3 +
       SECP256R1_A * 0x6b17d1f2e12c4247f8bce6e563a440f277037d812deb33a0f4a13945d898c296 + SECP256R1_B) mod SECP256R1_P"
    unfolding mod_eq_dvd_iff
    by (rule dvdI [where k = "- 0x12bdd1ad23dfc833dccf5f6141d6bb4a1f365dc1430b0e600b52dd851938d2d6fe48d89a1028327df66c2a7b9edc3e46cdec89e6af942f1b022b7fe93b37c6ee"])
      (simp add: SECP256R1_P_def SECP256R1_A_def SECP256R1_B_def secp_init_def big_Sub_at_def)
qed (simp_all add: SECP256R1_P_def secp_init_def big_Sub_at_def)

end
