(* ===== verification/Rlp.thy ===== *)
theory Rlp
  imports DbUtils
begin

text \<open>
  The RLP codec of \<open>rlp/encode.go\<close> and \<open>rlp/decode.go\<close> on the values the zkEVM transaction code
  exchanges: byte strings and nested slices of them for the encoder, a slice of byte strings
  (\<open>[][]byte\<close>) for the decoder. The encoder is the two-pass \<open>encbuf\<close> of the source, which collects
  string data and list headers separately and merges them at the end; the decoder is the \<open>Stream\<close>
  with its stack of enclosing lists. Lengths are natural numbers; they are below \<open>2^64\<close> in every
  theorem.
\<close>

section \<open>Encoder\<close>

definition putint :: "uint64 \<Rightarrow> byte list" where
  "putint i =
     (if i < 2 ^ 8 then [ucast i]
      else if i < 2 ^ 16 then [ucast (drop_bit 8 i), ucast i]
      else if i < 2 ^ 24 then [ucast (drop_bit 16 i), ucast (drop_bit 8 i), ucast i]
      else if i < 2 ^ 32 then
        [ucast (drop_bit 24 i), ucast (drop_bit 16 i), ucast (drop_bit 8 i), ucast i]
      else if i < 2 ^ 40 then
        [ucast (drop_bit 32 i), ucast (drop_bit 24 i), ucast (drop_bit 16 i), ucast (drop_bit 8 i),
         ucast i]
      else if i < 2 ^ 48 then
        [ucast (drop_bit 40 i), ucast (drop_bit 32 i), ucast (drop_bit 24 i), ucast (drop_bit 16 i),
         ucast (drop_bit 8 i), ucast i]
      else if i < 2 ^ 56 then
        [ucast (drop_bit 48 i), ucast (drop_bit 40 i), ucast (drop_bit 32 i), ucast (drop_bit 24 i),
         ucast (drop_bit 16 i), ucast (drop_bit 8 i), ucast i]
      else
        [ucast (drop_bit 56 i), ucast (drop_bit 48 i), ucast (drop_bit 40 i), ucast (drop_bit 32 i),
         ucast (drop_bit 24 i), ucast (drop_bit 16 i), ucast (drop_bit 8 i), ucast i])"

text \<open>\<open>intsize\<close>: the bit length of \<open>i\<close> rounded up to bytes.\<close>

fun bit_len :: "nat \<Rightarrow> nat" where
  "bit_len n = (if n = 0 then 0 else Suc (bit_len (n div 2)))"

declare bit_len.simps [simp del]

definition intsize :: "uint64 \<Rightarrow> nat" where
  "intsize i = (bit_len (unat i) + 7) div 8"

definition headsize :: "uint64 \<Rightarrow> nat" where
  "headsize sz = (if sz < 56 then 1 else 1 + intsize sz)"

text \<open>\<open>puthead\<close> as the bytes it writes; the returned length is the length of the list.\<close>

definition puthead :: "byte \<Rightarrow> byte \<Rightarrow> uint64 \<Rightarrow> byte list" where
  "puthead smalltag largetag sz =
     (if sz < 56 then [smalltag + ucast sz]
      else let b = putint sz in (largetag + of_nat (length b)) # b)"

record listhead =
  lh_offset :: nat
  lh_size :: nat

record encbuf =
  eb_str :: "byte list"
  eb_lheads :: "listhead list"
  eb_lhsize :: nat

definition listhead_encode :: "listhead \<Rightarrow> byte list" where
  "listhead_encode head = puthead 0xC0 0xF7 (of_nat (lh_size head))"

definition encodeStringHeader :: "nat \<Rightarrow> encbuf \<Rightarrow> encbuf" where
  "encodeStringHeader sz w =
     (if sz < 56 then w\<lparr>eb_str := eb_str w @ [0x80 + of_nat sz]\<rparr>
      else let b = putint (of_nat sz)
           in w\<lparr>eb_str := eb_str w @ (0xB7 + of_nat (length b)) # b\<rparr>)"

definition encodeString :: "byte list \<Rightarrow> encbuf \<Rightarrow> encbuf" where
  "encodeString b w =
     (if length b = 1 \<and> b ! 0 \<le> 0x7F then w\<lparr>eb_str := eb_str w @ [b ! 0]\<rparr>
      else let w = encodeStringHeader (length b) w in w\<lparr>eb_str := eb_str w @ b\<rparr>)"

definition eb_size :: "encbuf \<Rightarrow> nat" where
  "eb_size w = length (eb_str w) + eb_lhsize w"

definition eb_list :: "encbuf \<Rightarrow> encbuf \<times> nat" where
  "eb_list w =
     (w\<lparr>eb_lheads := eb_lheads w @ [\<lparr>lh_offset = length (eb_str w), lh_size = eb_lhsize w\<rparr>]\<rparr>,
      length (eb_lheads w))"

definition listEnd :: "nat \<Rightarrow> encbuf \<Rightarrow> encbuf" where
  "listEnd index w =
     (let lh = eb_lheads w ! index;
          sz = eb_size w - lh_offset lh - lh_size lh
      in w\<lparr>eb_lheads := (eb_lheads w)[index := lh\<lparr>lh_size := sz\<rparr>],
           eb_lhsize := (if sz < 56 then eb_lhsize w + 1
                         else eb_lhsize w + (1 + intsize (of_nat sz)))\<rparr>)"

text \<open>The values: a byte slice (\<open>writeBytes\<close>) or a slice of values (\<open>makeSliceWriter\<close>).\<close>

datatype rlpval = Bytes "byte list" | Slice "rlpval list"

fun encode :: "rlpval \<Rightarrow> encbuf \<Rightarrow> encbuf" and encode_elems :: "rlpval list \<Rightarrow> encbuf \<Rightarrow> encbuf" where
  "encode (Bytes b) w = encodeString b w"
| "encode (Slice vs) w = (case eb_list w of (w', index) \<Rightarrow> listEnd index (encode_elems vs w'))"
| "encode_elems [] w = w"
| "encode_elems (v # vs) w = encode_elems vs (encode v w)"

text \<open>
  \<open>copy(out[pos:], src)\<close> and the writes of a header into \<open>out[pos:]\<close>: the bytes that fit are
  overwritten in place; the number of copied bytes is returned.
\<close>

definition write_at :: "byte list \<Rightarrow> nat \<Rightarrow> byte list \<Rightarrow> byte list" where
  "write_at out pos bs = take pos out @ bs @ drop (pos + length bs) out"

definition copy_at :: "byte list \<Rightarrow> nat \<Rightarrow> byte list \<Rightarrow> byte list \<times> nat" where
  "copy_at out pos src = (let n = min (length out - pos) (length src) in (write_at out pos (take n src), n))"

text \<open>
  \<open>toBytes\<close> merges the string data and the list headers in a buffer of \<open>size()\<close> bytes. A header that
  does not fit is an index out of range, string data that does not fit is cut off. The offset of a
  header is a length the string data had, so slicing never reaches past that data.
\<close>

fun toBytes_loop :: "byte list \<Rightarrow> listhead list \<Rightarrow> nat \<Rightarrow> nat \<Rightarrow> byte list \<Rightarrow> byte list result" where
  "toBytes_loop str [] strpos pos out =
     (if length str < strpos then Inl (Panic ''slice bounds out of range'')
      else Inr (fst (copy_at out pos (drop strpos str))))"
| "toBytes_loop str (head # heads) strpos pos out =
     (if lh_offset head < strpos \<or> length str < lh_offset head then Inl (Panic ''slice bounds out of range'')
      else
        let (out, n) = copy_at out pos (take (lh_offset head - strpos) (drop strpos str));
            pos = pos + n;
            strpos = strpos + n;
            enc = listhead_encode head in
        if length out - pos < length enc then Inl (Panic ''index out of range'')
        else toBytes_loop str heads strpos (pos + length enc) (write_at out pos enc))"

definition toBytes :: "encbuf \<Rightarrow> byte list result" where
  "toBytes w = toBytes_loop (eb_str w) (eb_lheads w) 0 0 (replicate (eb_size w) 0)"

definition eb_reset :: encbuf where
  "eb_reset = \<lparr>eb_str = [], eb_lheads = [], eb_lhsize = 0\<rparr>"

definition EncodeToBytes :: "rlpval \<Rightarrow> byte list result" where
  "EncodeToBytes v = toBytes (encode v eb_reset)"

section \<open>Decoder\<close>

datatype Kind = KByte | KString | KList

record listpos =
  lp_pos :: nat
  lp_size :: nat

text \<open>\<open>st_kind\<close> is \<open>None\<close> for the value -1 that asks \<open>Kind\<close> to read the next tag.\<close>

record Stream =
  st_r :: "byte list"
  st_remaining :: nat
  st_limited :: bool
  st_kind :: "Kind option"
  st_size :: nat
  st_byteval :: byte
  st_stack :: "listpos list"

text \<open>The innermost list is the head of \<open>st_stack\<close>.\<close>

definition EOL :: error where "EOL = Err ''rlp: end of list''"
definition ErrExpectedString :: error where "ErrExpectedString = Err ''rlp: expected String or Byte''"
definition ErrExpectedList :: error where "ErrExpectedList = Err ''rlp: expected List''"
definition ErrCanonSize :: error where "ErrCanonSize = Err ''rlp: non-canonical size information''"
definition ErrElemTooLarge :: error where
  "ErrElemTooLarge = Err ''rlp: element is larger than containing list''"
definition ErrValueTooLarge :: error where
  "ErrValueTooLarge = Err ''rlp: value size exceeds available input length''"
definition ErrMoreThanOneValue :: error where
  "ErrMoreThanOneValue = Err ''rlp: input contains more than one value''"
definition ErrUnexpectedEOF :: error where "ErrUnexpectedEOF = Err ''unexpected EOF''"
definition ioEOF :: error where "ioEOF = Err ''EOF''"
definition errNotInList :: error where
  "errNotInList = Err ''rlp: call of ListEnd outside of any list''"
definition errNotAtEOL :: error where
  "errNotAtEOL = Err ''rlp: call of ListEnd not positioned at EOL''"

definition willRead :: "nat \<Rightarrow> Stream \<Rightarrow> Stream result" where
  "willRead n s =
     (let s = s\<lparr>st_kind := None\<rparr> in
      rbind (case st_stack s of
               [] \<Rightarrow> Inr s
             | tos # rest \<Rightarrow>
                 if n > lp_size tos - lp_pos tos then Inl ErrElemTooLarge
                 else Inr (s\<lparr>st_stack := tos\<lparr>lp_pos := lp_pos tos + n\<rparr> # rest\<rparr>)) (\<lambda>s.
      if st_limited s
      then if n > st_remaining s then Inl ErrValueTooLarge
           else Inr (s\<lparr>st_remaining := st_remaining s - n\<rparr>)
      else Inr s))"

definition readByte :: "Stream \<Rightarrow> (byte \<times> Stream) result" where
  "readByte s = rbind (willRead 1 s) (\<lambda>s.
     case st_r s of [] \<Rightarrow> Inl ErrUnexpectedEOF | b # r \<Rightarrow> Inr (b, s\<lparr>st_r := r\<rparr>))"

definition readFull :: "nat \<Rightarrow> Stream \<Rightarrow> (byte list \<times> Stream) result" where
  "readFull n s = rbind (willRead n s) (\<lambda>s.
     if n \<le> length (st_r s) then Inr (take n (st_r s), s\<lparr>st_r := drop n (st_r s)\<rparr>)
     else Inl ErrUnexpectedEOF)"

definition readUint :: "nat \<Rightarrow> Stream \<Rightarrow> (nat \<times> Stream) result" where
  "readUint sz s =
     (if sz = 0 then Inr (0, s\<lparr>st_kind := None\<rparr>)
      else if sz = 1 then rbind (readByte s) (\<lambda>(b, s). Inr (unat b, s))
      else rbind (readFull sz s) (\<lambda>(buffer, s).
             if buffer ! 0 = 0 then Inl ErrCanonSize else Inr (SetBytes buffer, s)))"

definition readKind :: "Stream \<Rightarrow> (Kind \<times> nat \<times> Stream) result" where
  "readKind s =
     (case readByte s of
        Inl err \<Rightarrow>
          Inl (if st_stack s = [] \<and> (err = ErrUnexpectedEOF \<or> err = ErrValueTooLarge) then ioEOF else err)
      | Inr (b, s) \<Rightarrow>
          let s = s\<lparr>st_byteval := 0\<rparr> in
          if b < 0x80 then Inr (KByte, 0, s\<lparr>st_byteval := b\<rparr>)
          else if b < 0xB8 then Inr (KString, unat (b - 0x80), s)
          else if b < 0xC0 then
            rbind (readUint (unat (b - 0xB7)) s) (\<lambda>(sz, s).
              if sz < 56 then Inl ErrCanonSize else Inr (KString, sz, s))
          else if b < 0xF8 then Inr (KList, unat (b - 0xC0), s)
          else
            rbind (readUint (unat (b - 0xF7)) s) (\<lambda>(sz, s).
              if sz < 56 then Inl ErrCanonSize else Inr (KList, sz, s)))"

text \<open>
  \<open>Kind\<close>: an error is kept by the stream and returned again; the decoders below stop at the first
  error, so it is only returned here.
\<close>

definition stream_Kind :: "Stream \<Rightarrow> (Kind \<times> nat \<times> Stream) result" where
  "stream_Kind s =
     (case st_kind s of
        Some k \<Rightarrow> Inr (k, st_size s, s)
      | None \<Rightarrow>
          if st_stack s \<noteq> [] \<and> lp_pos (hd (st_stack s)) = lp_size (hd (st_stack s)) then Inl EOL
          else rbind (readKind s) (\<lambda>(kind, sz, s).
                 let s = s\<lparr>st_kind := Some kind, st_size := sz\<rparr> in
                 if st_stack s = []
                 then if st_limited s \<and> sz > st_remaining s then Inl ErrValueTooLarge
                      else Inr (kind, sz, s)
                 else if sz > lp_size (hd (st_stack s)) - lp_pos (hd (st_stack s))
                      then Inl ErrElemTooLarge else Inr (kind, sz, s)))"

definition stream_Bytes :: "Stream \<Rightarrow> (byte list \<times> Stream) result" where
  "stream_Bytes s = rbind (stream_Kind s) (\<lambda>(kind, sz, s).
     case kind of
       KByte \<Rightarrow> Inr ([st_byteval s], s\<lparr>st_kind := None\<rparr>)
     | KString \<Rightarrow> rbind (readFull sz s) (\<lambda>(b, s).
         if sz = 1 \<and> b ! 0 < 128 then Inl ErrCanonSize else Inr (b, s))
     | KList \<Rightarrow> Inl ErrExpectedString)"

definition stream_List :: "Stream \<Rightarrow> (nat \<times> Stream) result" where
  "stream_List s = rbind (stream_Kind s) (\<lambda>(kind, sz, s).
     if kind \<noteq> KList then Inl ErrExpectedList
     else Inr (sz, s\<lparr>st_stack := \<lparr>lp_pos = 0, lp_size = sz\<rparr> # st_stack s, st_kind := None,
                       st_size := 0\<rparr>))"

definition stream_ListEnd :: "Stream \<Rightarrow> Stream result" where
  "stream_ListEnd s =
     (case st_stack s of
        [] \<Rightarrow> Inl errNotInList
      | tos # rest \<Rightarrow>
          if lp_pos tos \<noteq> lp_size tos then Inl errNotAtEOL
          else Inr (s\<lparr>st_stack := (case rest of
                        [] \<Rightarrow> []
                      | l # ls \<Rightarrow> l\<lparr>lp_pos := lp_pos l + lp_size tos\<rparr> # ls),
                      st_kind := None, st_size := 0\<rparr>))"

text \<open>
  The element loop of \<open>decodeSliceElems\<close> with \<open>decodeByteSlice\<close> as element decoder: elements are
  read until the end of the list. Every element consumes input, so the loop ends.
\<close>

definition stream_measure :: "Stream \<Rightarrow> nat" where
  "stream_measure s = 2 * length (st_r s) + (if st_kind s = None then 0 else 1)"

lemma willRead_Inr:
  "willRead n s = Inr s' \<Longrightarrow> st_r s' = st_r s \<and> st_kind s' = None"
  by (auto simp: willRead_def Let_def rbind_eq_Inr split: list.splits if_splits)

lemma readByte_Inr:
  "readByte s = Inr (b, s') \<Longrightarrow> st_r s = b # st_r s' \<and> st_kind s' = None"
proof -
  assume "readByte s = Inr (b, s')"
  then obtain t where t: "willRead 1 s = Inr t"
    and r: "(case st_r t of [] \<Rightarrow> Inl ErrUnexpectedEOF | b # r \<Rightarrow> Inr (b, t\<lparr>st_r := r\<rparr>)) = Inr (b, s')"
    unfolding readByte_def rbind_eq_Inr by blast
  show ?thesis using r willRead_Inr [OF t] by (cases "st_r s") auto
qed

lemma readFull_Inr:
  "readFull n s = Inr (b, s') \<Longrightarrow> st_r s = b @ st_r s' \<and> length b = n \<and> st_kind s' = None"
  by (auto simp: readFull_def rbind_eq_Inr dest!: willRead_Inr split: if_splits)

lemma readUint_Inr:
  "readUint n s = Inr (k, s') \<Longrightarrow> length (st_r s') \<le> length (st_r s) \<and> st_kind s' = None"
  by (auto simp: readUint_def rbind_eq_Inr dest!: readByte_Inr readFull_Inr split: if_splits)

lemma readKind_Inr:
  "readKind s = Inr (k, n, s') \<Longrightarrow> length (st_r s') < length (st_r s) \<and> st_kind s' = None"
  by (auto simp: readKind_def rbind_eq_Inr Let_def dest!: readByte_Inr readUint_Inr
      split: sum.splits if_splits prod.splits)

lemma stream_Bytes_decreases:
  assumes "stream_Bytes s = Inr (b, s')"
  shows "stream_measure s' < stream_measure s"
proof -
  obtain k n t where t: "stream_Kind s = Inr (k, n, t)"
    using assms by (auto simp: stream_Bytes_def rbind_eq_Inr)
  have "length (st_r s') \<le> length (st_r t)" "st_kind s' = None"
    using assms t by (auto simp: stream_Bytes_def rbind_eq_Inr dest!: readFull_Inr
        split: Kind.splits if_splits)
  moreover have "st_kind s \<noteq> None \<and> t = s \<or> length (st_r t) < length (st_r s)"
    using t by (auto simp: stream_Kind_def rbind_eq_Inr Let_def dest!: readKind_Inr
        split: option.splits if_splits)
  ultimately show ?thesis by (auto simp: stream_measure_def)
qed

function decodeSliceElems :: "Stream \<Rightarrow> (byte list list \<times> Stream) result" where
  "decodeSliceElems s =
     (case stream_Bytes s of
        Inl err \<Rightarrow> if err = EOL then Inr ([], s) else Inl err
      | Inr (b, s') \<Rightarrow> rbind (decodeSliceElems s') (\<lambda>(bs, s''). Inr (b # bs, s'')))"
  by pat_completeness auto
termination
  by (relation "measure stream_measure") (auto dest: stream_Bytes_decreases)

declare decodeSliceElems.simps [simp del]

definition decodeListSlice :: "Stream \<Rightarrow> (byte list list \<times> Stream) result" where
  "decodeListSlice s = rbind (stream_List s) (\<lambda>(sz, s).
     if sz = 0 then rbind (stream_ListEnd s) (\<lambda>s. Inr ([], s))
     else rbind (decodeSliceElems s) (\<lambda>(bs, s). rbind (stream_ListEnd s) (\<lambda>s. Inr (bs, s))))"

definition stream_Reset :: "byte list \<Rightarrow> Stream" where
  "stream_Reset b = \<lparr>st_r = b, st_remaining = length b, st_limited = True, st_kind = None,
     st_size = 0, st_byteval = 0, st_stack = []\<rparr>"

definition DecodeBytes :: "byte list \<Rightarrow> byte list list result" where
  "DecodeBytes b = rbind (decodeListSlice (stream_Reset b)) (\<lambda>(fields, s).
     if length (st_r s) > 0 then Inl ErrMoreThanOneValue else Inr fields)"

end
