(* ===== verification/RlpSizes.thy ===== *)
theory RlpSizes
  imports Rlp
begin

text \<open>
  The big-endian sizes of RLP headers: \<open>putint\<close> writes the unique shortest representation of its
  argument, and \<open>intsize\<close> is its length.
\<close>

section \<open>Big-endian sizes\<close>

lemma Uint64ToBytes_putint:
  "Uint64ToBytes i = replicate (8 - length (putint i)) 0 @ putint i"
proof -
  note z = drop_bit_small [of i]
  have r: "replicate 7 (0 :: byte) = [0, 0, 0, 0, 0, 0, 0]" "replicate 6 (0 :: byte) = [0, 0, 0, 0, 0, 0]"
    "replicate 5 (0 :: byte) = [0, 0, 0, 0, 0]" "replicate 4 (0 :: byte) = [0, 0, 0, 0]"
    "replicate 3 (0 :: byte) = [0, 0, 0]" "replicate 2 (0 :: byte) = [0, 0]"
    by (simp_all add: numeral_eq_Suc)
  show ?thesis
    unfolding putint_def Uint64ToBytes_def word_less_nat_alt
    by (simp add: r z [of 8] z [of 16] z [of 24] z [of 32] z [of 40] z [of 48] z [of 56])
qed

lemma SetBytes_putint [simp]: "SetBytes (putint i) = unat i"
  using SetBytes_Uint64ToBytes [of i] unfolding Uint64ToBytes_putint [of i] by simp

lemma length_putint_bounds:
  "0 < length (putint i)" "length (putint i) \<le> 8"
  "1 < length (putint i) \<Longrightarrow> 256 ^ (length (putint i) - 1) \<le> unat i"
  "unat i < 256 ^ length (putint i)"
proof -
  show "0 < length (putint i)" "length (putint i) \<le> 8"
    unfolding putint_def by simp_all
  show "1 < length (putint i) \<Longrightarrow> 256 ^ (length (putint i) - 1) \<le> unat i"
    unfolding putint_def word_less_nat_alt by (simp split: if_splits)
  show "unat i < 256 ^ length (putint i)"
    using SetBytes_less [of "putint i"] by simp
qed

lemma putint_unique:
  assumes "bs \<noteq> []" "length bs \<le> 8" "1 < length bs \<Longrightarrow> hd bs \<noteq> 0"
  shows "putint (of_nat (SetBytes bs)) = bs" "SetBytes bs < 2 ^ 64"
proof -
  obtain b bs' where bs: "bs = b # bs'" using assms(1) by (cases bs) auto
  have "SetBytes bs < 256 ^ length bs" by (rule SetBytes_less)
  also have "(256 :: nat) ^ length bs \<le> 256 ^ 8" using assms(2) by (intro power_increasing) simp_all
  finally show lt: "SetBytes bs < 2 ^ 64" by simp
  define i :: uint64 where "i = of_nat (SetBytes bs)"
  have i: "unat i = SetBytes bs" using lt by (simp add: i_def unat_of_nat_small)
  define k where "k = length (putint i)"
  note kb = length_putint_bounds [of i, folded k_def]
  have low: "256 ^ (length bs - 1) \<le> SetBytes bs" if "1 < length bs"
  proof -
    have "1 \<le> unat b" using assms(3) that bs by (simp add: unat_gt_0 Suc_le_eq word_neq_0_conv)
    then have "1 * 256 ^ length bs' \<le> unat b * 256 ^ length bs'" by (intro mult_right_mono) simp_all
    then have "256 ^ length bs' \<le> unat b * 256 ^ length bs' + SetBytes bs'" by linarith
    then show ?thesis by (simp add: bs SetBytes_Cons)
  qed
  have "k \<le> length bs"
  proof (rule ccontr)
    assume "\<not> k \<le> length bs"
    then have "length bs \<le> k - 1" "1 < k" using assms(1) by (auto simp: bs)
    then have "(256 :: nat) ^ length bs \<le> 256 ^ (k - 1)" "1 < k" by (simp_all add: power_increasing)
    with kb(3) i SetBytes_less [of bs] show False by linarith
  qed
  moreover have "length bs \<le> k"
  proof (rule ccontr)
    assume "\<not> length bs \<le> k"
    then have "k \<le> length bs - 1" "1 < length bs" using kb(1) by auto
    then have "(256 :: nat) ^ k \<le> 256 ^ (length bs - 1)" "1 < length bs"
      by (simp_all add: power_increasing)
    with low kb(4) i show False by linarith
  qed
  ultimately show "putint (of_nat (SetBytes bs)) = bs"
    using i by (intro SetBytes_inj) (simp_all add: k_def i_def)
qed

lemma hd_putint:
  assumes "1 < length (putint i)"
  shows "putint i ! 0 \<noteq> 0"
proof
  assume z: "putint i ! 0 = 0"
  obtain b bs where b: "putint i = b # bs" using assms by (cases "putint i") auto
  then have "unat i = SetBytes bs" using z SetBytes_putint [of i] by (simp add: SetBytes_Cons)
  with SetBytes_less [of bs] length_putint_bounds(3) [OF assms] show False by (simp add: b)
qed

end
