(* ===== verification/RlpProps.thy ===== *)
theory RlpProps
  imports RlpSizes
begin

text \<open>
  Correctness of the RLP codec: the buffered encoder computes the reference encoding, and the
  stream decoder accepts exactly the canonical encodings of lists of byte strings.
\<close>

section \<open>The encoder computes the reference encoding\<close>

text \<open>The reference: headers written in place, lists encoded recursively.\<close>

definition rlp_string :: "byte list \<Rightarrow> byte list" where
  "rlp_string b =
     (if length b = 1 \<and> b ! 0 \<le> 0x7F then b else puthead 0x80 0xB7 (of_nat (length b)) @ b)"

definition rlp_list :: "byte list \<Rightarrow> byte list" where
  "rlp_list payload = puthead 0xC0 0xF7 (of_nat (length payload)) @ payload"

fun rlp :: "rlpval \<Rightarrow> byte list" where
  "rlp (Bytes b) = rlp_string b"
| "rlp (Slice vs) = rlp_list (concat (map rlp vs))"

text \<open>What one value adds to the buffer: string data, list headers, and their total size.\<close>

fun strs :: "rlpval \<Rightarrow> byte list" where
  "strs (Bytes b) = rlp_string b"
| "strs (Slice vs) = concat (map strs vs)"

fun heads :: "rlpval \<Rightarrow> nat \<Rightarrow> listhead list" and heads_list :: "rlpval list \<Rightarrow> nat \<Rightarrow> listhead list" where
  "heads (Bytes b) k = []"
| "heads (Slice vs) k = \<lparr>lh_offset = k, lh_size = length (concat (map rlp vs))\<rparr> # heads_list vs k"
| "heads_list [] k = []"
| "heads_list (v # vs) k = heads v k @ heads_list vs (k + length (strs v))"

fun lhsz :: "rlpval \<Rightarrow> nat" where
  "lhsz (Bytes b) = 0"
| "lhsz (Slice vs) =
     length (puthead 0xC0 0xF7 (of_nat (length (concat (map rlp vs))))) + sum_list (map lhsz vs)"

lemma bit_len_le: "bit_len n \<le> k \<longleftrightarrow> n < 2 ^ k"
proof (induction n arbitrary: k rule: bit_len.induct)
  case (1 n)
  show ?case
  proof (cases "n = 0")
    case True then show ?thesis by (simp add: bit_len.simps [of 0])
  next
    case False
    then have e: "bit_len n = Suc (bit_len (n div 2))" by (subst bit_len.simps) simp
    show ?thesis
    proof (cases k)
      case 0 then show ?thesis using False e by simp
    next
      case (Suc m)
      have "bit_len n \<le> k \<longleftrightarrow> bit_len (n div 2) \<le> m" using e Suc by simp
      also have "\<dots> \<longleftrightarrow> n div 2 < 2 ^ m" by (rule 1 [OF False])
      also have "\<dots> \<longleftrightarrow> n < 2 ^ k" using Suc by (simp add: div_less_iff_less_mult mult.commute)
      finally show ?thesis .
    qed
  qed 
qed

lemma intsize_putint: "i \<noteq> 0 \<Longrightarrow> intsize i = length (putint i)"
proof -
  assume i: "i \<noteq> 0"
  define k where "k = length (putint i)"
  note b = length_putint_bounds [of i, folded k_def]
  have "bit_len (unat i) \<le> 8 * k" using b(4) by (simp add: bit_len_le power_mult)
  moreover have "\<not> bit_len (unat i) \<le> 8 * (k - 1)"
    unfolding bit_len_le using b(3) i by (cases "1 < k") (auto simp: power_mult unat_gt_0 not_less Suc_le_eq)
  ultimately show ?thesis using b(1) unfolding intsize_def k_def by simp
qed

lemma length_puthead:
  "n < 2 ^ 64 \<Longrightarrow> length (puthead a b (of_nat n)) = (if n < 56 then 1 else 1 + intsize (of_nat n))"
proof -
  assume n: "n < 2 ^ 64"
  have "(of_nat n :: uint64) \<noteq> 0" if "n \<ge> 56"
    using n that by (auto simp: word_unat_eq_iff unat_of_nat_small)
  then show ?thesis
    using n by (auto simp: puthead_def Let_def intsize_putint word_less_nat_alt unat_of_nat_small)
qed

lemma ucast_of_nat_byte: "ucast (of_nat n :: uint64) = (of_nat n :: byte)"
  by (rule bit_word_eqI) (simp add: bit_simps)

lemma encodeStringHeader_puthead:
  "n < 2 ^ 64 \<Longrightarrow>
   encodeStringHeader n w = w\<lparr>eb_str := eb_str w @ puthead 0x80 0xB7 (of_nat n)\<rparr>"
  by (simp add: encodeStringHeader_def puthead_def Let_def word_less_nat_alt unat_of_nat_small
      ucast_of_nat_byte)

lemma rlp_string_length: "length b \<le> length (rlp_string b)"
  by (simp add: rlp_string_def)

lemma encodeString_spec:
  "length (rlp_string b) < 2 ^ 64 \<Longrightarrow> encodeString b w = w\<lparr>eb_str := eb_str w @ rlp_string b\<rparr>"
proof -
  assume l: "length (rlp_string b) < 2 ^ 64"
  have "length b < 2 ^ 64" using rlp_string_length [of b] l by (rule le_less_trans)
  moreover have "[b ! 0] = b" if "length b = 1" using that by (cases b) auto
  ultimately show ?thesis
    by (simp add: encodeString_def rlp_string_def encodeStringHeader_puthead Let_def)
qed

lemma length_rlp: "length (rlp v) = length (strs v) + lhsz v"
proof (induction v)
  case (Slice vs)
  then have "length (concat (map rlp vs)) = length (concat (map strs vs)) + sum_list (map lhsz vs)"
    by (induction vs) simp_all
  then show ?case by (simp add: rlp_list_def)
qed simp

lemma length_rlp_list: "length p \<le> length (rlp_list p)"
  by (simp add: rlp_list_def)

definition append_val :: "byte list \<Rightarrow> listhead list \<Rightarrow> nat \<Rightarrow> encbuf \<Rightarrow> encbuf" where
  "append_val ss hs n w =
     w\<lparr>eb_str := eb_str w @ ss, eb_lheads := eb_lheads w @ hs, eb_lhsize := eb_lhsize w + n\<rparr>"

lemma encode_elems_append:
  assumes "\<And>v w. v \<in> set vs \<Longrightarrow> encode v w = append_val (strs v) (heads v (length (eb_str w))) (lhsz v) w"
  shows "encode_elems vs w =
    append_val (concat (map strs vs)) (heads_list vs (length (eb_str w))) (sum_list (map lhsz vs)) w"
  using assms
  by (induction vs arbitrary: w) (simp_all add: append_val_def add.assoc)

lemma encode_append:
  "length (rlp v) < 2 ^ 64 \<Longrightarrow>
   encode v w = append_val (strs v) (heads v (length (eb_str w))) (lhsz v) w"
proof (induction v arbitrary: w)
  case (Bytes b)
  then show ?case by (simp add: encodeString_spec append_val_def)
next
  case (Slice vs)
  let ?p = "concat (map rlp vs)"
  have p: "length ?p < 2 ^ 64"
    using Slice.prems length_rlp_list [of ?p] by simp
  have small: "length (rlp v) < 2 ^ 64" if "v \<in> set vs" for v
  proof -
    have "length (rlp v) \<le> sum_list (map length (map rlp vs))"
      using that by (intro member_le_sum_list) auto
    also have "\<dots> = length ?p" by (simp add: length_concat)
    finally show ?thesis using p by simp
  qed
  have lp: "length ?p = length (concat (map strs vs)) + sum_list (map lhsz vs)"
    by (induction vs) (simp_all add: length_rlp)
  let ?h = "\<lparr>lh_offset = length (eb_str w), lh_size = eb_lhsize w\<rparr>"
  let ?w1 = "w\<lparr>eb_lheads := eb_lheads w @ [?h]\<rparr>"
  have "encode_elems vs ?w1 =
    append_val (concat (map strs vs)) (heads_list vs (length (eb_str ?w1))) (sum_list (map lhsz vs)) ?w1"
    by (rule encode_elems_append) (rule Slice.IH, assumption, rule small)
  moreover have "length (eb_str w @ concat (map strs vs)) + (eb_lhsize w + sum_list (map lhsz vs)) -
      length (eb_str w) - eb_lhsize w = length ?p"
    using lp by simp
  ultimately show ?case
    using length_puthead [OF p, of "0xC0" "0xF7"]
    by (simp add: eb_list_def listEnd_def append_val_def eb_size_def nth_append Let_def
        list_update_append del: length_concat length_append)
qed

lemma heads_offset: "h \<in> set (heads v k) \<Longrightarrow> k \<le> lh_offset h"
  and heads_list_offset: "h \<in> set (heads_list vs k) \<Longrightarrow> k \<le> lh_offset h"
proof (induction v k and vs k arbitrary: h and h rule: heads_heads_list.induct)
  case (4 v vs k)
  then show ?case by (auto dest: add_leD1)
qed auto

text \<open>The merge of headers and string data as one list, and headers in order within the string data.\<close>

fun merged :: "byte list \<Rightarrow> nat \<Rightarrow> listhead list \<Rightarrow> byte list" where
  "merged str strpos [] = drop strpos str"
| "merged str strpos (head # rest) =
     take (lh_offset head - strpos) (drop strpos str) @ listhead_encode head @
     merged str (strpos + (lh_offset head - strpos)) rest"

lemma merged_skip:
  assumes "\<And>h. h \<in> set hs \<Longrightarrow> length pre + length xs \<le> lh_offset h"
  shows "merged (pre @ xs @ post) (length pre) hs =
         xs @ merged (pre @ xs @ post) (length pre + length xs) hs"
proof (cases hs)
  case (Cons h hs')
  then have "length pre + length xs \<le> lh_offset h" using assms by simp
  then show ?thesis by (simp add: Cons)
qed simp

text \<open>Merging the headers into the string data of one value yields its encoding.\<close>

lemma merged_heads:
  "(\<And>h. h \<in> set hs \<Longrightarrow> length pre + length (strs v) \<le> lh_offset h) \<Longrightarrow>
   merged (pre @ strs v @ post) (length pre) (heads v (length pre) @ hs) =
   rlp v @ merged (pre @ strs v @ post) (length pre + length (strs v)) hs"
proof (induction v arbitrary: pre post hs)
  case (Bytes b)
  then show ?case using merged_skip [of hs pre "rlp_string b" post] by simp
next
  case (Slice vs)
  have elems: "merged (pre @ concat (map strs vs) @ post) (length pre)
      (heads_list vs (length pre) @ hs) =
      concat (map rlp vs) @
      merged (pre @ concat (map strs vs) @ post) (length pre + length (concat (map strs vs))) hs"
    if "\<And>h. h \<in> set hs \<Longrightarrow> length pre + length (concat (map strs vs)) \<le> lh_offset h" for pre
    using that Slice.IH
  proof (induction vs arbitrary: pre)
    case (Cons v vs)
    let ?rest = "heads_list vs (length pre + length (strs v)) @ hs"
    have "merged (pre @ strs v @ concat (map strs vs) @ post) (length pre)
        (heads v (length pre) @ ?rest) =
        rlp v @ merged (pre @ strs v @ concat (map strs vs) @ post)
          (length pre + length (strs v)) ?rest"
    proof (rule Cons.prems(2))
      fix h assume "h \<in> set ?rest"
      then consider "h \<in> set (heads_list vs (length pre + length (strs v)))" | "h \<in> set hs" by auto
      then show "length pre + length (strs v) \<le> lh_offset h"
      proof cases
        case 2
        then show ?thesis using Cons.prems(1) [of h] by simp
      qed (rule heads_list_offset)
    qed simp
    also have "merged (pre @ strs v @ concat (map strs vs) @ post)
          (length pre + length (strs v)) ?rest =
        concat (map rlp vs) @ merged ((pre @ strs v) @ concat (map strs vs) @ post)
          (length (pre @ strs v) + length (concat (map strs vs))) hs"
      using Cons.IH [of "pre @ strs v"] Cons.prems by (simp add: add.assoc)
    finally show ?case by (simp add: add.assoc)
  qed simp
  have "listhead_encode \<lparr>lh_offset = length pre, lh_size = length (concat (map rlp vs))\<rparr> @
      concat (map rlp vs) = rlp (Slice vs)"
    by (simp add: listhead_encode_def rlp_list_def)
  then show ?case using elems [of pre] Slice.prems by simp
qed

lemma heads_end: "h \<in> set (heads v k) \<Longrightarrow> lh_offset h \<le> k + length (strs v)"
  and heads_list_end: "h \<in> set (heads_list vs k) \<Longrightarrow> lh_offset h \<le> k + length (concat (map strs vs))"
proof (induction v k and vs k arbitrary: h and h rule: heads_heads_list.induct)
  case (4 v vs k)
  then show ?case by fastforce
qed auto

lemma sorted_heads: "sorted (map lh_offset (heads v k))"
  and sorted_heads_list: "sorted (map lh_offset (heads_list vs k))"
proof (induction v k and vs k rule: heads_heads_list.induct)
  case (2 vs k)
  then show ?case by (auto dest: heads_list_offset)
next
  case (4 v vs k)
  then show ?case by (fastforce simp: sorted_append dest: heads_end heads_list_offset)
qed auto

text \<open>When the buffer has room for exactly the merged bytes, nothing is cut off and no index is out of range.\<close>

lemma copy_at_fits:
  "pos + length src \<le> length out \<Longrightarrow> copy_at out pos src = (write_at out pos src, length src)"
  by (simp add: copy_at_def min_absorb2)

lemma write_at_simps [simp]:
  "pos + length bs \<le> length out \<Longrightarrow> length (write_at out pos bs) = length out"
  "pos \<le> length out \<Longrightarrow> take (pos + length bs) (write_at out pos bs) = take pos out @ bs"
  by (simp_all add: write_at_def min_absorb2)

lemma toBytes_loop_merged:
  assumes "sorted (map lh_offset hs)" "\<forall>h\<in>set hs. strpos \<le> lh_offset h \<and> lh_offset h \<le> length str" "strpos \<le> length str"
    and "pos + length (merged str strpos hs) = length out"
  shows "toBytes_loop str hs strpos pos out = Inr (take pos out @ merged str strpos hs)"
  using assms
proof (induction hs arbitrary: strpos pos out)
  case Nil
  then show ?case by (simp add: copy_at_fits write_at_def)
next
  case (Cons h hs)
  define src where "src = take (lh_offset h - strpos) (drop strpos str)"
  define enc where "enc = listhead_encode h"
  have o: "strpos \<le> lh_offset h" "lh_offset h \<le> length str" using Cons.prems(2) by simp_all
  have src: "length src = lh_offset h - strpos" using o by (simp add: src_def)
  have m: "merged str strpos (h # hs) = src @ enc @ merged str (lh_offset h) hs"
    using o(1) by (simp add: src_def enc_def)
  have len: "pos + length src + length enc + length (merged str (lh_offset h) hs) = length out"
    using Cons.prems(4) unfolding m by simp
  let ?out = "write_at (write_at out pos src) (pos + length src) enc"
  have fits: "pos + length src \<le> length out" "\<not> length out - (pos + length src) < length enc"
    "strpos + length src = lh_offset h" "\<not> (lh_offset h < strpos \<or> length str < lh_offset h)"
    using o src len by linarith+
  have "toBytes_loop str (h # hs) strpos pos out =
      toBytes_loop str hs (lh_offset h) (pos + length src + length enc) ?out"
    unfolding toBytes_loop.simps Let_def src_def [symmetric] enc_def [symmetric] copy_at_fits [OF fits(1)] prod.case
      write_at_simps(1) [OF fits(1)] fits(3) if_not_P [OF fits(2)] if_not_P [OF fits(4)] ..
  also have "\<dots> = Inr (take (pos + length src + length enc) ?out @ merged str (lh_offset h) hs)"
    using Cons.prems(1,2) o(2) len by (intro Cons.IH) simp_all
  also have "take (pos + length src + length enc) ?out = take pos out @ src @ enc" using len by simp
  finally show ?case unfolding m by simp
qed

lemma EncodeToBytes_rlp:
  assumes "length (rlp v) < 2 ^ 64"
  shows "EncodeToBytes v = Inr (rlp v)"
proof -
  have m: "merged (strs v) 0 (heads v 0) = rlp v"
    using merged_heads [of "[]" "[]" v "[]"] by simp
  have "toBytes_loop (strs v) (heads v 0) 0 0 (replicate (length (strs v) + lhsz v) 0) =
      Inr (take 0 (replicate (length (strs v) + lhsz v) 0) @ merged (strs v) 0 (heads v 0))"
    using heads_end [of _ v 0] sorted_heads [of v 0] by (intro toBytes_loop_merged) (simp_all add: m length_rlp)
  then show ?thesis
    using encode_append [OF assms, of eb_reset]
    by (simp add: EncodeToBytes_def toBytes_def append_val_def eb_reset_def eb_size_def m)
qed

text \<open>
  C23. The buffered RLP encoder computes the reference encoding: writing the string data and the list
  headers of a value into separate buffers and merging them at the end in a buffer of the computed
  size gives the bytes that the recursive definition of RLP prescribes, for every value whose encoding
  is shorter than \<open>2^64\<close>: the size is exact, nothing is cut off and no index is out of range.
\<close>

theorem EncodeToBytes_correct:
  assumes "length (rlp v) < 2 ^ 64"
  shows "EncodeToBytes v = Inr (rlp v)"
  using assms by (rule EncodeToBytes_rlp)

theorem EncodeToBytes_correct_witness:
  "EncodeToBytes (Slice [Bytes [0x05], Slice [Bytes [], Bytes [0x80, 0x01]]]) =
   Inr (rlp (Slice [Bytes [0x05], Slice [Bytes [], Bytes [0x80, 0x01]]]))"
  by (rule EncodeToBytes_correct) (simp add: rlp_list_def rlp_string_def puthead_def)

end
