(* ===== verification/RlpDecode.thy ===== *)
theory RlpDecode
  imports RlpProps
begin

text \<open>
  The stream decoder of \<open>rlp/decode.go\<close> on lists of byte strings: it returns the fields of every
  canonical encoding and accepts nothing else.
\<close>

section \<open>States of a limited stream\<close>

definition stt :: "byte list \<Rightarrow> Kind option \<Rightarrow> nat \<Rightarrow> byte \<Rightarrow> listpos list \<Rightarrow> Stream" where
  "stt r k sz bv stk = \<lparr>st_r = r, st_remaining = length r, st_limited = True, st_kind = k, st_size = sz,
     st_byteval = bv, st_stack = stk\<rparr>"

definition room :: "listpos list \<Rightarrow> nat \<Rightarrow> bool" where
  "room stk n = (case stk of [] \<Rightarrow> True | tos # _ \<Rightarrow> lp_pos tos + n \<le> lp_size tos)"

definition adv :: "listpos list \<Rightarrow> nat \<Rightarrow> listpos list" where
  "adv stk n = (case stk of [] \<Rightarrow> [] | tos # rest \<Rightarrow> tos\<lparr>lp_pos := lp_pos tos + n\<rparr> # rest)"

lemma room_adv: "room (adv stk m) n \<longleftrightarrow> room stk (m + n)"
  by (cases stk) (simp_all add: room_def adv_def add.assoc)

lemma adv_adv: "adv (adv stk m) n = adv stk (m + n)"
  by (cases stk) (simp_all add: adv_def add.assoc)

lemma room_less: "room stk n \<Longrightarrow> m \<le> n \<Longrightarrow> room stk m"
  by (cases stk) (simp_all add: room_def)

lemma stt_sel [simp]:
  "st_r (stt r k sz bv stk) = r" "st_kind (stt r k sz bv stk) = k" "st_stack (stt r k sz bv stk) = stk"
  "st_size (stt r k sz bv stk) = sz" "st_byteval (stt r k sz bv stk) = bv"
  "st_limited (stt r k sz bv stk)" "st_remaining (stt r k sz bv stk) = length r"
  by (simp_all add: stt_def)

lemma stt_upd [simp]:
  "(stt r k sz bv stk)\<lparr>st_kind := k'\<rparr> = stt r k' sz bv stk"
  "(stt r k sz bv stk)\<lparr>st_byteval := bv'\<rparr> = stt r k sz bv' stk"
  "(stt r k sz bv stk)\<lparr>st_kind := k', st_size := sz'\<rparr> = stt r k' sz' bv stk"
  "(stt r k sz bv stk)\<lparr>st_stack := stk', st_kind := k', st_size := sz'\<rparr> = stt r k' sz' bv stk'"
  by (simp_all add: stt_def)

definition pos_ok :: "listpos list \<Rightarrow> bool" where
  "pos_ok stk = (case stk of [] \<Rightarrow> True | tos # _ \<Rightarrow> lp_pos tos \<le> lp_size tos)"

lemma pos_ok_adv: "room stk n \<Longrightarrow> pos_ok (adv stk n)"
  by (cases stk) (simp_all add: room_def adv_def pos_ok_def)

lemma readByte_iff:
  assumes "pos_ok stk"
  shows "readByte (stt r k sz bv stk) = Inr (b, s') \<longleftrightarrow>
   (\<exists>r'. r = b # r' \<and> room stk 1 \<and> s' = stt r' None sz bv (adv stk 1))"
  using assms
  by (cases r; cases stk)
    (auto simp: readByte_def willRead_def Let_def room_def adv_def stt_def pos_ok_def)

lemma readFull_iff:
  assumes "pos_ok stk"
  shows "readFull n (stt r k sz bv stk) = Inr (bs, s') \<longleftrightarrow>
   (\<exists>r'. r = bs @ r' \<and> length bs = n \<and> room stk n \<and> s' = stt r' None sz bv (adv stk n))"
proof -
  have "readFull n (stt r k sz bv stk) =
    (if \<not> room stk n then Inl ErrElemTooLarge
     else if length r < n then Inl ErrValueTooLarge
     else Inr (take n r, stt (drop n r) None sz bv (adv stk n)))"
    using assms
    by (cases stk) (auto simp: readFull_def willRead_def Let_def room_def adv_def stt_def pos_ok_def)
  then show ?thesis by (auto simp: append_eq_conv_conj intro!: exI [of _ "drop n r"])
qed

lemma readUint_iff:
  assumes "0 < n" "n \<le> 8" "pos_ok stk"
  shows "readUint n (stt r k sz bv stk) = Inr (v, s') \<longleftrightarrow>
   (\<exists>bs r'. r = bs @ r' \<and> length bs = n \<and> room stk n \<and> (1 < n \<longrightarrow> bs ! 0 \<noteq> 0) \<and> v = SetBytes bs \<and>
      s' = stt r' None sz bv (adv stk n))"
proof (cases "n = 1")
  case True
  have "readUint n (stt r k sz bv stk) = Inr (v, s') \<longleftrightarrow>
    (\<exists>b. readByte (stt r k sz bv stk) = Inr (b, s') \<and> v = unat b)"
    using True by (auto simp: readUint_def rbind_eq_Inr)
  also have "\<dots> \<longleftrightarrow> (\<exists>b r'. r = [b] @ r' \<and> room stk n \<and> v = SetBytes [b] \<and>
      s' = stt r' None sz bv (adv stk n))"
    unfolding readByte_iff [OF assms(3)] True by (auto simp: SetBytes_Cons)
  also have "\<dots> \<longleftrightarrow> (\<exists>bs r'. r = bs @ r' \<and> length bs = n \<and> room stk n \<and> (1 < n \<longrightarrow> bs ! 0 \<noteq> 0) \<and>
      v = SetBytes bs \<and> s' = stt r' None sz bv (adv stk n))"
  proof -
    have "(\<exists>bs. length bs = 1 \<and> P bs) \<longleftrightarrow> (\<exists>b. P [b])" for P :: "byte list \<Rightarrow> bool"
      by (auto simp: length_Suc_conv)
    from this [of "\<lambda>bs. \<exists>r'. r = bs @ r' \<and> room stk n \<and> v = SetBytes bs \<and>
        s' = stt r' None sz bv (adv stk n)"]
    show ?thesis unfolding True by (simp only: less_irrefl simp_thms) blast
  qed
  finally show ?thesis .
next
  case False
  then have "readUint n (stt r k sz bv stk) = Inr (v, s') \<longleftrightarrow>
    (\<exists>bs. readFull n (stt r k sz bv stk) = Inr (bs, s') \<and> bs ! 0 \<noteq> 0 \<and> v = SetBytes bs)"
    using assms(1) by (auto simp: readUint_def rbind_eq_Inr)
  also have "\<dots> \<longleftrightarrow> (\<exists>bs r'. r = bs @ r' \<and> length bs = n \<and> room stk n \<and> (1 < n \<longrightarrow> bs ! 0 \<noteq> 0) \<and>
      v = SetBytes bs \<and> s' = stt r' None sz bv (adv stk n))"
    unfolding readFull_iff [OF assms(3)] using False assms(1) by auto
  finally show ?thesis .
qed

section \<open>Headers\<close>

text \<open>A tag byte and the size bytes after it are exactly what \<open>puthead\<close> writes.\<close>

lemma puthead_small: "m < 56 \<Longrightarrow> puthead a b (of_nat m) = [a + of_nat m]"
  by (simp add: puthead_def word_less_nat_alt unat_of_nat_small ucast_of_nat_byte)

lemma puthead_large:
  assumes "56 \<le> m" "m < 2 ^ 64"
  shows "puthead a b (of_nat m) = (b + of_nat (length (putint (of_nat m)))) # putint (of_nat m)"
  using assms by (simp add: puthead_def word_less_nat_alt unat_of_nat_small Let_def)

lemma byte_split: "c \<le> b \<Longrightarrow> unat (b - c) = unat b - unat (c :: byte) \<and> c + of_nat (unat (b - c)) = b"
  by (rule conjI, erule unat_sub, simp)

lemma long_head:
  assumes "0 < n" "n \<le> 8" "pos_ok stk" "t = a + of_nat n"
    and "readUint n (stt r k sz bv (adv stk 1)) = Inr (m, s')" "\<not> m < 56" "room stk 1"
  shows "\<exists>r'. t # r = puthead x a (of_nat m) @ r' \<and> m < 2 ^ 64 \<and>
     room stk (length (puthead x a (of_nat m))) \<and>
     s' = stt r' None sz bv (adv stk (length (puthead x a (of_nat m))))"
proof -
  obtain bs r' where bs: "r = bs @ r'" "length bs = n" "room (adv stk 1) n" "1 < n \<longrightarrow> bs ! 0 \<noteq> 0"
    "m = SetBytes bs" "s' = stt r' None sz bv (adv (adv stk 1) n)"
    using readUint_iff [OF assms(1,2) pos_ok_adv [OF assms(7)], of r k sz bv m s'] assms(5) by blast
  have "bs \<noteq> []" using bs assms by auto
  then have u: "putint (of_nat m) = bs" "m < 2 ^ 64"
    using putint_unique [of bs] bs assms by (auto simp: hd_conv_nth)
  have "puthead x a (of_nat m) = t # bs"
    using puthead_large [of m x a] u assms bs by simp
  then show ?thesis using bs u by (auto simp: room_adv adv_adv)
qed

lemma readKind_parse:
  assumes "readKind (stt r k sz bv stk) = Inr (kind, m, s')" "pos_ok stk"
  shows "(kind = KByte \<and> m = 0 \<and>
            (\<exists>b r'. r = b # r' \<and> b < 0x80 \<and> room stk 1 \<and> s' = stt r' None sz b (adv stk 1))) \<or>
         (kind \<noteq> KByte \<and> (\<exists>h r'. h = (if kind = KString then puthead 0x80 0xB7 (of_nat m) else puthead 0xC0 0xF7 (of_nat m)) \<and>
            r = h @ r' \<and> m < 2 ^ 64 \<and> room stk (length h) \<and> s' = stt r' None sz 0 (adv stk (length h))))"
proof -
  obtain b r1 where b: "r = b # r1" "room stk 1"
    and rb: "readByte (stt r k sz bv stk) = Inr (b, stt r1 None sz bv (adv stk 1))"
    using assms readByte_iff [OF assms(2)]
    by (auto simp: readKind_def split: sum.splits prod.splits)
  note def = assms(1) [unfolded readKind_def rb, simplified Let_def]
  consider "b < 0x80" | "\<not> b < 0x80" "b < 0xB8" | "\<not> b < 0x80" "\<not> b < 0xB8" "b < 0xC0"
    | "\<not> b < 0x80" "\<not> b < 0xB8" "\<not> b < 0xC0" "b < 0xF8"
    | "\<not> b < 0x80" "\<not> b < 0xB8" "\<not> b < 0xC0" "\<not> b < 0xF8"
    by blast
  then show ?thesis
  proof cases
    case 1
    then show ?thesis using def b by auto
  next
    case 2
    have m: "m = unat (b - 0x80)" "kind = KString" "s' = stt r1 None sz 0 (adv stk 1)"
      using def by (simp_all add: 2)
    have "unat b - 128 < 56" using 2 by (simp add: word_less_nat_alt)
    then have "m < 56" using 2 byte_split [of "0x80" b] by (simp add: m not_less)
    moreover have "0x80 + of_nat m = b" by (simp add: m)
    ultimately have "puthead 0x80 0xB7 (of_nat m) = [b]" "m < 2 ^ 64" by (simp_all add: puthead_small)
    then show ?thesis using b m(2,3) by simp
  next
    case 4
    have m: "m = unat (b - 0xC0)" "kind = KList" "s' = stt r1 None sz 0 (adv stk 1)"
      using def by (simp_all add: 4)
    have "unat b - 192 < 56" using 4 by (simp add: word_less_nat_alt)
    then have "m < 56" using 4 byte_split [of "0xC0" b] by (simp add: m not_less)
    moreover have "0xC0 + of_nat m = b" by (simp add: m)
    ultimately have "puthead 0xC0 0xF7 (of_nat m) = [b]" "m < 2 ^ 64" by (simp_all add: puthead_small)
    then show ?thesis using b m(2,3) by simp
  next
    case 3
    let ?n = "unat (b - 0xB7)"
    have le: "0xB7 \<le> b" using 3 by (simp add: word_less_nat_alt word_le_nat_alt)
    have n: "0 < ?n" "?n \<le> 8"
      using 3 byte_split [OF le] by (simp_all add: word_less_nat_alt)
    have n3: "b = 0xB7 + of_nat ?n" by simp
    have "kind = KString \<and> readUint ?n (stt r1 None sz 0 (adv stk 1)) = Inr (m, s') \<and> \<not> m < 56"
      using def by (auto simp: 3 rbind_eq_Inr split: if_splits)
    then show ?thesis
      using long_head [OF n(1,2) assms(2) n3, of r1 None sz 0 m s' "0x80"] b by simp
  next
    case 5
    let ?n = "unat (b - 0xF7)"
    have le: "0xF7 \<le> b" using 5 by (simp add: word_less_nat_alt word_le_nat_alt)
    have n: "0 < ?n" "?n \<le> 8"
      using 5 byte_split [OF le] byte_less [of b] by (simp_all add: word_less_nat_alt)
    have n3: "b = 0xF7 + of_nat ?n" by simp
    have "kind = KList \<and> readUint ?n (stt r1 None sz 0 (adv stk 1)) = Inr (m, s') \<and> \<not> m < 56"
      using def by (auto simp: 5 rbind_eq_Inr split: if_splits)
    then show ?thesis
      using long_head [OF n(1,2) assms(2) n3, of r1 None sz 0 m s' "0xC0"] b by simp
  qed
qed

lemma readKind_byte:
  "b < 0x80 \<Longrightarrow> room stk 1 \<Longrightarrow> pos_ok stk \<Longrightarrow>
   readKind (stt (b # r) k sz bv stk) = Inr (KByte, 0, stt r None sz b (adv stk 1))"
  using readByte_iff [of stk "b # r" k sz bv b "stt r None sz bv (adv stk 1)"]
  by (simp add: readKind_def Let_def)

lemma tag_small:
  assumes "m < 56"
  shows "\<not> 0x80 + of_nat m < (0x80 :: byte)" "0x80 + of_nat m < (0xB8 :: byte)"
    "\<not> 0xC0 + of_nat m < (0xC0 :: byte)" "0xC0 + of_nat m < (0xF8 :: byte)"
    "unat (of_nat m :: byte) = m"
proof -
  have u: "unat ((0x80 :: byte) + of_nat m) = 128 + m" "unat ((0xC0 :: byte) + of_nat m) = 192 + m"
    using assms by (simp_all add: unat_word_ariths unsigned_of_nat take_bit_nat_eq_self)
  then show "\<not> 0x80 + of_nat m < (0x80 :: byte)" "0x80 + of_nat m < (0xB8 :: byte)"
    "\<not> 0xC0 + of_nat m < (0xC0 :: byte)" "0xC0 + of_nat m < (0xF8 :: byte)"
    using assms by (simp_all add: word_less_nat_alt)
  show "unat (of_nat m :: byte) = m"
    using assms by (simp add: unsigned_of_nat take_bit_nat_eq_self)
qed

lemma tag_large:
  assumes "0 < n" "n \<le> 8"
  shows "\<not> 0xB7 + of_nat n < (0xB8 :: byte)" "0xB7 + of_nat n < (0xC0 :: byte)"
    "\<not> 0xF7 + of_nat n < (0xF8 :: byte)"
    "unat (of_nat n :: byte) = n"
proof -
  have u: "unat ((0xB7 :: byte) + of_nat n) = 183 + n" "unat ((0xF7 :: byte) + of_nat n) = 247 + n"
    using assms by (simp_all add: unat_word_ariths unsigned_of_nat take_bit_nat_eq_self)
  then show "\<not> 0xB7 + of_nat n < (0xB8 :: byte)" "0xB7 + of_nat n < (0xC0 :: byte)"
    "\<not> 0xF7 + of_nat n < (0xF8 :: byte)"
    using assms by (simp_all add: word_less_nat_alt)
  show "unat (of_nat n :: byte) = n"
    using assms by (simp add: unsigned_of_nat take_bit_nat_eq_self)
qed

lemma tag_order:
  "\<not> (b :: byte) < 0xB8 \<Longrightarrow> \<not> b < 0x80" "\<not> (b :: byte) < 0xC0 \<Longrightarrow> \<not> b < 0xB8"
  "\<not> (b :: byte) < 0xF8 \<Longrightarrow> \<not> b < 0xC0"
  by (simp_all add: word_less_nat_alt)

lemma readUint_putint:
  assumes "56 \<le> m" "m < 2 ^ 64" "room stk (length (putint (of_nat m)))" "pos_ok stk"
  shows "readUint (length (putint (of_nat m))) (stt (putint (of_nat m) @ r) k sz bv stk) =
    Inr (m, stt r None sz bv (adv stk (length (putint (of_nat m)))))"
proof -
  have "m = SetBytes (putint (of_nat m))" using assms by (simp add: unat_of_nat_small)
  then show ?thesis
    using readUint_iff [OF length_putint_bounds(1,2) assms(4)] assms(3) hd_putint by blast
qed

lemma readKind_string:
  assumes "m < 2 ^ 64" "pos_ok stk" "room stk (length (puthead 0x80 0xB7 (of_nat m)))"
  shows "readKind (stt (puthead 0x80 0xB7 (of_nat m) @ r) k sz bv stk) =
    Inr (KString, m, stt r None sz 0 (adv stk (length (puthead 0x80 0xB7 (of_nat m)))))"
proof (cases "m < 56")
  case True
  then have "readByte (stt ((0x80 + of_nat m) # r) k sz bv stk) =
      Inr (0x80 + of_nat m, stt r None sz bv (adv stk 1))"
    using assms readByte_iff [OF assms(2)] by (simp add: puthead_small)
  then show ?thesis by (simp add: readKind_def puthead_small True tag_small Let_def)
next
  case False
  let ?b = "putint (of_nat m)"
  have h: "puthead 0x80 0xB7 (of_nat m) = (0xB7 + of_nat (length ?b)) # ?b"
    using False assms by (intro puthead_large) simp_all
  have r1: "room stk 1" using assms(3) by (rule room_less) (simp add: h)
  have rm: "room (adv stk 1) (length ?b)" using assms(3) by (simp add: h room_adv)
  have rb: "readByte (stt ((0xB7 + of_nat (length ?b)) # ?b @ r) k sz bv stk) =
      Inr (0xB7 + of_nat (length ?b), stt (?b @ r) None sz bv (adv stk 1))"
    using r1 readByte_iff [OF assms(2)] by simp
  note t = tag_large [OF length_putint_bounds(1,2) [of "of_nat m"]]
  have u: "readUint (length ?b) (stt (?b @ r) None sz 0 (adv stk 1)) =
    Inr (m, stt r None sz 0 (adv (adv stk 1) (length ?b)))"
    using False assms by (intro readUint_putint rm pos_ok_adv r1) simp_all
  show ?thesis
    using False by (simp add: readKind_def h rb Let_def t tag_order(1) [OF t(1)] u [unfolded One_nat_def] adv_adv)
qed

lemma readKind_list:
  assumes "m < 2 ^ 64" "pos_ok stk" "room stk (length (puthead 0xC0 0xF7 (of_nat m)))"
  shows "readKind (stt (puthead 0xC0 0xF7 (of_nat m) @ r) k sz bv stk) =
    Inr (KList, m, stt r None sz 0 (adv stk (length (puthead 0xC0 0xF7 (of_nat m)))))"
proof (cases "m < 56")
  case True
  then have rb: "readByte (stt ((0xC0 + of_nat m) # r) k sz bv stk) =
      Inr (0xC0 + of_nat m, stt r None sz bv (adv stk 1))"
    using assms readByte_iff [OF assms(2)] by (simp add: puthead_small)
  note t = tag_small [OF True]
  show ?thesis
    by (simp add: readKind_def puthead_small True rb t tag_order(2) [OF t(3)]
        tag_order(1) [OF tag_order(2) [OF t(3)]] Let_def)
next
  case False
  let ?b = "putint (of_nat m)"
  have h: "puthead 0xC0 0xF7 (of_nat m) = (0xF7 + of_nat (length ?b)) # ?b"
    using False assms by (intro puthead_large) simp_all
  have r1: "room stk 1" using assms(3) by (rule room_less) (simp add: h)
  have rm: "room (adv stk 1) (length ?b)" using assms(3) by (simp add: h room_adv)
  have rb: "readByte (stt ((0xF7 + of_nat (length ?b)) # ?b @ r) k sz bv stk) =
      Inr (0xF7 + of_nat (length ?b), stt (?b @ r) None sz bv (adv stk 1))"
    using r1 readByte_iff [OF assms(2)] by simp
  note t = tag_large [OF length_putint_bounds(1,2) [of "of_nat m"]]
  note o = tag_order(3) [OF t(3)]
  have u: "readUint (length ?b) (stt (?b @ r) None sz 0 (adv stk 1)) =
    Inr (m, stt r None sz 0 (adv (adv stk 1) (length ?b)))"
    using False assms by (intro readUint_putint rm pos_ok_adv r1) simp_all
  show ?thesis
    using False by (simp add: readKind_def h rb Let_def t o tag_order(2) [OF o]
        tag_order(1) [OF tag_order(2) [OF o]] u [unfolded One_nat_def] adv_adv)
qed

section \<open>Strings\<close>

lemma rlp_string_byte: "b < 0x80 \<Longrightarrow> rlp_string [b] = [b]"
  by (simp add: rlp_string_def word_le_nat_alt word_less_nat_alt)

lemma rlp_string_head:
  "\<not> (length b = 1 \<and> b ! 0 < 0x80) \<Longrightarrow> rlp_string b = puthead 0x80 0xB7 (of_nat (length b)) @ b"
  by (auto simp: rlp_string_def word_le_nat_alt word_less_nat_alt)

lemma room_pos: "stk \<noteq> [] \<Longrightarrow> room stk n \<Longrightarrow> 0 < n \<Longrightarrow> lp_pos (hd stk) \<noteq> lp_size (hd stk)"
  by (cases stk) (simp_all add: room_def)

lemma room_hd: "stk \<noteq> [] \<Longrightarrow> pos_ok stk \<Longrightarrow> room stk n \<longleftrightarrow> n \<le> lp_size (hd stk) - lp_pos (hd stk)"
  by (cases stk) (auto simp: room_def pos_ok_def)

lemma adv_Nil [simp]: "adv stk n = [] \<longleftrightarrow> stk = []"
  by (cases stk) (simp_all add: adv_def)

lemma stream_Kind_stt:
  assumes "stk \<noteq> []" "lp_pos (hd stk) \<noteq> lp_size (hd stk)"
    and "readKind (stt r None sz bv stk) = Inr (kind, m, stt r' None sz' bv' (adv stk n))" "room stk n"
  shows "stream_Kind (stt r None sz bv stk) =
    (if room (adv stk n) m then Inr (kind, m, stt r' (Some kind) m bv' (adv stk n)) else Inl ErrElemTooLarge)"
  using assms room_hd [OF _ pos_ok_adv [OF assms(4)], of m]
  by (simp add: stream_Kind_def Let_def not_le)

lemma stream_Bytes_rlp_string:
  assumes "stk \<noteq> []" "pos_ok stk" "length b < 2 ^ 64" "room stk (length (rlp_string b))"
  shows "\<exists>sz' bv'. stream_Bytes (stt (rlp_string b @ r) None sz bv stk) =
    Inr (b, stt r None sz' bv' (adv stk (length (rlp_string b))))"
proof (cases "length b = 1 \<and> b ! 0 < 0x80")
  case True
  then obtain x where x: "b = [x]" "x < 0x80" by (auto simp: length_Suc_conv)
  have r1: "room stk 1" using assms(4) x by (simp add: rlp_string_byte)
  have "room (adv stk 1) 0" using r1 by (simp add: room_adv)
  then show ?thesis
    using stream_Kind_stt [OF assms(1) room_pos [OF assms(1) r1 zero_less_one] readKind_byte [OF x(2) r1 assms(2)] r1] x
    by (auto simp: stream_Bytes_def rlp_string_byte)
next
  case False
  let ?h = "puthead 0x80 0xB7 (of_nat (length b))"
  note s = rlp_string_head [OF False]
  have rh: "room stk (length ?h)" by (rule room_less [OF assms(4)]) (simp add: s)
  have rb: "room (adv stk (length ?h)) (length b)" using assms(4) by (simp add: s room_adv)
  have "0 < length ?h" by (simp add: puthead_def Let_def)
  note k = stream_Kind_stt [OF assms(1) room_pos [OF assms(1) rh this]
      readKind_string [OF assms(3,2) rh, of "b @ r" None sz bv] rh]
  have "readFull (length b) (stt (b @ r) (Some KString) (length b) 0 (adv stk (length ?h))) =
    Inr (b, stt r None (length b) 0 (adv stk (length (rlp_string b))))"
    using readFull_iff [OF pos_ok_adv [OF rh]] rb by (simp add: s adv_adv)
  then show ?thesis using k rb False by (auto simp: stream_Bytes_def s)
qed

lemma stream_Bytes_parse:
  assumes "stk \<noteq> []" "pos_ok stk" "stream_Bytes (stt r None sz bv stk) = Inr (b, s')"
  shows "\<exists>r' sz' bv'. r = rlp_string b @ r' \<and> length b < 2 ^ 64 \<and> room stk (length (rlp_string b)) \<and>
    s' = stt r' None sz' bv' (adv stk (length (rlp_string b)))"
proof -
  obtain kind m t where t: "readKind (stt r None sz bv stk) = Inr (kind, m, t)"
    and ne: "lp_pos (hd stk) \<noteq> lp_size (hd stk)"
    using assms by (auto simp: stream_Bytes_def stream_Kind_def rbind_eq_Inr split: if_splits)
  from readKind_parse [OF t assms(2)] show ?thesis
  proof (elim disjE conjE exE)
    fix x r' assume h: "kind = KByte" "m = 0" "r = x # r'" "x < 0x80" "room stk 1"
      "t = stt r' None sz x (adv stk 1)"
    have "room (adv stk 1) 0" using h by (simp add: room_adv)
    then have "b = [x]" "s' = stt r' None 0 x (adv stk 1)"
      using stream_Kind_stt [OF assms(1) ne t [unfolded h(6)] h(5)] assms(3) h by (auto simp: stream_Bytes_def)
    then show ?thesis using h by (auto simp: rlp_string_byte)
  next
    fix h r' assume k: "kind \<noteq> KByte" and m: "m < 2 ^ 64" and r: "r = h @ r'" "room stk (length h)"
      "t = stt r' None sz 0 (adv stk (length h))"
      and h: "h = (if kind = KString then puthead 0x80 0xB7 (of_nat m) else puthead 0xC0 0xF7 (of_nat m))"
    note sk = stream_Kind_stt [OF assms(1) ne t [unfolded r(3)] r(2)]
    have ks: "kind = KString" and rm: "room (adv stk (length h)) m"
      and rf: "readFull m (stt r' (Some kind) m 0 (adv stk (length h))) = Inr (b, s')"
      and can: "\<not> (m = 1 \<and> b ! 0 < 0x80)"
      using assms(3) sk k by (auto simp: stream_Bytes_def rbind_eq_Inr split: if_splits Kind.splits)
    obtain r'' where f: "r' = b @ r''" "length b = m" "s' = stt r'' None m 0 (adv (adv stk (length h)) m)"
      using rf readFull_iff [OF pos_ok_adv [OF r(2)]] by blast
    have "rlp_string b = h @ b" using rlp_string_head [of b] can f h ks by simp
    then show ?thesis using f r m rm by (auto simp: adv_adv room_adv)
  qed
qed

lemma err_neq_EOL [simp]:
  "ErrExpectedString \<noteq> EOL" "ErrCanonSize \<noteq> EOL" "ErrElemTooLarge \<noteq> EOL" "ErrValueTooLarge \<noteq> EOL"
  "ErrUnexpectedEOF \<noteq> EOL" "ioEOF \<noteq> EOL"
  by (simp_all add: EOL_def ErrExpectedString_def ErrCanonSize_def ErrElemTooLarge_def
      ErrValueTooLarge_def ErrUnexpectedEOF_def ioEOF_def)

lemma not_EOL:
  "willRead n s \<noteq> Inl EOL" "readByte s \<noteq> Inl EOL" "readFull n s \<noteq> Inl EOL" "readUint n s \<noteq> Inl EOL"
  "readKind s \<noteq> Inl EOL"
proof -
  have w: "willRead n s \<noteq> Inl EOL" for n s
    by (auto simp: willRead_def Let_def rbind_eq_Inl split: list.splits if_splits)
  have b: "readByte s \<noteq> Inl EOL" for s
    by (auto simp: readByte_def w rbind_eq_Inl split: list.splits)
  have f: "readFull n s \<noteq> Inl EOL" for n s
    by (auto simp: readFull_def w rbind_eq_Inl split: if_splits)
  have u: "readUint n s \<noteq> Inl EOL" for n s
    by (auto simp: readUint_def b f rbind_eq_Inl split: if_splits)
  show "willRead n s \<noteq> Inl EOL" "readByte s \<noteq> Inl EOL" "readFull n s \<noteq> Inl EOL"
    "readUint n s \<noteq> Inl EOL" by (fact w b f u)+
  show "readKind s \<noteq> Inl EOL"
    using b [of s] by (auto simp: readKind_def Let_def u rbind_eq_Inl split: sum.splits prod.splits if_splits)
qed

lemma stream_Bytes_EOL:
  assumes "stk \<noteq> []"
  shows "stream_Bytes (stt r None sz bv stk) = Inl EOL \<longleftrightarrow> lp_pos (hd stk) = lp_size (hd stk)"
  using assms
  by (auto simp: stream_Bytes_def stream_Kind_def Let_def rbind_eq_Inl not_EOL split: if_splits Kind.splits)

section \<open>Lists of strings\<close>

lemma decodeSliceElems_parse:
  "decodeSliceElems s = Inr (bs, s') \<Longrightarrow> s = stt r None sz bv stk \<Longrightarrow> stk \<noteq> [] \<Longrightarrow> pos_ok stk \<Longrightarrow>
   \<exists>r' sz' bv'. r = concat (map rlp_string bs) @ r' \<and>
     s' = stt r' None sz' bv' (adv stk (length (concat (map rlp_string bs)))) \<and>
     lp_pos (hd (st_stack s')) = lp_size (hd (st_stack s'))"
proof (induction s arbitrary: bs r sz bv stk rule: decodeSliceElems.induct)
  case (1 s)
  show ?case
  proof (cases "stream_Bytes s")
    case (Inl e)
    then have e: "e = EOL" "bs = []" "s' = s"
      using 1(2) by (subst (asm) decodeSliceElems.simps, simp split: if_splits)+
    have "lp_pos (hd stk) = lp_size (hd stk)"
      using Inl e(1) stream_Bytes_EOL [OF 1(4)] 1(3) by simp
    moreover have "adv stk 0 = stk" by (cases stk) (simp_all add: adv_def)
    ultimately show ?thesis using e 1(3) by auto
  next
    case (Inr p)
    obtain b t where p: "stream_Bytes s = Inr (b, t)" using Inr by (cases p) auto
    obtain cs where cs: "bs = b # cs" "decodeSliceElems t = Inr (cs, s')"
      using 1(2) p by (subst (asm) decodeSliceElems.simps) (auto simp: rbind_eq_Inr)
    obtain r1 sz1 bv1 where h: "r = rlp_string b @ r1" "room stk (length (rlp_string b))"
      "t = stt r1 None sz1 bv1 (adv stk (length (rlp_string b)))"
      using stream_Bytes_parse [OF 1(4,5)] p 1(3) by blast
    from 1(1) [OF p refl cs(2) h(3) _ pos_ok_adv [OF h(2)]] 1(4)
    show ?thesis by (auto simp: h(1) cs(1) adv_adv)
  qed
qed

lemma decodeSliceElems_rlp:
  assumes "stk \<noteq> []" "pos_ok stk" "lp_pos (hd stk) + length (concat (map rlp_string bs)) = lp_size (hd stk)"
    and "\<forall>b\<in>set bs. length b < 2 ^ 64"
  shows "\<exists>sz' bv'. decodeSliceElems (stt (concat (map rlp_string bs) @ r) None sz bv stk) =
    Inr (bs, stt r None sz' bv' (adv stk (length (concat (map rlp_string bs)))))"
  using assms
proof (induction bs arbitrary: sz bv stk)
  case Nil
  have "adv stk 0 = stk" by (cases stk) (simp_all add: adv_def)
  then show ?case
    using stream_Bytes_EOL [OF Nil(1), of r sz bv] Nil(3) by (subst decodeSliceElems.simps) auto
next
  case (Cons b bs)
  let ?n = "length (rlp_string b)" and ?p = "concat (map rlp_string bs)"
  have rm: "room stk ?n" using Cons.prems(1,3) by (cases stk) (simp_all add: room_def)
  obtain sz1 bv1 where b: "stream_Bytes (stt (rlp_string b @ ?p @ r) None sz bv stk) =
      Inr (b, stt (?p @ r) None sz1 bv1 (adv stk ?n))"
    using stream_Bytes_rlp_string [OF Cons.prems(1,2) _ rm, of "?p @ r" sz bv] Cons.prems(4) by auto
  have "lp_pos (hd (adv stk ?n)) + length ?p = lp_size (hd (adv stk ?n))"
    using Cons.prems(1,3) by (cases stk) (simp_all add: adv_def)
  then obtain sz2 bv2 where "decodeSliceElems (stt (?p @ r) None sz1 bv1 (adv stk ?n)) =
      Inr (bs, stt r None sz2 bv2 (adv (adv stk ?n) (length ?p)))"
    using Cons.IH [of "adv stk ?n" sz1 bv1] Cons.prems(1,4) pos_ok_adv [OF rm] by auto
  then show ?case by (subst decodeSliceElems.simps) (auto simp: b adv_adv)
qed

section \<open>\<open>DecodeBytes\<close>\<close>

lemma stream_Reset_stt: "stream_Reset b = stt b None 0 0 []"
  by (simp add: stream_Reset_def stt_def)

lemma stream_List_E:
  assumes "stream_List (stt b None sz bv []) = Inr (m, s')"
  obtains t where "readKind (stt b None sz bv []) = Inr (KList, m, t)"
    "\<not> (st_limited t \<and> m > st_remaining t)"
    "s' = t\<lparr>st_stack := \<lparr>lp_pos = 0, lp_size = m\<rparr> # st_stack t, st_kind := None, st_size := 0\<rparr>"
    "st_stack t = []"
proof -
  obtain kind n u where u: "readKind (stt b None sz bv []) = Inr (kind, n, u)"
    using assms by (auto simp: stream_List_def stream_Kind_def rbind_eq_Inr)
  have "st_stack u = []" using readKind_parse [OF u] by (auto simp: pos_ok_def adv_def)
  then show thesis using that [of u] assms u
    by (auto simp: stream_List_def stream_Kind_def Let_def split: if_splits)
qed

lemma stream_List_top:
  "stream_List (stt b None sz bv []) = Inr (m, s') \<longleftrightarrow>
   (\<exists>r. b = puthead 0xC0 0xF7 (of_nat m) @ r \<and> m < 2 ^ 64 \<and> m \<le> length r \<and>
      s' = stt r None 0 0 [\<lparr>lp_pos = 0, lp_size = m\<rparr>])"
proof
  assume "stream_List (stt b None sz bv []) = Inr (m, s')"
  then obtain t where t: "readKind (stt b None sz bv []) = Inr (KList, m, t)"
    and m: "\<not> (st_limited t \<and> m > st_remaining t)"
    and s: "s' = t\<lparr>st_stack := \<lparr>lp_pos = 0, lp_size = m\<rparr> # st_stack t, st_kind := None, st_size := 0\<rparr>"
    and e: "st_stack t = []"
    by (rule stream_List_E)
  show "\<exists>r. b = puthead 0xC0 0xF7 (of_nat m) @ r \<and> m < 2 ^ 64 \<and> m \<le> length r \<and>
      s' = stt r None 0 0 [\<lparr>lp_pos = 0, lp_size = m\<rparr>]"
    using readKind_parse [OF t] m s by (auto simp: pos_ok_def adv_def stt_def)
next
  assume "\<exists>r. b = puthead 0xC0 0xF7 (of_nat m) @ r \<and> m < 2 ^ 64 \<and> m \<le> length r \<and>
      s' = stt r None 0 0 [\<lparr>lp_pos = 0, lp_size = m\<rparr>]"
  then show "stream_List (stt b None sz bv []) = Inr (m, s')"
    using readKind_list [of m "[]"]
    by (auto simp: stream_List_def stream_Kind_def Let_def pos_ok_def room_def adv_def)
qed

lemma decodeListSlice_parse:
  assumes "decodeListSlice (stt b None sz bv []) = Inr (fs, s')"
  shows "b = rlp_list (concat (map rlp_string fs)) @ st_r s'"
proof -
  obtain m t where l: "stream_List (stt b None sz bv []) = Inr (m, t)"
    and d: "(if m = 0 then rbind (stream_ListEnd t) (\<lambda>s. Inr ([], s))
       else rbind (decodeSliceElems t) (\<lambda>(bs, s). rbind (stream_ListEnd s) (\<lambda>s. Inr (bs, s)))) = Inr (fs, s')"
    using assms unfolding decodeListSlice_def rbind_eq_Inr by auto
  obtain r where r: "b = puthead 0xC0 0xF7 (of_nat m) @ r"
    and t: "t = stt r None 0 0 [\<lparr>lp_pos = 0, lp_size = m\<rparr>]"
    using l unfolding stream_List_top by blast
  show ?thesis
  proof (cases "m = 0")
    case True
    then have "fs = []" "st_r s' = r" using d by (auto simp: t stream_ListEnd_def)
    then show ?thesis using r True by (simp add: rlp_list_def)
  next
    case False
    then obtain u where u: "decodeSliceElems t = Inr (fs, u)" "stream_ListEnd u = Inr s'"
      using d by (auto simp: rbind_eq_Inr)
    from decodeSliceElems_parse [OF u(1) t] u(2)
    show ?thesis
      by (auto simp: pos_ok_def adv_def stream_ListEnd_def r rlp_list_def split: if_splits)
  qed
qed

lemma decodeListSlice_rlp:
  assumes "length (concat (map rlp_string fs)) < 2 ^ 64"
  shows "\<exists>s'. decodeListSlice (stt (rlp_list (concat (map rlp_string fs))) None sz bv []) = Inr (fs, s') \<and> st_r s' = []"
proof -
  let ?p = "concat (map rlp_string fs)" and ?m = "length (concat (map rlp_string fs))"
  let ?t = "stt ?p None 0 0 [\<lparr>lp_pos = 0, lp_size = ?m\<rparr>]"
  have l: "stream_List (stt (rlp_list ?p) None sz bv []) = Inr (?m, ?t)"
    using assms unfolding stream_List_top rlp_list_def by blast
  show ?thesis
  proof (cases "?m = 0")
    case True
    moreover have "rlp_string f \<noteq> []" for f by (auto simp: rlp_string_def puthead_def Let_def)
    ultimately have "fs = []" by (cases fs) auto
    then show ?thesis using l by (auto simp: decodeListSlice_def stream_ListEnd_def)
  next
    case False
    have "length f < 2 ^ 64" if f: "f \<in> set fs" for f
    proof -
      have "length (rlp_string f) \<le> ?m"
        using f by (auto simp: length_concat comp_def intro!: member_le_sum_list)
      then show ?thesis using rlp_string_length [of f] assms by linarith
    qed
    then obtain sz' bv' where "decodeSliceElems ?t =
        Inr (fs, stt [] None sz' bv' (adv [\<lparr>lp_pos = 0, lp_size = ?m\<rparr>] ?m))"
      using decodeSliceElems_rlp [of "[\<lparr>lp_pos = 0, lp_size = ?m\<rparr>]" fs "[]" 0 0]
      by (auto simp: pos_ok_def)
    then show ?thesis
      unfolding decodeListSlice_def l by (simp only: rbind_Inr prod.case False if_False)
        (simp add: stream_ListEnd_def adv_def)
  qed
qed

lemma rlp_Slice_Bytes: "rlp (Slice (map Bytes fs)) = rlp_list (concat (map rlp_string fs))"
  by (simp add: comp_def)

lemma DecodeBytes_iff:
  assumes "length b < 2 ^ 64"
  shows "DecodeBytes b = Inr fs \<longleftrightarrow> b = rlp (Slice (map Bytes fs))"
proof
  assume "DecodeBytes b = Inr fs"
  then obtain s' where "decodeListSlice (stt b None 0 0 []) = Inr (fs, s')" "st_r s' = []"
    by (auto simp: DecodeBytes_def stream_Reset_stt rbind_eq_Inr split: if_splits)
  then show "b = rlp (Slice (map Bytes fs))"
    using decodeListSlice_parse unfolding rlp_Slice_Bytes by fastforce
next
  assume b: "b = rlp (Slice (map Bytes fs))"
  then have "length (concat (map rlp_string fs)) < 2 ^ 64"
    using assms length_rlp_list [of "concat (map rlp_string fs)"] unfolding rlp_Slice_Bytes by simp
  from decodeListSlice_rlp [OF this, of 0 0] show "DecodeBytes b = Inr fs"
    unfolding DecodeBytes_def stream_Reset_stt b rlp_Slice_Bytes by auto
qed

text \<open>
  C22. On any input shorter than 2^64 bytes, decoding a list of byte strings succeeds exactly on the
  canonical encodings: \<open>DecodeBytes\<close> returns the fields \<open>fs\<close> if and only if the input is the RLP
  encoding of the list of the strings \<open>fs\<close>. So encoding then decoding gives the fields back, and no
  second byte sequence (a non-minimal size, a trailing byte, a long form of a single byte) decodes to
  the same fields.
\<close>
theorem DecodeBytes_canonical:
  assumes "length b < 2 ^ 64"
  shows "DecodeBytes b = Inr fs \<longleftrightarrow> b = rlp (Slice (map Bytes fs))"
  using assms by (rule DecodeBytes_iff)

theorem DecodeBytes_canonical_witness:
  "DecodeBytes [0xC4, 0x05, 0x82, 0xAA, 0xBB] = Inr [[0x05], [0xAA, 0xBB]]"
proof -
  have e: "rlp (Slice (map Bytes [[0x05], [0xAA, 0xBB]])) = [0xC4, 0x05, 0x82, 0xAA, 0xBB]"
    by (simp add: rlp_list_def rlp_string_def puthead_def)
  show ?thesis
    by (rule iffD2 [OF DecodeBytes_canonical]) (simp, simp only: e)
qed

end
