(* ===== verification/TxCodec.thy ===== *)
theory TxCodec
  imports RlpDecode ZkLimits
begin

text \<open>
  The batch codec of \<open>zk/tx/tx.go\<close>: the encoding of transactions and block boundaries that is
  posted to L1 (\<open>TransactionToL2Data\<close>, \<open>GenerateBlockBatchL2Data\<close>) and its decoder
  \<open>DecodeBatchL2Blocks\<close>. All positions of the decoder are \<open>uint64\<close> and wrap as in Go. A slice
  expression may reach beyond the length of a slice up to its capacity; \<open>spare\<close> stands for the
  bytes of the underlying array between the two.
\<close>

section \<open>Integers as byte strings\<close>

text \<open>The methods of the 256-bit integers: \<open>Bytes\<close>, \<open>Bytes32\<close>, \<open>SetBytes\<close> (the last 32 bytes).\<close>

definition u256_Bytes :: "u256 \<Rightarrow> byte list" where
  "u256_Bytes w = big_Bytes (unat w)"

definition u256_Bytes32 :: "u256 \<Rightarrow> byte list" where
  "u256_Bytes32 w = replicate (32 - length (u256_Bytes w)) 0 @ u256_Bytes w"

definition u256_SetBytes :: "byte list \<Rightarrow> u256" where
  "u256_SetBytes b = of_nat (SetBytes (drop (length b - 32) b))"

text \<open>\<open>binary.BigEndian.AppendUint32\<close> and \<open>Uint32\<close>.\<close>

definition AppendUint32 :: "byte list \<Rightarrow> uint32 \<Rightarrow> byte list" where
  "AppendUint32 b v = b @ [ucast (drop_bit 24 v), ucast (drop_bit 16 v), ucast (drop_bit 8 v), ucast v]"

definition BigEndian_Uint32 :: "byte list \<Rightarrow> uint32 result" where
  "BigEndian_Uint32 b =
     (if length b < 4 then Inl (Panic ''index out of range'')
      else Inr (ucast (b ! 3) OR push_bit 8 (ucast (b ! 2)) OR push_bit 16 (ucast (b ! 1)) OR
                push_bit 24 (ucast (b ! 0))))"

text \<open>\<open>strconv.ParseUint\<close> of the hexadecimal digits of a byte string, at 64 bits.\<close>

definition ParseUint_hex :: "byte list \<Rightarrow> uint64 result" where
  "ParseUint_hex b =
     (if b = [] then Inl (Err ''invalid syntax'')
      else if SetBytes b \<ge> 2 ^ 64 then Inl (Err ''value out of range'')
      else Inr (of_nat (SetBytes b)))"

section \<open>Encoding\<close>

definition removeLeadingZeroesFromBytes :: "byte list \<Rightarrow> byte list" where
  "removeLeadingZeroesFromBytes source = dropWhile (\<lambda>b. b = 0) source"

text \<open>\<open>big.Int\<close> arithmetic on the chain id; \<open>uint256.FromBig\<close> reduces modulo 2^256.\<close>

definition GetDecodedV :: "Transaction \<Rightarrow> u256 \<Rightarrow> u256 result" where
  "GetDecodedV tx v =
     (if \<not> Protected tx then Inr v
      else rbind (deref (GetChainID tx)) (\<lambda>chainId.
             let multiChain = uint chainId * 2;
                 plus155V = uint v + 27;
                 txV = plus155V - multiChain - 35
             in Inr (of_int txV)))"

definition TransactionToL2Data :: "Transaction \<Rightarrow> uint16 \<Rightarrow> uint8 \<Rightarrow> byte list result" where
  "TransactionToL2Data tx forkId efficiencyPercentage =
     rbind (deref (GetPrice tx)) (\<lambda>gasPrice.
     rbind (deref (GetChainID tx)) (\<lambda>chainId.
     let nonceBytes = Uint64ToBytes (GetNonce tx);
         gasPriceBytes = u256_Bytes gasPrice;
         gas = Uint64ToBytes (GetGas tx);
         val = (case GetValue tx of None \<Rightarrow> 0 | Some value \<Rightarrow> value);
         valueBytes = u256_Bytes val;
         to = (case GetTo tx of None \<Rightarrow> [] | Some addr \<Rightarrow> addr);
         (v, r, s) = RawSignatureValues tx;
         toEncode =
           [removeLeadingZeroesFromBytes nonceBytes,
            removeLeadingZeroesFromBytes gasPriceBytes,
            removeLeadingZeroesFromBytes gas,
            to,
            removeLeadingZeroesFromBytes valueBytes,
            GetData tx] @
           (if chainId \<noteq> 0 \<or> \<not> (v = 27 \<or> v = 28)
            then [removeLeadingZeroesFromBytes (u256_Bytes chainId), [], []] else [])
     in rbind (EncodeToBytes (Slice (map Bytes toEncode))) (\<lambda>encoded.
        rbind (GetDecodedV tx v) (\<lambda>v.
        let vBytes = big_Bytes (SetBytes (u256_Bytes v));
            encoded = encoded @ u256_Bytes32 r @ u256_Bytes32 s @ vBytes
        in Inr (if forkId \<ge> ForkID5Dragonfruit then encoded @ Uint8ToBytes efficiencyPercentage
                else encoded)))))"

definition changeL2BlockTxType :: byte where "changeL2BlockTxType = 11"
definition changeL2BlockLength :: uint64 where "changeL2BlockLength = 9"
definition START_BLOCK_BATCH_L2_DATA_SIZE :: uint64 where "START_BLOCK_BATCH_L2_DATA_SIZE = 65"

definition GenerateStartBlockBatchL2Data :: "uint32 \<Rightarrow> uint32 \<Rightarrow> byte list" where
  "GenerateStartBlockBatchL2Data deltaTimestamp l1InfoTreeIndex =
     AppendUint32 (AppendUint32 [changeL2BlockTxType] deltaTimestamp) l1InfoTreeIndex"

record BatchTxData =
  bt_Transaction :: Transaction
  bt_EffectiveGasPricePercentage :: uint8

primrec encodeTransactions :: "uint16 \<Rightarrow> BatchTxData list \<Rightarrow> byte list \<Rightarrow> byte list result" where
  "encodeTransactions forkId [] result = Inr result"
| "encodeTransactions forkId (transactionData # rest) result =
     rbind (TransactionToL2Data (bt_Transaction transactionData) forkId
              (bt_EffectiveGasPricePercentage transactionData)) (\<lambda>encoded.
     encodeTransactions forkId rest (result @ encoded))"

definition GenerateBlockBatchL2Data ::
  "uint16 \<Rightarrow> uint32 \<Rightarrow> uint32 \<Rightarrow> BatchTxData list \<Rightarrow> byte list result" where
  "GenerateBlockBatchL2Data forkId deltaTimestamp l1InfoTreeIndex transactionsData =
     encodeTransactions forkId transactionsData
       (if forkId \<ge> ForkID7Etrog
        then GenerateStartBlockBatchL2Data deltaTimestamp l1InfoTreeIndex else [])"

section \<open>Decoding\<close>

definition ErrInvalidData :: error where "ErrInvalidData = Err ''invalid data''"
definition ErrTxTypeNotSupported :: error where
  "ErrTxTypeNotSupported = Err ''transaction type not supported''"

definition rlpFieldsToLegacyTx ::
  "byte list list \<Rightarrow> byte list \<Rightarrow> byte list \<Rightarrow> byte list \<Rightarrow> Transaction result" where
  "rlpFieldsToLegacyTx rlpFields v r s =
     (if length rlpFields < 6 then Inl ErrTxTypeNotSupported
      else
       let nonce = of_nat (SetBytes (rlpFields ! 0));
           gasPriceI = u256_SetBytes (rlpFields ! 1);
           gas = of_nat (SetBytes (rlpFields ! 2));
           to = (if rlpFields ! 3 \<noteq> [] then Some (BytesToAddress (rlpFields ! 3)) else None);
           value = SetBytes (rlpFields ! 4);
           data = rlpFields ! 5;
           hasChainID = length rlpFields \<ge> 7;
           chainIDBig = (if hasChainID then SetBytes (rlpFields ! 6) else 0);
           txV = (if hasChainID
                  then (int (SetBytes v) - 27) + (int chainIDBig * 2 + 35)
                  else int (SetBytes v))
       in Inr (LegacyTx
            \<lparr>tx_ChainID = Some (of_nat chainIDBig), tx_Nonce = nonce, tx_Gas = gas, tx_To = to,
             tx_Value = Some (u256_SetBytes (big_Bytes value)), tx_Data = data,
             tx_V = u256_SetBytes (big_Bytes (nat \<bar>txV\<bar>)), tx_R = u256_SetBytes r,
             tx_S = u256_SetBytes s\<rparr> (Some gasPriceI)))"

record DecodedBatchL2Data =
  Transactions :: "Transaction list"
  EffectiveGasPricePercentages :: "uint8 list"
  DeltaTimestamp :: uint32
  L1InfoTreeIndex :: uint32

definition emptyData :: DecodedBatchL2Data where
  "emptyData = \<lparr>Transactions = [], EffectiveGasPricePercentages = [], DeltaTimestamp = 0,
     L1InfoTreeIndex = 0\<rparr>"

text \<open>The local variables of \<open>DecodeBatchL2Blocks\<close>.\<close>

record decoder =
  d_pos :: uint64
  d_result :: "DecodedBatchL2Data list"
  d_current :: DecodedBatchL2Data
  d_delta :: uint32
  d_index :: uint32

text \<open>
  A run of the loop body ends in \<open>continue\<close> or the end of the body (\<open>Next\<close>), or in a return of
  the blocks decoded so far with an error or with nil (\<open>Return\<close>).
\<close>

datatype outcome = Next decoder | Return "DecodedBatchL2Data list" "error option"

text \<open>The slice expression \<open>b[lo:hi]\<close> with \<open>uint64\<close> bounds on a slice of the given contents and spare capacity.\<close>

definition slice :: "byte list \<Rightarrow> byte list \<Rightarrow> uint64 \<Rightarrow> uint64 \<Rightarrow> byte list result" where
  "slice b spare lo hi =
     (if lo \<le> hi \<and> unat hi \<le> length (b @ spare)
      then Inr (take (unat hi - unat lo) (drop (unat lo) (b @ spare)))
      else Inl (Panic ''slice bounds out of range''))"

definition seal :: "decoder \<Rightarrow> DecodedBatchL2Data list" where
  "seal st = d_result st @
     [(d_current st)\<lparr>DeltaTimestamp := d_delta st, L1InfoTreeIndex := d_index st\<rparr>]"

definition changeBlock_step :: "byte list \<Rightarrow> byte list \<Rightarrow> decoder \<Rightarrow> outcome result" where
  "changeBlock_step txsData spare st =
     (let pos = d_pos st; hasStarted = (pos > 0) in
      rbind (if hasStarted then Inr True
             else rbind (idx txsData (unat (pos + 1))) (\<lambda>b. Inr (b = changeL2BlockTxType))) (\<lambda>boundary.
      let st = (if boundary then st\<lparr>d_result := seal st, d_current := emptyData\<rparr> else st) in
      rbind (slice txsData spare (pos + 1) (pos + 5)) (\<lambda>deltaBytes.
      rbind (BigEndian_Uint32 deltaBytes) (\<lambda>currentDelta.
      rbind (slice txsData spare (pos + 5) (pos + 9)) (\<lambda>indexBytes.
      rbind (BigEndian_Uint32 indexBytes) (\<lambda>currentL1InfoTreeIndex.
      Inr (Next (st\<lparr>d_delta := currentDelta, d_index := currentL1InfoTreeIndex,
                   d_pos := pos + changeL2BlockLength\<rparr>))))))))"

text \<open>
  The length of the RLP list at \<open>pos\<close> without its first byte, as the decoder computes it from the
  header \<open>num\<close>; a \<open>Return\<close> for the early returns.
\<close>

definition headerLength ::
  "byte list \<Rightarrow> byte list \<Rightarrow> decoder \<Rightarrow> uint64 \<Rightarrow> (outcome + uint64) result" where
  "headerLength txsData spare st num =
     (let pos = d_pos st; length0 = num - 192 in
      if length0 > 55 then
        if pos + 1 + num - 247 > of_nat (length txsData) then Inr (Inl (Return (d_result st) None))
        else rbind (slice txsData spare (pos + 1) (pos + 1 + num - 247)) (\<lambda>lengthBytes.
             case ParseUint_hex lengthBytes of
               Inl err \<Rightarrow> Inr (Inl (Return (d_result st) (Some err)))
             | Inr n \<Rightarrow>
                 if n + num < 247 then Inr (Inl (Return (d_result st) (Some ErrInvalidData)))
                 else Inr (Inr (n + num - 247)))
      else Inr (Inr length0))"

definition transaction_step ::
  "byte list \<Rightarrow> byte list \<Rightarrow> uint64 \<Rightarrow> decoder \<Rightarrow> uint64 \<Rightarrow> outcome result" where
  "transaction_step txsData spare forkID st len =
     (let pos = d_pos st;
          hasEfficiency = (forkID \<ge> ucast ForkID5Dragonfruit);
          endPos = pos + len + 32 + 32 + 1 + 1 + (if hasEfficiency then 1 else 0)
      in
      if endPos > of_nat (length txsData) then Inr (Return (d_result st) (Some ErrInvalidData))
      else if endPos < pos then Inr (Return (d_result st) (Some ErrInvalidData))
      else
        let dataStart = pos + len + 1 in
        rbind (slice txsData spare pos endPos) (\<lambda>fullDataTx.
        rbind (slice txsData spare pos dataStart) (\<lambda>txInfo.
        rbind (slice txsData spare dataStart (dataStart + 32)) (\<lambda>rData.
        rbind (slice txsData spare (dataStart + 32) (dataStart + 32 + 32)) (\<lambda>sData.
        rbind (slice txsData spare (dataStart + 32 + 32) (dataStart + 32 + 32 + 1)) (\<lambda>vData.
        rbind (if hasEfficiency
               then rbind (slice txsData spare (dataStart + 32 + 32 + 1) endPos) (\<lambda>efficiencyPercentage.
                    rbind (idx efficiencyPercentage 0) (\<lambda>p. Inr [p]))
               else Inr []) (\<lambda>percentage.
        let current = (d_current st)\<lparr>EffectiveGasPricePercentages :=
                         EffectiveGasPricePercentages (d_current st) @ percentage\<rparr> in
        case DecodeBytes txInfo of
          Inl err \<Rightarrow> Inr (Return (d_result st) (Some ErrInvalidData))
        | Inr rlpFields \<Rightarrow>
            (case rlpFieldsToLegacyTx rlpFields vData rData sData of
               Inl err \<Rightarrow> Inr (Return (d_result st) (Some err))
             | Inr legacyTx \<Rightarrow>
                 Inr (Next (st\<lparr>d_pos := endPos,
                   d_current := current\<lparr>Transactions := Transactions current @ [legacyTx]\<rparr>\<rparr>))))))))))"

definition decode_step :: "byte list \<Rightarrow> byte list \<Rightarrow> uint64 \<Rightarrow> decoder \<Rightarrow> outcome result" where
  "decode_step txsData spare forkID st =
     rbind (slice txsData spare (d_pos st) (d_pos st + 1)) (\<lambda>header.
     case ParseUint_hex header of
       Inl err \<Rightarrow> Inr (Return (d_result st) (Some err))
     | Inr num \<Rightarrow>
         if num = ucast changeL2BlockTxType then changeBlock_step txsData spare st
         else if num < 192 then Inr (Return (d_result st) (Some ErrInvalidData))
         else rbind (headerLength txsData spare st num) (\<lambda>l.
              case l of
                Inl ret \<Rightarrow> Inr ret
              | Inr len \<Rightarrow> transaction_step txsData spare forkID st len))"

text \<open>A run of the loop body that does not return moves forward, so the loop ends.\<close>

lemma slice_Inr:
  "slice b spare lo hi = Inr xs \<Longrightarrow> lo \<le> hi \<and> unat hi \<le> length (b @ spare) \<and> length xs = unat hi - unat lo"
  by (auto simp: slice_def split: if_splits)

lemma unat_plus: "unat (a :: uint64) + unat b < 2 ^ 64 \<Longrightarrow> unat (a + b) = unat a + unat b"
  by (simp add: unat_word_ariths)

lemma less_plus_one: "(w :: uint64) < v \<Longrightarrow> w < w + 1"
  using unsigned_less [of v, where ?'a = nat] unat_plus [of w 1] by (simp add: word_less_nat_alt)

lemma try_Next:
  "(case r of Inl e \<Rightarrow> Inr (Return res (g e)) | Inr x \<Rightarrow> f x) = Inr (Next st) \<longleftrightarrow>
   (\<exists>x. r = Inr x \<and> f x = Inr (Next st))"
  by (cases r) simp_all

lemma changeBlock_step_pos:
  assumes "changeBlock_step txsData spare st = Inr (Next st')" "d_pos st < len"
  shows "d_pos st < d_pos st'"
proof -
  have "d_pos st + 1 \<le> d_pos st + 5" "d_pos st + 5 \<le> d_pos st + 9" "d_pos st' = d_pos st + 9"
    using assms(1)
    by (auto simp: changeBlock_step_def Let_def rbind_eq_Inr changeL2BlockLength_def
        dest!: slice_Inr split: if_splits)
  then show ?thesis using less_plus_one [OF assms(2)] by simp
qed

lemma transaction_step_pos:
  assumes "transaction_step txsData spare forkID st len = Inr (Next st')"
  shows "d_pos st < d_pos st'"
proof -
  define ds where "ds = d_pos st + len + 1"
  have "d_pos st \<le> ds" "ds \<le> ds + 32" "ds + 32 \<le> ds + 64" "ds + 64 \<le> ds + 65" "ds + 65 \<le> d_pos st'"
    using assms unfolding transaction_step_def
    by (auto simp: Let_def rbind_eq_Inr try_Next ds_def add.assoc dest!: slice_Inr split: if_splits)
  moreover have "ds \<noteq> ds + 32" by simp
  ultimately show ?thesis by (meson le_neq_trans le_less_trans less_le_trans)
qed

lemma headerLength_no_Next: "headerLength txsData spare st num \<noteq> Inr (Inl (Next st'))"
  by (auto simp: headerLength_def Let_def rbind_eq_Inr split: sum.splits if_splits)

lemma decode_step_pos:
  assumes "decode_step txsData spare forkID st = Inr (Next st')" "d_pos st < len"
  shows "d_pos st < d_pos st'"
proof -
  obtain num where "(if num = ucast changeL2BlockTxType then changeBlock_step txsData spare st
         else if num < 192 then Inr (Return (d_result st) (Some ErrInvalidData))
         else rbind (headerLength txsData spare st num) (\<lambda>l.
              case l of Inl ret \<Rightarrow> Inr ret
              | Inr len \<Rightarrow> transaction_step txsData spare forkID st len)) = Inr (Next st')"
    using assms(1) unfolding decode_step_def rbind_eq_Inr try_Next by blast
  then have "changeBlock_step txsData spare st = Inr (Next st') \<or>
      (\<exists>len. transaction_step txsData spare forkID st len = Inr (Next st'))"
    using headerLength_no_Next by (cases "headerLength txsData spare st num")
      (fastforce split: if_splits sum.splits)+
  then show ?thesis using changeBlock_step_pos [OF _ assms(2)] transaction_step_pos by blast
qed

function decode_loop ::
  "byte list \<Rightarrow> byte list \<Rightarrow> uint64 \<Rightarrow> decoder \<Rightarrow> (DecodedBatchL2Data list \<times> error option) result" where
  "decode_loop txsData spare forkID st =
     (if d_pos st < of_nat (length txsData)
      then case decode_step txsData spare forkID st of
             Inl e \<Rightarrow> Inl e
           | Inr (Return result err) \<Rightarrow> Inr (result, err)
           | Inr (Next st') \<Rightarrow> decode_loop txsData spare forkID st'
      else Inr (seal st, None))"
  by pat_completeness auto
termination
  by (relation "measure (\<lambda>(txsData, spare, forkID, st).
        unat (of_nat (length txsData) :: uint64) - unat (d_pos st))")
    (auto simp: word_less_nat_alt dest!: decode_step_pos intro!: diff_less_mono2)

declare decode_loop.simps [simp del]

definition DecodeBatchL2Blocks ::
  "byte list \<Rightarrow> byte list \<Rightarrow> uint64 \<Rightarrow> (DecodedBatchL2Data list \<times> error option) result" where
  "DecodeBatchL2Blocks txsData spare forkID =
     (if of_nat (length txsData) = (0 :: uint64) then Inr ([], None)
      else decode_loop txsData spare forkID
             \<lparr>d_pos = 0, d_result = [], d_current = emptyData, d_delta = 0, d_index = 0\<rparr>)"

section \<open>Byte strings of integers\<close>

lemma removeLeadingZeroes_big_Bytes [simp]: "removeLeadingZeroesFromBytes (big_Bytes n) = big_Bytes n"
  using hd_big_Bytes [of n] unfolding removeLeadingZeroesFromBytes_def
  by (cases "big_Bytes n"; cases "n = 0") auto

lemma SetBytes_removeLeadingZeroes [simp]: "SetBytes (removeLeadingZeroesFromBytes b) = SetBytes b"
  unfolding removeLeadingZeroesFromBytes_def by (induction b) (auto simp: SetBytes_Cons)

lemma u256_less: "unat (w :: u256) < 256 ^ 32"
  using unsigned_less [of w, where ?'a = nat] by simp

lemma length_u256_Bytes: "length (u256_Bytes w) \<le> 32"
  unfolding u256_Bytes_def by (rule length_big_Bytes, rule u256_less)

lemma length_u256_Bytes32 [simp]: "length (u256_Bytes32 w) = 32"
  using length_u256_Bytes [of w] by (simp add: u256_Bytes32_def)

lemma u256_SetBytes_short: "length b \<le> 32 \<Longrightarrow> u256_SetBytes b = of_nat (SetBytes b)"
  by (simp add: u256_SetBytes_def)

lemma u256_SetBytes_Bytes [simp]:
  "u256_SetBytes (u256_Bytes w) = w" "u256_SetBytes (u256_Bytes32 w) = w"
  using length_u256_Bytes [of w] length_u256_Bytes32 [of w]
  by (simp_all only: u256_SetBytes_short) (simp_all add: u256_Bytes32_def u256_Bytes_def)

lemma BigEndian_AppendUint32: "BigEndian_Uint32 (AppendUint32 [] v) = Inr v"
proof -
  have "ucast (ucast v :: byte) OR push_bit 8 (ucast (ucast (drop_bit 8 v) :: byte)) OR
      push_bit 16 (ucast (ucast (drop_bit 16 v) :: byte)) OR
      push_bit 24 (ucast (ucast (drop_bit 24 v) :: byte)) = v" (is "?l = v")
  proof (rule bit_word_eqI)
    fix n assume "n < LENGTH(32)"
    then consider "n < 8" | "8 \<le> n" "n < 16" | "16 \<le> n" "n < 24" | "24 \<le> n" "n < 32" by force
    then show "bit ?l n \<longleftrightarrow> bit v n" by cases (auto simp: bit_simps less_diff_conv2)
  qed
  then show ?thesis by (simp add: BigEndian_Uint32_def AppendUint32_def)
qed

section \<open>One transaction\<close>

text \<open>
  The legacy transactions that the format carries: signed without replay protection (\<open>V\<close> 27 or
  28) or with it (\<open>V\<close> at least 35). \<open>decoded_tx\<close> is what the decoder rebuilds: the chain id
  is filled in from \<open>V\<close> and a missing value is 0.
\<close>

definition wf_tx :: "Transaction \<Rightarrow> bool" where
  "wf_tx tx = (case tx of
     LegacyTx c price \<Rightarrow> price \<noteq> None \<and> length (tx_Data c) < 2 ^ 62 \<and> (unat (tx_V c) \<in> {27, 28} \<or> 35 \<le> unat (tx_V c)) \<and>
       (case tx_To c of None \<Rightarrow> True | Some a \<Rightarrow> length a = 20)
   | _ \<Rightarrow> False)"

fun decoded_tx :: "Transaction \<Rightarrow> Transaction" where
  "decoded_tx (LegacyTx c price) =
     LegacyTx (c\<lparr>tx_ChainID := Some (DeriveChainId (tx_V c)),
       tx_Value := Some (case tx_Value c of None \<Rightarrow> 0 | Some v \<Rightarrow> v)\<rparr>) price"
| "decoded_tx tx = tx"

definition tx_fields :: "CommonTx \<Rightarrow> u256 \<Rightarrow> byte list list" where
  "tx_fields c price =
     [removeLeadingZeroesFromBytes (Uint64ToBytes (tx_Nonce c)), u256_Bytes price,
      removeLeadingZeroesFromBytes (Uint64ToBytes (tx_Gas c)),
      (case tx_To c of None \<Rightarrow> [] | Some a \<Rightarrow> a),
      u256_Bytes (case tx_Value c of None \<Rightarrow> 0 | Some v \<Rightarrow> v), tx_Data c] @
     (if unat (tx_V c) < 35 then [] else [u256_Bytes (DeriveChainId (tx_V c)), [], []])"

text \<open>The recovery byte: 27 or 28.\<close>

definition v_byte :: "u256 \<Rightarrow> byte" where
  "v_byte v = (if unat v < 35 then ucast v else of_nat (27 + (unat v - 35) mod 2))"

lemma DeriveChainId_unat:
  "unat (DeriveChainId v) = (if unat v = 27 \<or> unat v = 28 then 0 else (unat v - 35) div 2)"
  if "unat v \<in> {27, 28} \<or> 35 \<le> unat v"
proof (cases "unat v < 2 ^ 64")
  case True
  have u: "unat (ucast v :: uint64) = unat v" using True by (simp add: unsigned_ucast_eq take_bit_nat_eq_self)
  have e: "(ucast v :: uint64) = 27 \<longleftrightarrow> unat v = 27" "(ucast v :: uint64) = 28 \<longleftrightarrow> unat v = 28"
    unfolding word_unat_eq_iff u by simp_all
  have d: "unat ((ucast v - 35 :: uint64) div 2) = (unat v - 35) div 2" if "35 \<le> unat v"
    using that u by (simp add: unat_div unat_sub word_le_nat_alt)
  have "unat (ucast w :: u256) = unat w" for w :: uint64
    using unsigned_less [of w, where ?'a = nat] by (simp add: unsigned_ucast_eq take_bit_nat_eq_self)
  then show ?thesis using that e d True by (auto simp: DeriveChainId_def Let_def)
next
  case False
  then have "35 \<le> unat v" by simp
  then have "unat ((v - 35) div 2) = (unat v - 35) div 2"
    by (simp add: unat_div unat_sub word_le_nat_alt)
  then show ?thesis using False by (auto simp: DeriveChainId_def)
qed

lemma unat_u256_27: "v = 27 \<longleftrightarrow> unat (v :: u256) = 27" "v = 28 \<longleftrightarrow> unat (v :: u256) = 28"
  unfolding word_unat_eq_iff by simp_all

lemma isProtectedV_wf: "unat v \<in> {27, 28} \<Longrightarrow> \<not> isProtectedV v" "35 \<le> unat v \<Longrightarrow> isProtectedV v"
proof -
  have u: "unat (ucast v :: uint64) = unat v" if "unat v < 2 ^ 8"
    using that by (simp add: unsigned_ucast_eq take_bit_nat_eq_self)
  show "unat v \<in> {27, 28} \<Longrightarrow> \<not> isProtectedV v" "35 \<le> unat v \<Longrightarrow> isProtectedV v"
    using u by (auto simp: isProtectedV_def Let_def word_unat_eq_iff)
qed

lemma big_Bytes_27: "big_Bytes 27 = [27]" "big_Bytes 28 = [28]"
  by (simp_all add: big_Bytes_pos)

lemma GetDecodedV_legacy:
  assumes "unat (tx_V c) \<in> {27, 28} \<or> 35 \<le> unat (tx_V c)"
  shows "\<exists>w. GetDecodedV (LegacyTx c p) (tx_V c) = Inr w \<and> big_Bytes (unat w) = [v_byte (tx_V c)]"
  using assms
proof
  let ?v = "tx_V c"
  assume a: "unat ?v \<in> {27, 28}"
  then have "?v = 27 \<or> ?v = 28" by (simp add: unat_u256_27)
  then have "big_Bytes (unat ?v) = [v_byte ?v]" by (auto simp: big_Bytes_27 v_byte_def)
  then show ?thesis using a by (simp add: GetDecodedV_def isProtectedV_wf)
next
  let ?v = "tx_V c"
  assume a: "35 \<le> unat ?v"
  define q where "q = (unat ?v - 35) mod 2"
  have d: "unat (DeriveChainId ?v) = (unat ?v - 35) div 2" using a by (subst DeriveChainId_unat) auto
  have "unat ?v - 35 = 2 * unat (DeriveChainId ?v) + q" unfolding d q_def by simp
  then have "unat ?v = 35 + 2 * unat (DeriveChainId ?v) + q" using a by linarith
  then have "uint ?v = 35 + 2 * uint (DeriveChainId ?v) + int q"
    unfolding uint_nat by linarith
  then have t: "uint ?v + 27 - uint (DeriveChainId ?v) * 2 - 35 = int (27 + q)" by simp
  have "GetDecodedV (LegacyTx c p) ?v = Inr (of_int (int (27 + q)))"
    using isProtectedV_wf(2) [OF a] unfolding GetDecodedV_def Let_def
    by (simp only: Protected.simps GetChainID.simps deref_Some rbind_Inr t not_True_eq_False if_False)
  moreover have "v_byte ?v = of_nat (27 + q)" using a by (simp add: v_byte_def q_def)
  moreover have "q = 0 \<or> q = 1" unfolding q_def by linarith
  ultimately show ?thesis by (auto simp: big_Bytes_27)
qed

lemma TransactionToL2Data_legacy:
  assumes "wf_tx (LegacyTx c (Some p))" "length (rlp (Slice (map Bytes (tx_fields c p)))) < 2 ^ 64"
  shows "TransactionToL2Data (LegacyTx c (Some p)) forkId pct =
    Inr (rlp (Slice (map Bytes (tx_fields c p))) @ u256_Bytes32 (tx_R c) @ u256_Bytes32 (tx_S c) @
         v_byte (tx_V c) # (if forkId \<ge> ForkID5Dragonfruit then [pct] else []))"
proof -
  have v: "unat (tx_V c) \<in> {27, 28} \<or> 35 \<le> unat (tx_V c)" using assms(1) by (simp add: wf_tx_def)
  obtain w where w: "GetDecodedV (LegacyTx c (Some p)) (tx_V c) = Inr w" "big_Bytes (unat w) = [v_byte (tx_V c)]"
    using GetDecodedV_legacy [OF v] by blast
  have "DeriveChainId (tx_V c) \<noteq> 0 \<or> \<not> (tx_V c = 27 \<or> tx_V c = 28) \<longleftrightarrow> \<not> unat (tx_V c) < 35"
    using v DeriveChainId_unat [OF v] by (auto simp: unat_u256_27 word_unat_eq_iff)
  moreover have "removeLeadingZeroesFromBytes (u256_Bytes x) = u256_Bytes x" for x
    by (simp add: u256_Bytes_def)
  ultimately show ?thesis
    using w EncodeToBytes_rlp [OF assms(2)]
    by (simp add: TransactionToL2Data_def GetNonce_def GetGas_def GetValue_def GetTo_def GetData_def
        RawSignatureValues_def tx_fields_def Let_def u256_Bytes_def Uint8ToBytes_def split: if_splits)
qed

lemma u256_SetBytes_big [simp]: "u256_SetBytes (big_Bytes (unat w)) = w"
  using u256_SetBytes_Bytes(1) [of w] by (simp add: u256_Bytes_def)

lemma v_byte_back:
  assumes "unat v \<in> {27, 28} \<or> 35 \<le> unat v"
  shows "int (SetBytes [v_byte v]) =
    (if unat v < 35 then int (unat v) else 27 + int ((unat v - 35) mod 2))"
proof (cases "unat v < 35")
  case True
  then have "unat v = 27 \<or> unat v = 28" using assms by auto
  then have "v = 27 \<or> v = 28" by (simp add: unat_u256_27)
  then show ?thesis by (auto simp: v_byte_def SetBytes_Cons)
next
  case False
  have "(unat v - 35) mod 2 = 0 \<or> (unat v - 35) mod 2 = 1" by linarith
  then show ?thesis using False by (auto simp: v_byte_def SetBytes_Cons)
qed

lemma txV_back:
  assumes "35 \<le> unat v"
  shows "nat \<bar>(int (SetBytes [v_byte v]) - 27) + (int (unat (DeriveChainId v)) * 2 + 35)\<bar> = unat v"
proof -
  have d: "unat (DeriveChainId v) = (unat v - 35) div 2" using assms by (subst DeriveChainId_unat) auto
  define q where "q = (unat v - 35) mod 2"
  have "unat v - 35 = 2 * unat (DeriveChainId v) + q" unfolding d q_def by simp
  then have "int (unat v) = 35 + 2 * int (unat (DeriveChainId v)) + int q" using assms by linarith
  moreover have "int (SetBytes [v_byte v]) = 27 + int q"
    using v_byte_back [of v] assms by (simp add: q_def)
  ultimately have "(int (SetBytes [v_byte v]) - 27) + (int (unat (DeriveChainId v)) * 2 + 35) = int (unat v)"
    by linarith
  then show ?thesis by (simp only: abs_of_nat nat_int)
qed

lemma fields_to_tx:
  assumes "wf_tx (LegacyTx c (Some p))"
  shows "rlpFieldsToLegacyTx (tx_fields c p) [v_byte (tx_V c)] (u256_Bytes32 (tx_R c)) (u256_Bytes32 (tx_S c)) =
    Inr (decoded_tx (LegacyTx c (Some p)))"
proof -
  have v: "unat (tx_V c) \<in> {27, 28} \<or> 35 \<le> unat (tx_V c)" using assms by (simp add: wf_tx_def)
  have to: "(if (case tx_To c of None \<Rightarrow> [] | Some a \<Rightarrow> a) \<noteq> []
      then Some (BytesToAddress (case tx_To c of None \<Rightarrow> [] | Some a \<Rightarrow> a)) else None) = tx_To c"
    using assms by (auto simp: wf_tx_def split: option.splits)
  show ?thesis
  proof (cases "unat (tx_V c) < 35")
    case True
    then have "DeriveChainId (tx_V c) = 0" "nat \<bar>int (SetBytes [v_byte (tx_V c)])\<bar> = unat (tx_V c)"
      using v DeriveChainId_unat [OF v] v_byte_back [OF v] by (auto simp: word_unat_eq_iff)
    then show ?thesis using True to
      by (simp add: rlpFieldsToLegacyTx_def tx_fields_def Let_def del: if_split)
        (cases c; auto simp: u256_Bytes_def split: if_splits)
  next
    case False
    then have "nat \<bar>(int (SetBytes [v_byte (tx_V c)]) - 27) +
        (int (unat (DeriveChainId (tx_V c))) * 2 + 35)\<bar> = unat (tx_V c)"
      by (intro txV_back) simp
    then show ?thesis using False to
      by (simp add: rlpFieldsToLegacyTx_def tx_fields_def Let_def del: if_split)
        (cases c; auto simp: u256_Bytes_def split: if_splits)
  qed
qed

section \<open>Positions in the batch data\<close>

lemma of_nat_le_uint64: "m < 2 ^ 64 \<Longrightarrow> n < 2 ^ 64 \<Longrightarrow> (of_nat m :: uint64) \<le> of_nat n \<longleftrightarrow> m \<le> n"
  by (simp add: word_le_nat_alt unat_of_nat_small)

lemma of_nat_less_uint64: "m < 2 ^ 64 \<Longrightarrow> n < 2 ^ 64 \<Longrightarrow> (of_nat m :: uint64) < of_nat n \<longleftrightarrow> m < n"
  by (simp add: word_less_nat_alt unat_of_nat_small)

lemma slice_mid:
  assumes "length a + length b < 2 ^ 64" "lo = of_nat (length a)" "hi = of_nat (length a + length b)"
    "d = a @ b @ c"
  shows "slice d spare lo hi = Inr b"
proof -
  have "unat lo = length a" "unat hi = length a + length b"
    unfolding assms(2,3) by (rule unat_of_nat_small, use assms(1) in simp)+
  then show ?thesis using assms(4) by (simp add: slice_def word_le_nat_alt)
qed

lemma ParseUint_hex_byte: "ParseUint_hex [b] = Inr (ucast b)"
proof -
  have "SetBytes [b] < 2 ^ 64" using byte_less [of b] by (simp add: SetBytes_Cons)
  moreover have "of_nat (SetBytes [b]) = (ucast b :: uint64)" by (simp add: SetBytes_Cons)
  ultimately show ?thesis by (simp add: ParseUint_hex_def)
qed

lemma decode_step_header:
  assumes "txsData = pre @ b # post" "d_pos st = of_nat (length pre)" "length txsData < 2 ^ 63" "\<not> b < 0xC0"
  shows "decode_step txsData spare forkID st =
    rbind (headerLength txsData spare st (ucast b)) (\<lambda>l. case l of
       Inl ret \<Rightarrow> Inr ret | Inr len \<Rightarrow> transaction_step txsData spare forkID st len)"
proof -
  have s: "slice txsData spare (d_pos st) (d_pos st + 1) = Inr [b]"
    using assms(1-3) by (intro slice_mid [of pre "[b]" _ _ _ post]) simp_all
  have "unat (ucast b :: uint64) = unat b" using byte_less [of b] by (simp add: unsigned_ucast_eq take_bit_nat_eq_self)
  then have "\<not> (ucast b :: uint64) < 192" "(ucast b :: uint64) \<noteq> 11"
    using assms(4) by (auto simp: word_less_nat_alt)
  then show ?thesis
    by (simp add: decode_step_def s ParseUint_hex_byte changeL2BlockTxType_def del: of_nat_add)
qed

lemma headerLength_rlp_list:
  assumes "txsData = pre @ rlp_list pl @ post" "d_pos st = of_nat (length pre)" "length txsData < 2 ^ 63"
  shows "headerLength txsData spare st (ucast (hd (rlp_list pl))) = Inr (Inr (of_nat (length (rlp_list pl) - 1)))"
    and "\<not> hd (rlp_list pl) < 0xC0"
proof -
  let ?m = "length pl"
  have m: "?m < 2 ^ 64" using assms(1,3) length_rlp_list [of pl] by simp
  have "headerLength txsData spare st (ucast (hd (rlp_list pl))) = Inr (Inr (of_nat (length (rlp_list pl) - 1))) \<and>
    \<not> hd (rlp_list pl) < 0xC0"
  proof (cases "?m < 56")
    case True
    note t = tag_small [OF True]
    have h: "rlp_list pl = (0xC0 + of_nat ?m) # pl" by (simp add: rlp_list_def puthead_small True)
    have "unat (0xC0 + of_nat ?m :: byte) = 192 + ?m"
      using True by (simp add: unat_word_ariths unat_of_nat_byte)
    then have "(ucast (0xC0 + of_nat ?m :: byte) :: uint64) = of_nat (192 + ?m)"
      using of_nat_unat by metis
    then have "(ucast (0xC0 + of_nat ?m :: byte) :: uint64) - 192 = of_nat ?m" by simp
    moreover have "\<not> (55 :: uint64) < of_nat ?m"
      using True of_nat_less_uint64 [of 55 ?m] by simp
    ultimately show ?thesis using t(3) by (simp add: headerLength_def h Let_def)
  next
    case False
    let ?b = "putint (of_nat ?m)" and ?k = "length (putint (of_nat ?m))"
    note k = length_putint_bounds(1,2) [of "of_nat ?m"]
    note t = tag_large [OF k]
    have h: "rlp_list pl = (0xF7 + of_nat ?k) # ?b @ pl"
      using False m by (simp add: rlp_list_def puthead_large)
    have "unat (0xF7 + of_nat ?k :: byte) = 247 + ?k"
      using k by (simp add: unat_word_ariths unat_of_nat_byte)
    then have n: "(ucast (0xF7 + of_nat ?k :: byte) :: uint64) = of_nat (247 + ?k)"
      using of_nat_unat by metis
    have l: "\<not> of_nat (length pre + 1 + ?k) > (of_nat (length txsData) :: uint64)"
      using assms(1,3) by (subst of_nat_less_uint64) (simp_all add: h)
    have g: "(of_nat (247 + ?k) :: uint64) - 192 > 55"
      using k of_nat_less_uint64 [of 55 "55 + ?k"] by simp
    have s: "slice txsData spare (of_nat (length pre + 1)) (of_nat (length pre + 1 + ?k)) = Inr ?b"
      using assms(1,3) by (intro slice_mid [of "pre @ [0xF7 + of_nat ?k]" ?b _ _ _ "pl @ post"]) (simp_all add: h)
    have p: "ParseUint_hex ?b = Inr (of_nat ?m)"
      using k m by (auto simp: ParseUint_hex_def unat_of_nat_small)
    have e: "of_nat (length pre + 1) + of_nat (247 + ?k) - 247 = (of_nat (length pre + 1 + ?k) :: uint64)"
      "d_pos st + 1 = of_nat (length pre + 1)" "of_nat ?m + of_nat (247 + ?k) - 247 = (of_nat (?m + ?k) :: uint64)"
      by (simp_all add: assms(2))
    have "\<not> of_nat (?m + 247 + ?k) < (of_nat 247 :: uint64)"
      using assms(1,3) k by (subst of_nat_less_uint64) (simp_all add: h)
    then have f: "\<not> of_nat ?m + of_nat (247 + ?k) < (247 :: uint64)" by (simp add: add.assoc)
    have c: "\<not> (0xF7 + of_nat ?k :: byte) < 0xC0" by (rule tag_order(3)) (rule t)
    show ?thesis
      unfolding headerLength_def Let_def h list.sel n e
      by (simp only: g l s p f if_True if_False rbind_Inr sum.case) (simp add: c)
  qed
  then show "headerLength txsData spare st (ucast (hd (rlp_list pl))) = Inr (Inr (of_nat (length (rlp_list pl) - 1)))"
    "\<not> hd (rlp_list pl) < 0xC0" by blast+
qed

lemma headerLength_hd:
  "rlp_list pl \<noteq> []"
  by (auto simp: rlp_list_def puthead_def Let_def)

lemma transaction_step_encoded:
  assumes d: "txsData = pre @ info @ R @ S @ vb # eff @ post" and pos: "d_pos st = of_nat (length pre)"
    and l: "length txsData < 2 ^ 63" "length R = 32" "length S = 32" "info \<noteq> []"
    and eff: "eff = (if forkID \<ge> ucast ForkID5Dragonfruit then [pct] else [])"
    and dec: "DecodeBytes info = Inr fs" "rlpFieldsToLegacyTx fs [vb] R S = Inr tx"
  shows "transaction_step txsData spare forkID st (of_nat (length info - 1)) =
    Inr (Next (st\<lparr>d_pos := of_nat (length pre + length info + 65 + length eff),
      d_current := (d_current st)\<lparr>
        EffectiveGasPricePercentages := EffectiveGasPricePercentages (d_current st) @ eff,
        Transactions := Transactions (d_current st) @ [tx]\<rparr>\<rparr>))"
proof -
  let ?p = "length pre" and ?i = "length info"
  obtain j where i: "?i = Suc j" using l(4) by (cases info) simp_all
  have ds: "d_pos st + of_nat (?i - 1) + 1 = of_nat (?p + ?i)" by (simp add: pos i)
  have ds': "of_nat (?p + ?i) + 32 = (of_nat (?p + ?i + 32) :: uint64)"
    "of_nat (?p + ?i + 32) + 32 = (of_nat (?p + ?i + 64) :: uint64)"
    "of_nat (?p + ?i + 64) + 1 = (of_nat (?p + ?i + 65) :: uint64)" by simp_all
  have en: "d_pos st + of_nat (?i - 1) + 32 + 32 + 1 + 1 + (if forkID \<ge> ucast ForkID5Dragonfruit then 1 else 0) =
    of_nat (?p + ?i + 65 + length eff)" by (simp add: pos i eff)
  have n: "\<not> of_nat (?p + ?i + 65 + length eff) > (of_nat (length txsData) :: uint64)"
    "\<not> of_nat (?p + ?i + 65 + length eff) < d_pos st"
    unfolding pos not_less by (subst of_nat_le_uint64; use l in \<open>simp add: d\<close>)+
  have s: "slice txsData spare (d_pos st) (of_nat (?p + ?i + 65 + length eff)) = Inr (info @ R @ S @ vb # eff)"
    "slice txsData spare (d_pos st) (of_nat (?p + ?i)) = Inr info"
    "slice txsData spare (of_nat (?p + ?i)) (of_nat (?p + ?i + 32)) = Inr R"
    "slice txsData spare (of_nat (?p + ?i + 32)) (of_nat (?p + ?i + 64)) = Inr S"
    "slice txsData spare (of_nat (?p + ?i + 64)) (of_nat (?p + ?i + 65)) = Inr [vb]"
    "slice txsData spare (of_nat (?p + ?i + 65)) (of_nat (?p + ?i + 65 + length eff)) = Inr eff"
    using l d
    by (intro slice_mid [of pre "info @ R @ S @ vb # eff" _ _ _ post] slice_mid [of pre info _ _ _ "R @ S @ vb # eff @ post"]
      slice_mid [of "pre @ info" R _ _ _ "S @ vb # eff @ post"] slice_mid [of "pre @ info @ R" S _ _ _ "vb # eff @ post"]
      slice_mid [of "pre @ info @ R @ S" "[vb]" _ _ _ "eff @ post"] slice_mid [of "pre @ info @ R @ S @ [vb]" eff _ _ _ post];
      simp add: pos)+
  show ?thesis
    unfolding transaction_step_def Let_def en ds ds'
    by (simp only: n s if_False rbind_Inr dec sum.case) (simp add: eff idx_def)
qed

section \<open>Batches\<close>

text \<open>The bytes of one transaction of a batch.\<close>

definition enc_tx :: "uint16 \<Rightarrow> BatchTxData \<Rightarrow> byte list" where
  "enc_tx forkId t = (case bt_Transaction t of
     LegacyTx c (Some p) \<Rightarrow> rlp (Slice (map Bytes (tx_fields c p))) @ u256_Bytes32 (tx_R c) @
        u256_Bytes32 (tx_S c) @ v_byte (tx_V c) #
        (if forkId \<ge> ForkID5Dragonfruit then [bt_EffectiveGasPricePercentage t] else [])
   | _ \<Rightarrow> [])"

lemma ucast_fork_le: "(ucast ForkID5Dragonfruit :: uint64) \<le> ucast forkId \<longleftrightarrow> ForkID5Dragonfruit \<le> forkId"
  using unsigned_less [of forkId, where ?'a = nat]
  by (simp add: word_le_nat_alt unsigned_ucast_eq take_bit_nat_eq_self ForkID5Dragonfruit_def)

definition add_txs :: "uint16 \<Rightarrow> BatchTxData list \<Rightarrow> DecodedBatchL2Data \<Rightarrow> DecodedBatchL2Data" where
  "add_txs forkId ts cur = cur\<lparr>
     EffectiveGasPricePercentages := EffectiveGasPricePercentages cur @
       (if forkId \<ge> ForkID5Dragonfruit then map bt_EffectiveGasPricePercentage ts else []),
     Transactions := Transactions cur @ map (\<lambda>t. decoded_tx (bt_Transaction t)) ts\<rparr>"

lemma wf_txE:
  assumes "wf_tx tx" obtains c p where "tx = LegacyTx c (Some p)"
  using assms by (cases tx) (auto simp: wf_tx_def)

lemma decode_step_tx:
  assumes d: "txsData = pre @ enc_tx forkId t @ post" and pos: "d_pos st = of_nat (length pre)"
    and l: "length txsData < 2 ^ 63" and wf: "wf_tx (bt_Transaction t)"
  shows "decode_step txsData spare (ucast forkId) st =
    Inr (Next (st\<lparr>d_pos := of_nat (length pre + length (enc_tx forkId t)),
      d_current := add_txs forkId [t] (d_current st)\<rparr>))" "enc_tx forkId t \<noteq> []"
proof -
  obtain c p where t: "bt_Transaction t = LegacyTx c (Some p)" using wf by (rule wf_txE)
  define fs where "fs = tx_fields c p"
  define info where "info = rlp_list (concat (map rlp_string fs))"
  define eff where "eff = (if ForkID5Dragonfruit \<le> forkId then [bt_EffectiveGasPricePercentage t] else [])"
  have e: "enc_tx forkId t = info @ u256_Bytes32 (tx_R c) @ u256_Bytes32 (tx_S c) @ v_byte (tx_V c) # eff"
    by (simp add: enc_tx_def t info_def fs_def eff_def rlp_Slice_Bytes del: rlp.simps)
  then show "enc_tx forkId t \<noteq> []" by simp
  have dd: "txsData = pre @ info @ u256_Bytes32 (tx_R c) @ u256_Bytes32 (tx_S c) @ v_byte (tx_V c) # eff @ post"
    using d e by simp
  then have di: "txsData = pre @ rlp_list (concat (map rlp_string fs)) @
      (u256_Bytes32 (tx_R c) @ u256_Bytes32 (tx_S c) @ v_byte (tx_V c) # eff @ post)"
    by (simp add: info_def)
  note hl = headerLength_rlp_list [OF di pos l, folded info_def]
  have ne: "info \<noteq> []" unfolding info_def by (rule headerLength_hd)
  have dec: "DecodeBytes info = Inr fs"
    using DecodeBytes_iff [of info fs] l dd unfolding rlp_Slice_Bytes info_def by simp
  have tx: "rlpFieldsToLegacyTx fs [v_byte (tx_V c)] (u256_Bytes32 (tx_R c)) (u256_Bytes32 (tx_S c)) =
      Inr (decoded_tx (bt_Transaction t))"
    using fields_to_tx [of c p] wf by (simp add: t fs_def)
  have eff': "eff = (if ucast ForkID5Dragonfruit \<le> (ucast forkId :: uint64) then [bt_EffectiveGasPricePercentage t] else [])"
    by (simp add: eff_def ucast_fork_le)
  have dh: "txsData = pre @ hd info # (tl info @ u256_Bytes32 (tx_R c) @ u256_Bytes32 (tx_S c) @ v_byte (tx_V c) # eff @ post)"
    using dd ne by (cases info) simp_all
  show "decode_step txsData spare (ucast forkId) st =
    Inr (Next (st\<lparr>d_pos := of_nat (length pre + length (enc_tx forkId t)),
      d_current := add_txs forkId [t] (d_current st)\<rparr>))"
    unfolding decode_step_header [OF dh pos l hl(2)] hl(1)
    using transaction_step_encoded [OF dd pos l length_u256_Bytes32 length_u256_Bytes32 ne eff' dec tx, of spare]
    by (simp add: e add_txs_def eff_def add.assoc)
qed

lemma add_txs_Cons: "add_txs forkId ts (add_txs forkId [t] cur) = add_txs forkId (t # ts) cur"
  by (simp add: add_txs_def)

lemma decode_txs:
  assumes "txsData = pre @ concat (map (enc_tx forkId) ts) @ post" "d_pos st = of_nat (length pre)"
    and "length txsData < 2 ^ 63" "\<forall>t\<in>set ts. wf_tx (bt_Transaction t)"
  shows "decode_loop txsData spare (ucast forkId) st = decode_loop txsData spare (ucast forkId)
    (st\<lparr>d_pos := of_nat (length pre + length (concat (map (enc_tx forkId) ts))),
      d_current := add_txs forkId ts (d_current st)\<rparr>)"
  using assms
proof (induction ts arbitrary: pre st)
  case Nil
  then have "st\<lparr>d_pos := of_nat (length pre)\<rparr> = st" by (cases st) simp
  then show ?case by (simp add: add_txs_def)
next
  case (Cons t ts)
  let ?e = "enc_tx forkId t"
  have d: "txsData = pre @ ?e @ (concat (map (enc_tx forkId) ts) @ post)" using Cons.prems(1) by simp
  have wf: "wf_tx (bt_Transaction t)" using Cons.prems(4) by simp
  note step = decode_step_tx [OF d Cons.prems(2,3) wf]
  have "length pre < length txsData" using step(2) d by simp
  then have "d_pos st < of_nat (length txsData)"
    using Cons.prems(2,3) of_nat_less_uint64 [of "length pre" "length txsData"] by simp
  then have "decode_loop txsData spare (ucast forkId) st = decode_loop txsData spare (ucast forkId)
      (st\<lparr>d_pos := of_nat (length pre + length ?e), d_current := add_txs forkId [t] (d_current st)\<rparr>)"
    by (subst decode_loop.simps) (simp add: step(1) del: of_nat_add)
  also have "\<dots> = decode_loop txsData spare (ucast forkId)
      (st\<lparr>d_pos := of_nat (length (pre @ ?e) + length (concat (map (enc_tx forkId) ts))),
        d_current := add_txs forkId (t # ts) (d_current st)\<rparr>)"
    using Cons.IH [of "pre @ ?e" "st\<lparr>d_pos := of_nat (length pre + length ?e),
        d_current := add_txs forkId [t] (d_current st)\<rparr>"] Cons.prems(1,3,4)
    by (simp add: add_txs_Cons del: of_nat_add)
  finally show ?case by (simp add: add.assoc)
qed

lemma length_puthead_le: "length (puthead a b i) \<le> 9"
  using length_putint_bounds(2) [of i] by (simp add: puthead_def Let_def)

lemma length_rlp_string_le:
  "length (rlp_string b) \<le> length b + 9" "length b < 56 \<Longrightarrow> length (rlp_string b) \<le> length b + 1"
  using length_puthead_le by (auto simp: rlp_string_def puthead_small)

lemma length_tx_rlp:
  assumes "wf_tx (LegacyTx c (Some p))"
  shows "length (rlp (Slice (map Bytes (tx_fields c p)))) \<le> length (tx_Data c) + 158"
proof -
  have b: "length (rlp_string (removeLeadingZeroesFromBytes (Uint64ToBytes x))) \<le> 9" for x
    using length_dropWhile_le [of "\<lambda>b. b = 0" "Uint64ToBytes x"]
      length_rlp_string_le(2) [of "removeLeadingZeroesFromBytes (Uint64ToBytes x)"]
    by (simp add: removeLeadingZeroesFromBytes_def)
  have u: "length (rlp_string (u256_Bytes w)) \<le> 33" for w
    using length_rlp_string_le(2) [of "u256_Bytes w"] length_u256_Bytes [of w] by simp
  have a: "length (rlp_string (case tx_To c of None \<Rightarrow> [] | Some a \<Rightarrow> a)) \<le> 21"
    using assms length_rlp_string_le(2) [of "case tx_To c of None \<Rightarrow> [] | Some a \<Rightarrow> a"]
    by (auto simp: wf_tx_def split: option.splits)
  have d: "length (rlp_string (tx_Data c)) \<le> length (tx_Data c) + 9" "length (rlp_string []) \<le> 1"
    using length_rlp_string_le(1) [of "tx_Data c"] length_rlp_string_le(2) [of "[]"] by simp_all
  let ?v = "case tx_Value c of None \<Rightarrow> 0 | Some v \<Rightarrow> v"
  have "length (concat (map rlp_string (tx_fields c p))) \<le> length (tx_Data c) + 149"
    using b [of "tx_Nonce c"] u [of p] b [of "tx_Gas c"] a u [of ?v] d u [of "DeriveChainId (tx_V c)"]
    unfolding tx_fields_def by simp
  then show ?thesis
    using length_puthead_le [of "0xC0" "0xF7" "of_nat (length (concat (map rlp_string (tx_fields c p))))"]
    unfolding rlp_Slice_Bytes rlp_list_def by simp
qed

lemma length_enc_tx:
  assumes "wf_tx (bt_Transaction t)"
  shows "length (enc_tx forkId t) \<le> length (GetData (bt_Transaction t)) + 224"
proof -
  obtain c p where t: "bt_Transaction t = LegacyTx c (Some p)" using assms by (rule wf_txE)
  then show ?thesis
    using length_tx_rlp [of c p] assms by (simp add: enc_tx_def GetData_def del: rlp.simps)
qed

lemma TransactionToL2Data_enc:
  assumes "wf_tx (bt_Transaction t)"
  shows "TransactionToL2Data (bt_Transaction t) forkId (bt_EffectiveGasPricePercentage t) = Inr (enc_tx forkId t)"
proof -
  obtain c p where t: "bt_Transaction t = LegacyTx c (Some p)" using assms by (rule wf_txE)
  then have w: "wf_tx (LegacyTx c (Some p))" using assms by simp
  then have "length (rlp (Slice (map Bytes (tx_fields c p)))) < 2 ^ 64"
    using length_tx_rlp [OF w] by (simp add: wf_tx_def)
  then show ?thesis
    unfolding enc_tx_def t by (simp add: TransactionToL2Data_legacy [OF w])
qed

lemma encodeTransactions_enc:
  "\<forall>t\<in>set ts. wf_tx (bt_Transaction t) \<Longrightarrow>
   encodeTransactions forkId ts acc = Inr (acc @ concat (map (enc_tx forkId) ts))"
  by (induction ts arbitrary: acc) (simp_all add: TransactionToL2Data_enc)

type_synonym block = "uint32 \<times> uint32 \<times> BatchTxData list"

fun enc_block :: "uint16 \<Rightarrow> block \<Rightarrow> byte list" where
  "enc_block forkId (delta, index, ts) =
     GenerateStartBlockBatchL2Data delta index @ concat (map (enc_tx forkId) ts)"

text \<open>A block as the decoder returns it.\<close>

fun dec_block :: "uint16 \<Rightarrow> block \<Rightarrow> DecodedBatchL2Data" where
  "dec_block forkId (delta, index, ts) =
     (add_txs forkId ts emptyData)\<lparr>DeltaTimestamp := delta, L1InfoTreeIndex := index\<rparr>"

fun wf_block :: "block \<Rightarrow> bool" where
  "wf_block (delta, index, ts) \<longleftrightarrow> (\<forall>t\<in>set ts. wf_tx (bt_Transaction t))"

lemma decode_step_block:
  assumes d: "txsData = pre @ GenerateStartBlockBatchL2Data delta index @ post"
    and pos: "d_pos st = of_nat (length pre)" and l: "length txsData < 2 ^ 63"
  shows "decode_step txsData spare forkID st = Inr (Next
    ((if pre \<noteq> [] \<or> ucast (drop_bit 24 delta) = changeL2BlockTxType
      then st\<lparr>d_result := seal st, d_current := emptyData\<rparr> else st)
     \<lparr>d_delta := delta, d_index := index, d_pos := of_nat (length pre + 9)\<rparr>))"
proof -
  let ?D = "AppendUint32 [] delta" and ?I = "AppendUint32 [] index"
  have dd: "txsData = pre @ [11] @ (?D @ ?I @ post)"
    using d by (simp add: GenerateStartBlockBatchL2Data_def AppendUint32_def changeL2BlockTxType_def)
  have le: "length ?D = 4" "length ?I = 4" by (simp_all add: AppendUint32_def)
  have s: "slice txsData spare (d_pos st) (d_pos st + 1) = Inr [11]"
    "slice txsData spare (d_pos st + 1) (d_pos st + 5) = Inr ?D"
    "slice txsData spare (d_pos st + 5) (d_pos st + 9) = Inr ?I"
    using l dd le
    by (intro slice_mid [of pre "[11]" _ _ _ "?D @ ?I @ post"] slice_mid [of "pre @ [11]" ?D _ _ _ "?I @ post"]
        slice_mid [of "pre @ [11] @ ?D" ?I _ _ _ post]; simp add: pos)+
  have h: "d_pos st > 0 \<longleftrightarrow> pre \<noteq> []"
    using of_nat_less_uint64 [of 0 "length pre"] l dd by (simp add: pos)
  have i: "idx txsData (Suc 0) = Inr (ucast (drop_bit 24 delta))" if "pre = []"
    using that dd by (simp add: idx_def AppendUint32_def)
  show ?thesis
    unfolding decode_step_def s rbind_Inr ParseUint_hex_byte changeBlock_step_def h Let_def
    by (cases "pre = []")
      (simp_all add: i BigEndian_AppendUint32 changeL2BlockTxType_def changeL2BlockLength_def pos)
qed

lemma decode_block_loop:
  assumes d: "txsData = pre @ enc_block forkId (delta, index, ts) @ post"
    and pos: "d_pos st = of_nat (length pre)" and l: "length txsData < 2 ^ 63"
    and wf: "wf_block (delta, index, ts)"
    and start: "st' = (if pre \<noteq> [] \<or> ucast (drop_bit 24 delta) = changeL2BlockTxType
      then st\<lparr>d_result := seal st, d_current := emptyData\<rparr> else st)"
  shows "decode_loop txsData spare (ucast forkId) st = decode_loop txsData spare (ucast forkId)
    (st'\<lparr>d_delta := delta, d_index := index,
      d_pos := of_nat (length (pre @ enc_block forkId (delta, index, ts))),
      d_current := add_txs forkId ts (d_current st')\<rparr>)"
proof -
  let ?G = "GenerateStartBlockBatchL2Data delta index" and ?T = "concat (map (enc_tx forkId) ts)"
  have d1: "txsData = pre @ ?G @ (?T @ post)" and d2: "txsData = (pre @ ?G) @ ?T @ post" using d by simp_all
  have g: "length ?G = 9" by (simp add: GenerateStartBlockBatchL2Data_def AppendUint32_def)
  define st1 where "st1 = st'\<lparr>d_delta := delta, d_index := index, d_pos := of_nat (length pre + 9)\<rparr>"
  have "length pre < length txsData" using d1 g by simp
  then have "d_pos st < of_nat (length txsData)"
    using pos l of_nat_less_uint64 [of "length pre" "length txsData"] by simp
  then have "decode_loop txsData spare (ucast forkId) st = decode_loop txsData spare (ucast forkId) st1"
    by (subst decode_loop.simps)
      (simp only: decode_step_block [OF d1 pos l] start [symmetric] st1_def if_True sum.case outcome.case)
  also have "\<dots> = decode_loop txsData spare (ucast forkId)
      (st1\<lparr>d_pos := of_nat (length (pre @ ?G) + length ?T), d_current := add_txs forkId ts (d_current st1)\<rparr>)"
    using wf g by (intro decode_txs [OF d2 _ l]) (simp_all add: st1_def)
  finally show ?thesis by (simp add: st1_def add.assoc)
qed

lemma decode_blocks:
  assumes "txsData = pre @ concat (map (enc_block forkId) bs) @ post" "d_pos st = of_nat (length pre)"
    and "length txsData < 2 ^ 63" "\<forall>b\<in>set bs. wf_block b" "pre \<noteq> []"
  shows "\<exists>st'. decode_loop txsData spare (ucast forkId) st = decode_loop txsData spare (ucast forkId) st' \<and>
    d_pos st' = of_nat (length txsData - length post) \<and> seal st' = seal st @ map (dec_block forkId) bs \<and>
    d_result st' = (if bs = [] then d_result st else seal st @ map (dec_block forkId) (butlast bs))"
  using assms
proof (induction bs arbitrary: pre st)
  case Nil
  then show ?case by (intro exI [of _ st]) simp
next
  case (Cons b bs)
  obtain delta index ts where b: "b = (delta, index, ts)" by (cases b)
  let ?E = "enc_block forkId (delta, index, ts)"
  have d: "txsData = pre @ ?E @ (concat (map (enc_block forkId) bs) @ post)" using Cons.prems(1) b by simp
  define st1 where "st1 = st\<lparr>d_result := seal st, d_delta := delta, d_index := index,
     d_pos := of_nat (length (pre @ ?E)), d_current := add_txs forkId ts emptyData\<rparr>"
  have wf: "wf_block (delta, index, ts)" using Cons.prems(4) b by simp
  have "decode_loop txsData spare (ucast forkId) st = decode_loop txsData spare (ucast forkId) st1"
    using decode_block_loop [OF d Cons.prems(2,3) wf refl, of spare] Cons.prems(5) by (simp add: st1_def)
  moreover have "seal st1 = seal st @ [dec_block forkId b]" "d_result st1 = seal st"
    by (simp_all add: b st1_def seal_def)
  moreover have "\<exists>st'. decode_loop txsData spare (ucast forkId) st1 = decode_loop txsData spare (ucast forkId) st' \<and>
      d_pos st' = of_nat (length txsData - length post) \<and> seal st' = seal st1 @ map (dec_block forkId) bs \<and>
      d_result st' = (if bs = [] then d_result st1 else seal st1 @ map (dec_block forkId) (butlast bs))"
    using Cons.prems d by (intro Cons.IH [of "pre @ ?E"]) (simp_all add: st1_def del: of_nat_add)
  ultimately show ?case by auto
qed

primrec batch_data :: "uint16 \<Rightarrow> block list \<Rightarrow> byte list result" where
  "batch_data forkId [] = Inr []"
| "batch_data forkId (b # bs) = rbind (case b of (delta, index, ts) \<Rightarrow>
       GenerateBlockBatchL2Data forkId delta index ts) (\<lambda>data.
     rbind (batch_data forkId bs) (\<lambda>rest. Inr (data @ rest)))"

lemma batch_data_enc:
  assumes "ForkID7Etrog \<le> forkId" "\<forall>b\<in>set bs. wf_block b"
  shows "batch_data forkId bs = Inr (concat (map (enc_block forkId) bs))"
  using assms(2)
  by (induction bs) (auto simp: GenerateBlockBatchL2Data_def encodeTransactions_enc assms(1))

lemma decode_generated:
  assumes "ForkID7Etrog \<le> forkId" "\<forall>b\<in>set (b # bs). wf_block b"
    and "batch_data forkId (b # bs) = Inr data" "length (data @ post) < 2 ^ 63"
    and spurious: "R = (if ucast (drop_bit 24 (fst b)) = changeL2BlockTxType then [emptyData] else [])"
  shows "\<exists>st. DecodeBatchL2Blocks (data @ post) spare (ucast forkId) =
      decode_loop (data @ post) spare (ucast forkId) st \<and> d_pos st = of_nat (length data) \<and>
    seal st = R @ map (dec_block forkId) (b # bs) \<and> d_result st = R @ map (dec_block forkId) (butlast (b # bs))"
proof -
  obtain delta index ts where b: "b = (delta, index, ts)" by (cases b)
  let ?E = "enc_block forkId (delta, index, ts)"
  define all where "all = data @ post"
  have l: "length all < 2 ^ 63" using assms(4) by (simp add: all_def)
  have d: "data = ?E @ concat (map (enc_block forkId) bs)"
    using batch_data_enc [OF assms(1,2)] assms(3) by (simp add: b)
  define st0 where "st0 = \<lparr>d_pos = 0, d_result = [], d_current = emptyData, d_delta = 0, d_index = 0\<rparr>"
  have E: "?E \<noteq> []" by (simp add: GenerateStartBlockBatchL2Data_def AppendUint32_def)
  have wf: "wf_block (delta, index, ts)" "\<forall>b\<in>set bs. wf_block b" using assms(2) b by simp_all
  define st1 where "st1 = \<lparr>d_pos = of_nat (length ?E), d_result = R,
    d_current = add_txs forkId ts emptyData, d_delta = delta, d_index = index\<rparr>"
  have "(if [] \<noteq> ([] :: byte list) \<or> ucast (drop_bit 24 delta) = changeL2BlockTxType
    then st0\<lparr>d_result := seal st0, d_current := emptyData\<rparr> else st0) = st0\<lparr>d_result := R\<rparr>"
    by (simp add: spurious b st0_def seal_def emptyData_def)
  from decode_block_loop [of all "[]" forkId delta index ts
      "concat (map (enc_block forkId) bs) @ post" st0, OF _ _ l wf(1) this [symmetric], of spare]
  have s1: "decode_loop all spare (ucast forkId) st0 = decode_loop all spare (ucast forkId) st1"
    by (simp add: all_def d st0_def st1_def)
  have "all = ?E @ concat (map (enc_block forkId) bs) @ post" by (simp add: all_def d)
  from decode_blocks [OF this _ l wf(2) E, of st1 spare]
  obtain st2 where "decode_loop all spare (ucast forkId) st1 = decode_loop all spare (ucast forkId) st2"
    "d_pos st2 = of_nat (length data)" "seal st2 = seal st1 @ map (dec_block forkId) bs"
    "d_result st2 = (if bs = [] then d_result st1 else seal st1 @ map (dec_block forkId) (butlast bs))"
    by (auto simp: st1_def all_def)
  moreover have "seal st1 = R @ [dec_block forkId b]" "d_result st1 = R" by (simp_all add: seal_def st1_def b)
  moreover have "(of_nat (length all) :: uint64) \<noteq> 0"
    using of_nat_less_uint64 [of 0 "length all"] l E by (simp add: all_def d)
  then have "DecodeBatchL2Blocks all spare (ucast forkId) = decode_loop all spare (ucast forkId) st0"
    by (simp only: DecodeBatchL2Blocks_def st0_def if_False)
  ultimately show ?thesis using s1 by (intro exI [of _ st2]) (auto simp: all_def)
qed

text \<open>
  C20. Round trip of the batch data from the Etrog fork on: when \<open>GenerateBlockBatchL2Data\<close> encodes a
  sequence of blocks one after another, \<open>DecodeBatchL2Blocks\<close> returns the same blocks: their time
  stamps, L1 info tree indices, effective percentages and transactions (with the chain id derived from
  \<open>V\<close>), in order and with a nil error. Only when the first block's time delta starts with the byte
  11 does the decoder take it for a block boundary and return an empty block in front of them.
\<close>
theorem DecodeBatchL2Blocks_roundtrip:
  assumes "ForkID7Etrog \<le> forkId" "\<forall>b\<in>set (b # bs). wf_block b"
    and "batch_data forkId (b # bs) = Inr data" "length data < 2 ^ 63"
  shows "DecodeBatchL2Blocks data spare (ucast forkId) =
    Inr ((if ucast (drop_bit 24 (fst b)) = changeL2BlockTxType then [emptyData] else []) @
         map (dec_block forkId) (b # bs), None)"
proof -
  have "length (data @ []) < 2 ^ 63" using assms(4) by simp
  from decode_generated [OF assms(1-3) this refl, of spare] obtain st where
    "DecodeBatchL2Blocks data spare (ucast forkId) = decode_loop data spare (ucast forkId) st"
    "d_pos st = of_nat (length data)"
    "seal st = (if ucast (drop_bit 24 (fst b)) = changeL2BlockTxType then [emptyData] else []) @
       map (dec_block forkId) (b # bs)" by auto
  then show ?thesis by (subst (asm) decode_loop.simps) simp
qed

definition sample_tx :: BatchTxData where
  "sample_tx = \<lparr>bt_Transaction = LegacyTx \<lparr>tx_ChainID = None, tx_Nonce = 1, tx_Gas = 21000,
     tx_To = Some (replicate 20 7), tx_Value = None, tx_Data = [1, 2], tx_V = 2037, tx_R = 5, tx_S = 6\<rparr> (Some 9),
     bt_EffectiveGasPricePercentage = 255\<rparr>"

lemma sample_tx_wf: "wf_tx (bt_Transaction sample_tx)"
  by (simp add: sample_tx_def wf_tx_def)

lemma sample_data:
  "\<exists>data. batch_data 9 [(3, 1, [sample_tx]), (0x0B000000, 2, [])] = Inr data \<and> length data < 1000"
proof -
  have l: "length (GenerateStartBlockBatchL2Data d i) = 9" for d i
    by (simp add: GenerateStartBlockBatchL2Data_def AppendUint32_def)
  have "length (enc_tx 9 sample_tx) \<le> 226"
    using length_enc_tx [OF sample_tx_wf, of 9] by (simp add: sample_tx_def GetData_def)
  then show ?thesis
    using batch_data_enc [of 9 "[(3, 1, [sample_tx]), (0x0B000000, 2, [])]"] sample_tx_wf
    by (simp add: ForkID7Etrog_def l)
qed

theorem DecodeBatchL2Blocks_roundtrip_witness:
  "\<exists>data. batch_data 9 [(3, 1, [sample_tx]), (0x0B000000, 2, [])] = Inr data \<and>
     DecodeBatchL2Blocks data [] 9 = Inr (map (dec_block 9) [(3, 1, [sample_tx]), (0x0B000000, 2, [])], None)"
proof -
  obtain data where d: "batch_data 9 [(3, 1, [sample_tx]), (0x0B000000, 2, [])] = Inr data" "length data < 2 ^ 63"
    using sample_data by force
  have "DecodeBatchL2Blocks data [] (ucast (9 :: uint16)) =
    Inr (map (dec_block 9) [(3, 1, [sample_tx]), (0x0B000000, 2, [])], None)"
    using DecodeBatchL2Blocks_roundtrip [OF _ _ d, of "[]"] sample_tx_wf
    by (simp add: ForkID7Etrog_def changeL2BlockTxType_def)
  then show ?thesis using d by simp
qed

lemma slice_ok:
  assumes "unat lo \<le> unat hi" "unat hi \<le> length b"
  obtains xs where "slice b spare lo hi = Inr xs" "length xs = unat hi - unat lo"
  using assms by (auto simp: slice_def word_le_nat_alt)

lemma headerLength_safe:
  assumes "d_pos st < of_nat (length txsData)" "length txsData < 2 ^ 63" "unat num < 256" "192 \<le> unat num"
  shows "\<exists>r. headerLength txsData spare st num = Inr r \<and> (\<forall>len. r = Inr len \<longrightarrow> unat len + 67 < 2 ^ 64)"
proof (cases "num - 192 > 55")
  case False
  then have "unat (num - 192) + 67 < 2 ^ 64" by (simp add: word_less_nat_alt)
  then show ?thesis using False by (simp add: headerLength_def Let_def)
next
  case True
  have "unat (num - 192) = unat num - 192" using assms(4) by (subst unat_sub) (simp_all add: word_le_nat_alt)
  then have n: "247 < unat num" using True by (simp add: word_less_nat_alt)
  have p: "unat (d_pos st) < length txsData"
    using assms(1,2) by (simp add: word_less_nat_alt unat_of_nat_small)
  have u1: "unat (d_pos st + 1) = unat (d_pos st) + 1"
    using p assms(2) by (subst unat_plus) simp_all
  have u2: "unat (d_pos st + 1 + num) = unat (d_pos st) + 1 + unat num"
    using p assms(2,3) u1 by (subst unat_plus) simp_all
  have u3: "unat (d_pos st + 1 + num - 247) = unat (d_pos st) + 1 + unat num - 247"
    using u2 n by (subst unat_sub) (simp_all add: word_le_nat_alt)
  have w: "unat (n + num - 247) + 67 < 2 ^ 64" if "\<not> n + num < 247" for n :: uint64
    using that unsigned_less [of "n + num", where ?'a = nat] by (subst unat_sub) (simp_all add: word_less_nat_alt word_le_nat_alt)
  show ?thesis
  proof (cases "d_pos st + 1 + num - 247 > of_nat (length txsData)")
    case True
    then show ?thesis using \<open>num - 192 > 55\<close> by (simp add: headerLength_def Let_def)
  next
    case False
    then have le: "unat (d_pos st + 1 + num - 247) \<le> length txsData"
      using assms(2) by (simp add: word_less_nat_alt unat_of_nat_small del: word_less_nat_alt [symmetric])
    have "unat (d_pos st + 1) \<le> unat (d_pos st + 1 + num - 247)" using u1 u3 n by linarith
    from slice_ok [OF this le]
    obtain xs where "slice txsData spare (d_pos st + 1) (d_pos st + 1 + num - 247) = Inr xs" by blast
    then show ?thesis
      using \<open>num - 192 > 55\<close> False w unfolding headerLength_def Let_def
      by (cases "ParseUint_hex xs") (simp_all del: not_less)
  qed
qed

lemma unat_plus_small:
  fixes p :: uint64
  assumes "unat p + n < 2 ^ 64" shows "unat (p + of_nat n) = unat p + n"
  using assms by (subst unat_plus) (simp_all add: unat_of_nat_small)

lemma slice_at:
  fixes p :: uint64
  assumes "a \<le> b" "unat p + b \<le> length d" "length d < 2 ^ 63"
  obtains xs where "slice d spare (p + of_nat a) (p + of_nat b) = Inr xs" "length xs = b - a"
proof -
  have "unat (p + of_nat a) = unat p + a" "unat (p + of_nat b) = unat p + b"
    using assms by (auto intro!: unat_plus_small)
  then show thesis using slice_ok [of "p + of_nat a" "p + of_nat b" d spare] assms that by auto
qed

lemma wrap_mod: "M \<le> x \<Longrightarrow> x < M + M \<Longrightarrow> x mod M = x - (M :: nat)"
  by (simp add: le_mod_geq)

lemma transaction_step_safe:
  assumes "d_pos st < of_nat (length txsData)" "length txsData < 2 ^ 63" "unat len + 67 < 2 ^ 64"
  shows "\<exists>r. transaction_step txsData spare forkID st len = Inr r"
proof -
  define e where "e = (if forkID \<ge> ucast ForkID5Dragonfruit then 1 else 0 :: nat)"
  define q where "q = unat len + 66 + e"
  have p: "unat (d_pos st) < length txsData"
    using assms(1,2) by (simp add: word_less_nat_alt unat_of_nat_small)
  have qn: "q < 2 ^ 64" "e \<le> 1" using assms(3) by (simp_all add: q_def e_def)
  define endPos where "endPos = d_pos st + of_nat q"
  have en: "d_pos st + len + 32 + 32 + 1 + 1 + (if forkID \<ge> ucast ForkID5Dragonfruit then 1 else 0) = endPos"
    by (simp add: endPos_def q_def e_def)
  show ?thesis
  proof (cases "endPos > of_nat (length txsData) \<or> endPos < d_pos st")
    case True
    then show ?thesis unfolding transaction_step_def Let_def en by auto
  next
    case False
    have nowrap: "unat (d_pos st) + q < 2 ^ 64"
    proof (rule ccontr)
      assume n: "\<not> ?thesis"
      have "unat endPos = (unat (d_pos st) + q) mod 2 ^ 64"
        using qn by (simp add: endPos_def unat_word_ariths unat_of_nat_small)
      also have "\<dots> = unat (d_pos st) + q - 2 ^ 64"
        by (rule wrap_mod) (use n p assms(2) qn in simp_all)
      finally have "unat endPos = unat (d_pos st) + q - 2 ^ 64" .
      moreover have "\<not> unat endPos < unat (d_pos st)" using False by (simp add: word_less_nat_alt)
      ultimately show False using n qn by linarith
    qed
    then have le: "unat (d_pos st) + q \<le> length txsData"
      using False unat_plus_small [OF nowrap] assms(2)
      by (simp add: endPos_def word_less_nat_alt unat_of_nat_small not_less)
    let ?L = "unat len"
    have sl: "\<exists>xs. slice txsData spare (d_pos st + of_nat a) (d_pos st + of_nat b) = Inr xs \<and> length xs = b - a"
      if "a \<le> b" "b \<le> q" for a b
      using slice_at [of a b "d_pos st" txsData spare] that le assms(2) by fastforce
    have eq: "d_pos st + len + 1 = d_pos st + of_nat (?L + 1)"
      "d_pos st + of_nat (?L + 1) + 32 = d_pos st + of_nat (?L + 33)"
      "d_pos st + of_nat (?L + 33) + 32 = d_pos st + of_nat (?L + 65)"
      "d_pos st + of_nat (?L + 65) + 1 = d_pos st + of_nat (?L + 66)" by simp_all
    have "d_pos st + of_nat 0 = d_pos st" by simp
    note sl0 = sl [of 0, unfolded this]
    obtain x1 where 1: "slice txsData spare (d_pos st) endPos = Inr x1"
      using sl0 [of q] by (auto simp: endPos_def)
    obtain x2 where 2: "slice txsData spare (d_pos st) (d_pos st + of_nat (?L + 1)) = Inr x2"
      using sl0 [of "?L + 1"] by (auto simp: q_def simp del: of_nat_add)
    obtain x3 where 3: "slice txsData spare (d_pos st + of_nat (?L + 1)) (d_pos st + of_nat (?L + 33)) = Inr x3"
      using sl [of "?L + 1" "?L + 33"] by (auto simp: q_def simp del: of_nat_add)
    obtain x4 where 4: "slice txsData spare (d_pos st + of_nat (?L + 33)) (d_pos st + of_nat (?L + 65)) = Inr x4"
      using sl [of "?L + 33" "?L + 65"] by (auto simp: q_def simp del: of_nat_add)
    obtain x5 where 5: "slice txsData spare (d_pos st + of_nat (?L + 65)) (d_pos st + of_nat (?L + 66)) = Inr x5"
      using sl [of "?L + 65" "?L + 66"] by (auto simp: q_def simp del: of_nat_add)
    obtain x6 where 6: "slice txsData spare (d_pos st + of_nat (?L + 66)) endPos = Inr x6" "length x6 = e"
      using sl [of "?L + 66" q] by (auto simp: endPos_def q_def simp del: of_nat_add)
    obtain pct where pct: "(if forkID \<ge> ucast ForkID5Dragonfruit
        then rbind (slice txsData spare (d_pos st + of_nat (?L + 66)) endPos) (\<lambda>efficiencyPercentage.
             rbind (idx efficiencyPercentage 0) (\<lambda>p. Inr [p])) else Inr []) = Inr pct"
      using 6 by (cases "forkID \<ge> ucast ForkID5Dragonfruit") (auto simp: e_def idx_def length_Suc_conv)
    have c: "\<not> endPos > of_nat (length txsData)" "\<not> endPos < d_pos st" using False by blast+
    show ?thesis
      unfolding transaction_step_def Let_def en eq
      by (simp only: c if_False 1 2 3 4 5 pct rbind_Inr) (auto split: sum.split)
  qed
qed

lemma changeBlock_step_safe:
  assumes "length txsData < 2 ^ 63" "unat (d_pos st) + 9 \<le> length txsData"
  shows "\<exists>r. changeBlock_step txsData spare st = Inr r"
proof -
  obtain x where "slice txsData spare (d_pos st + of_nat 1) (d_pos st + of_nat 5) = Inr x" "length x = 5 - 1"
    by (rule slice_at [of 1 5 "d_pos st" txsData spare]) (use assms in simp_all)
  moreover obtain y where "slice txsData spare (d_pos st + of_nat 5) (d_pos st + of_nat 9) = Inr y" "length y = 9 - 5"
    by (rule slice_at [of 5 9 "d_pos st" txsData spare]) (use assms in simp_all)
  moreover have "idx txsData (unat (d_pos st + 1)) = Inr (txsData ! unat (d_pos st + 1))"
    using unat_plus_small [of "d_pos st" 1] assms by (simp add: idx_def)
  ultimately show ?thesis by (simp add: changeBlock_step_def Let_def BigEndian_Uint32_def)
qed

lemma decode_step_safe:
  assumes "d_pos st < of_nat (length txsData)" "length txsData < 2 ^ 63"
    and "decode_step txsData spare forkID st = Inl e"
  shows "txsData ! unat (d_pos st) = changeL2BlockTxType \<and> length txsData < unat (d_pos st) + 9"
proof -
  let ?P = "unat (d_pos st)"
  have p: "?P < length txsData"
    using assms(1,2) by (simp add: word_less_nat_alt unat_of_nat_small)
  define b where "b = txsData ! ?P"
  have h: "slice txsData spare (d_pos st) (d_pos st + 1) = Inr [b]"
    using id_take_nth_drop [OF p, folded b_def] p assms(2)
    by (intro slice_mid [of "take ?P txsData" "[b]" _ _ _ "drop (Suc ?P) txsData"]) simp_all
  have u: "unat (ucast b :: uint64) = unat b"
    using byte_less [of b] by (simp add: unsigned_ucast_eq take_bit_nat_eq_self)
  have c: "(ucast b :: uint64) = ucast changeL2BlockTxType \<longleftrightarrow> b = changeL2BlockTxType"
    using u by (simp add: word_unat_eq_iff changeL2BlockTxType_def)
  have ds: "decode_step txsData spare forkID st =
    (if b = changeL2BlockTxType then changeBlock_step txsData spare st
     else if (ucast b :: uint64) < 192 then Inr (Return (d_result st) (Some ErrInvalidData))
     else rbind (headerLength txsData spare st (ucast b)) (\<lambda>l. case l of
       Inl ret \<Rightarrow> Inr ret | Inr len \<Rightarrow> transaction_step txsData spare forkID st len))"
    by (simp only: decode_step_def h rbind_Inr ParseUint_hex_byte sum.case c)
  show ?thesis
  proof (cases "b = changeL2BlockTxType")
    case True
    then have "changeBlock_step txsData spare st = Inl e" using assms(3) ds by simp
    then have "\<not> ?P + 9 \<le> length txsData" using changeBlock_step_safe [OF assms(2), of st spare] by auto
    then show ?thesis using True by (simp add: b_def)
  next
    case False
    then have ge: "\<not> (ucast b :: uint64) < 192" using assms(3) ds by (simp split: if_splits)
    then have "unat (ucast b :: uint64) < 256" "192 \<le> unat (ucast b :: uint64)"
      using u byte_less [of b] by (simp_all add: word_less_nat_alt)
    from headerLength_safe [OF assms(1,2) this, of spare] obtain r where
      r: "headerLength txsData spare st (ucast b) = Inr r" "\<forall>len. r = Inr len \<longrightarrow> unat len + 67 < 2 ^ 64"
      by blast
    have "\<exists>x. (case r of Inl ret \<Rightarrow> Inr ret | Inr len \<Rightarrow> transaction_step txsData spare forkID st len) = Inr x"
      using r(2) transaction_step_safe [OF assms(1,2)] by (cases r) simp_all
    then show ?thesis using assms(3) unfolding ds r(1) by (simp add: False ge)
  qed
qed

text \<open>
  C21. On hostile input the decoder does not crash, with one exception: whatever the bytes, it returns
  (blocks or an error), unless the data has a byte 11 (the type of a block header) with fewer than the
  eight bytes of a header after it, where it may panic.
  No wrap-around of the \<open>uint64\<close> positions leads to a slice out of range.
\<close>
theorem DecodeBatchL2Blocks_panics_only_on_cut_header:
  assumes "length txsData < 2 ^ 63" "DecodeBatchL2Blocks txsData spare forkID = Inl e"
  shows "\<exists>pre rest. txsData = pre @ changeL2BlockTxType # rest \<and> length rest < 8"
proof -
  have "decode_loop txsData spare forkID st = Inl e \<Longrightarrow>
    \<exists>pre rest. txsData = pre @ changeL2BlockTxType # rest \<and> length rest < 8" for st
    using assms(1)
  proof (induction txsData spare forkID st rule: decode_loop.induct)
    case (1 txsData spare forkID st)
    have p: "d_pos st < of_nat (length txsData)"
      using 1(2) by (subst (asm) decode_loop.simps) (simp split: if_splits)
    show ?case
    proof (cases "decode_step txsData spare forkID st")
      case (Inl e')
      note s = decode_step_safe [OF p 1(3) Inl]
      have "unat (d_pos st) < length txsData"
        using p 1(3) by (simp add: word_less_nat_alt unat_of_nat_small)
      from id_take_nth_drop [OF this] s show ?thesis
        by (intro exI [of _ "take (unat (d_pos st)) txsData"] exI [of _ "drop (Suc (unat (d_pos st))) txsData"]) auto
    next
      case (Inr r)
      then obtain st' where "r = Next st'" "decode_loop txsData spare forkID st' = Inl e"
        using 1(2) p by (subst (asm) decode_loop.simps) (auto split: outcome.splits)
      then show ?thesis using 1(1) [OF p Inr] 1(3) by blast
    qed
  qed
  then show ?thesis using assms(2) by (auto simp: DecodeBatchL2Blocks_def split: if_splits)
qed

theorem DecodeBatchL2Blocks_panics_only_on_cut_header_witness:
  "\<exists>pre rest. [changeL2BlockTxType, 0] = pre @ changeL2BlockTxType # rest \<and> length rest < 8"
proof (rule DecodeBatchL2Blocks_panics_only_on_cut_header)
  show "DecodeBatchL2Blocks [changeL2BlockTxType, 0] [] 9 = Inl (Panic ''slice bounds out of range'')"
    unfolding DecodeBatchL2Blocks_def
    by (subst decode_loop.simps) (simp add: decode_step_def slice_def ParseUint_hex_byte
        changeBlock_step_def idx_def changeL2BlockTxType_def Let_def)
qed simp

text \<open>
  C24. A long RLP header at the end of the data whose length bytes are cut off is not reported: after a
  generated batch, a byte of at least 0xF8 followed by fewer bytes than it announces makes the decoder
  return a nil error and drop the last block of the batch, transactions included.
\<close>
theorem truncated_header_drops_last_block:
  assumes "ForkID7Etrog \<le> forkId" "\<forall>b\<in>set (b # bs). wf_block b"
    and "batch_data forkId (b # bs) = Inr data" "length (data @ h # short) < 2 ^ 63"
    and "0xF8 \<le> h" "length short < unat h - 247"
  shows "DecodeBatchL2Blocks (data @ h # short) spare (ucast forkId) =
    Inr ((if ucast (drop_bit 24 (fst b)) = changeL2BlockTxType then [emptyData] else []) @
         map (dec_block forkId) (butlast (b # bs)), None)"
proof -
  let ?all = "data @ h # short"
  obtain st where st: "DecodeBatchL2Blocks ?all spare (ucast forkId) = decode_loop ?all spare (ucast forkId) st"
    "d_pos st = of_nat (length data)"
    "d_result st = (if ucast (drop_bit 24 (fst b)) = changeL2BlockTxType then [emptyData] else []) @
         map (dec_block forkId) (butlast (b # bs))"
    using decode_generated [OF assms(1-4) refl, of spare] by blast
  have h: "unat (ucast h :: uint64) = unat h" "248 \<le> unat h"
    using byte_less [of h] assms(5) by (simp_all add: unsigned_ucast_eq take_bit_nat_eq_self word_le_nat_alt)
  have "ucast h = (of_nat (unat h) :: uint64)" by simp
  then obtain k where k: "ucast h = (of_nat (247 + k) :: uint64)" "unat h = 247 + k" "0 < k"
    using h(2) by (intro that [of "unat h - 247"]) simp_all
  have "\<not> h < 0xC0" using h by (simp add: word_less_nat_alt)
  note step = decode_step_header [OF refl st(2) assms(4) this]
  have g: "(of_nat (247 + k) :: uint64) - 192 > 55"
    using k byte_less [of h] of_nat_less_uint64 [of 55 "55 + k"] by simp
  have "of_nat (length ?all) < (of_nat (length data + 1 + k) :: uint64)"
    using assms(4,6) k byte_less [of h] by (subst of_nat_less_uint64) simp_all
  then have "d_pos st + 1 + of_nat (247 + k) - 247 > of_nat (length ?all)"
    by (simp add: st(2) algebra_simps)
  then have "decode_step ?all spare (ucast forkId) st = Inr (Return (d_result st) None)"
    unfolding step headerLength_def Let_def k(1) by (simp only: g if_True rbind_Inr sum.case)
  moreover have "d_pos st < of_nat (length ?all)"
    using of_nat_less_uint64 [of "length data" "length ?all"] assms(4) by (simp add: st(2))
  ultimately show ?thesis
    unfolding st(1) by (subst decode_loop.simps) (simp only: if_True sum.case outcome.case st(3))
qed

theorem truncated_header_drops_last_block_witness:
  "\<exists>data. batch_data 9 [(3, 1, [sample_tx]), (0x0B000000, 2, [])] = Inr data \<and>
     DecodeBatchL2Blocks (data @ [0xF9, 1]) [] 9 = Inr ([dec_block 9 (3, 1, [sample_tx])], None)"
proof -
  obtain data where d: "batch_data 9 [(3, 1, [sample_tx]), (0x0B000000, 2, [])] = Inr data"
    "length (data @ 0xF9 # [1]) < 2 ^ 63"
    using sample_data by fastforce
  have "DecodeBatchL2Blocks (data @ 0xF9 # [1]) [] (ucast (9 :: uint16)) =
    Inr ([dec_block 9 (3, 1, [sample_tx])], None)"
    using truncated_header_drops_last_block [OF _ _ d, of "[]"] sample_tx_wf
    by (simp add: ForkID7Etrog_def changeL2BlockTxType_def)
  then show ?thesis using d by simp
qed

text \<open>
  C25. Generating a block never fails on the transactions the format carries, and its size is bounded by
  their call data: nine bytes for the block and at most 224 bytes more than its data for each transaction.
\<close>
theorem GenerateBlockBatchL2Data_size:
  assumes "\<forall>t\<in>set ts. wf_tx (bt_Transaction t)"
  shows "\<exists>data. GenerateBlockBatchL2Data forkId delta index ts = Inr data \<and>
    length data \<le> 9 + (\<Sum>t\<leftarrow>ts. length (GetData (bt_Transaction t)) + 224)"
proof -
  have "length (concat (map (enc_tx forkId) ts)) \<le> (\<Sum>t\<leftarrow>ts. length (GetData (bt_Transaction t)) + 224)"
    unfolding length_concat map_map comp_def
    using assms by (intro sum_list_mono) (simp add: length_enc_tx)
  then show ?thesis
    using encodeTransactions_enc [OF assms, of forkId]
    by (auto simp: GenerateBlockBatchL2Data_def GenerateStartBlockBatchL2Data_def AppendUint32_def)
qed

theorem GenerateBlockBatchL2Data_size_witness:
  "\<exists>data. GenerateBlockBatchL2Data 9 3 1 [sample_tx, sample_tx] = Inr data \<and> length data \<le> 461"
  using GenerateBlockBatchL2Data_size [of "[sample_tx, sample_tx]" 9 3 1] sample_tx_wf
  by (simp add: sample_tx_def GetData_def)

end
