(* ===== verification/ZkBatchCounters.thy ===== *)
theory ZkBatchCounters
  imports ZkCounterTable TxCodec
begin

text \<open>
  The counters of a transaction and of a batch (\<open>core/vm/zk_transaction_counters.go\<close> and
  \<open>core/vm/zk_batch_counters.go\<close>). The batch collector and its callers share the transaction
  counters by pointer: the virtual machine keeps charging a transaction after it was added to the
  batch. They live in a store, and the collector holds their addresses. The percentage of
  \<open>gCounterLimitPercentage\<close> is the argument \<open>pct\<close>, the square root of the 256-bit integers the
  argument \<open>u256_Sqrt\<close>.
\<close>

section \<open>Hexadecimal digits\<close>

definition u256_Hex :: "u256 \<Rightarrow> string" where
  "u256_Hex x = ''0x'' @ hex_nat (unat x)"

definition AddLeadingZeroToHexValueForByteCompletion :: "string \<Rightarrow> string" where
  "AddLeadingZeroToHexValueForByteCompletion v = (if odd (length v) then CHR ''0'' # v else v)"

definition has0xPrefix :: "string \<Rightarrow> bool" where
  "has0xPrefix s \<longleftrightarrow> length s \<ge> 2 \<and> s ! 0 = CHR ''0'' \<and> (s ! 1 = CHR ''x'' \<or> s ! 1 = CHR ''X'')"

definition Remove0xPrefixIfExists :: "string \<Rightarrow> string" where
  "Remove0xPrefixIfExists v = (if has0xPrefix v then drop 2 v else v)"

section \<open>Transaction counters\<close>

record TransactionCounter =
  tc_transaction :: Transaction
  tc_rlpCounters :: CounterCollector
  tc_executionCounters :: CounterCollector
  tc_processingCounters :: CounterCollector
  tc_smtLevels :: goint
  tc_forkId :: uint16
  tc_l2DataCache :: "byte list option"

definition NewTransactionCounter ::
  "goint \<Rightarrow> Transaction \<Rightarrow> goint \<Rightarrow> uint16 \<Rightarrow> rat \<Rightarrow> bool \<Rightarrow> TransactionCounter" where
  "NewTransactionCounter pct transaction smtMaxLevel forkId mcpReduction shouldCountersBeUnlimited =
     (let totalLevel = calculateSmtLevels smtMaxLevel 32 mcpReduction;
          fresh = (if shouldCountersBeUnlimited then NewUnlimitedCounterCollector
                   else NewCounterCollector pct totalLevel forkId)
      in \<lparr>tc_transaction = transaction, tc_rlpCounters = fresh,
          tc_executionCounters = SetTransaction transaction fresh, tc_processingCounters = fresh,
          tc_smtLevels = (if shouldCountersBeUnlimited then 1 else totalLevel),
          tc_forkId = forkId, tc_l2DataCache = None\<rparr>)"

text \<open>The loop of \<open>CombineCountersInto\<close> from index \<open>k\<close>, over the entries of the RLP counters.\<close>

fun combine_loop :: "TransactionCounter \<Rightarrow> nat \<Rightarrow> Counters \<Rightarrow> Counters \<Rightarrow> Counters result" where
  "combine_loop tc k [] combined = Inr combined"
| "combine_loop tc k (v # vs) combined =
     rbind (deref v) (\<lambda>r.
     rbind (counter_at (cc_counters (tc_executionCounters tc)) k) (\<lambda>e.
     rbind (counter_at (cc_counters (tc_processingCounters tc)) k) (\<lambda>p.
     rbind (idx combined k) (\<lambda>c.
     rbind (set_counter combined k
              ((case c of None \<Rightarrow> zeroCounter | Some c \<Rightarrow> c)\<lparr>used := used r + used e + used p\<rparr>)) (\<lambda>combined.
     combine_loop tc (Suc k) vs combined)))))"

definition CombineCountersInto :: "TransactionCounter \<Rightarrow> Counters \<Rightarrow> Counters result" where
  "CombineCountersInto tc combined = combine_loop tc 0 (cc_counters (tc_rlpCounters tc)) combined"

definition CombineCounters :: "TransactionCounter \<Rightarrow> Counters result" where
  "CombineCounters tc = CombineCountersInto tc NewCounters"

definition TransactionCounter_Clone :: "TransactionCounter \<Rightarrow> TransactionCounter result" where
  "TransactionCounter_Clone tc =
     rbind (CounterCollector_Clone (tc_rlpCounters tc)) (\<lambda>r.
     rbind (CounterCollector_Clone (tc_executionCounters tc)) (\<lambda>e.
     rbind (CounterCollector_Clone (tc_processingCounters tc)) (\<lambda>p.
     Inr \<lparr>tc_transaction = tc_transaction tc, tc_rlpCounters = r, tc_executionCounters = e,
          tc_processingCounters = p, tc_smtLevels = tc_smtLevels tc, tc_forkId = 0,
          tc_l2DataCache = tc_l2DataCache tc\<rparr>)))"

definition MaxEffectivePercentage :: uint8 where "MaxEffectivePercentage = 255"

definition GetL2DataCache :: "TransactionCounter \<Rightarrow> (byte list \<times> TransactionCounter) result" where
  "GetL2DataCache tc =
     (case tc_l2DataCache tc of
        Some data \<Rightarrow> Inr (data, tc)
      | None \<Rightarrow> rbind (TransactionToL2Data (tc_transaction tc) 8 MaxEffectivePercentage) (\<lambda>data.
          Inr (data, tc\<lparr>tc_l2DataCache := Some data\<rparr>)))"

text \<open>Byte length of a number written in hexadecimal, with or without the \<open>0x\<close> prefix.\<close>

definition hex_bytes :: "string \<Rightarrow> goint" where
  "hex_bytes s = of_nat (length (AddLeadingZeroToHexValueForByteCompletion s) div 2)"

text \<open>The charges of \<open>CalculateRlp\<close> for the encoded bytes \<open>raw\<close> of a transaction.\<close>

definition rlp_charges ::
  "(u256 \<Rightarrow> u256 option) \<Rightarrow> Transaction \<Rightarrow> byte list \<Rightarrow> u256 \<Rightarrow> u256 \<Rightarrow> u256 \<Rightarrow> cop list" where
  "rlp_charges u256_Sqrt tx raw price value chainId =
     (let gasLimitLength = hex_bytes (hex_nat (unat (GetGas tx)));
         gasPriceLength = hex_bytes (Remove0xPrefixIfExists (u256_Hex price));
         valueLength = hex_bytes (Remove0xPrefixIfExists (u256_Hex value));
         chainIdLength = hex_bytes (Remove0xPrefixIfExists (u256_Hex chainId));
         nonceLength = hex_bytes (hex_nat (unat (GetNonce tx)));
         txRlpLength = of_nat (length raw) :: goint;
         txDataLen = of_nat (length (GetData tx)) :: goint;
         (v, r, s) = RawSignatureValues tx;
         rlp56 = ceilI_plus (txRlpLength + 1) 56 3
      in [Deduct CK_S 250, Deduct CK_B (1 + 1), Deduct CK_K (ceilI (txRlpLength + 1) 136),
          Deduct CK_P rlp56, Deduct CK_D rlp56, multiCall addBatchHashData 21, Deduct CK_S (6 * 7),
          getLenBytes 3, getLenBytes gasPriceLength, getLenBytes gasLimitLength, getLenBytes valueLength,
          (if sint txDataLen \<ge> 56 then getLenBytes txDataLen else Inr),
          getLenBytes chainIdLength, getLenBytes nonceLength, divArith,
          multiCall addHashTx (9 + signed_drop_bit 5 txDataLen),
          multiCall addL2HashTx (8 + signed_drop_bit 5 txDataLen),
          multiCall addBatchHashByteByByte txDataLen, SHLarith,
          \<lambda>cc. rbind (GetDecodedV tx v) (\<lambda>v. ecRecover u256_Sqrt v r s False cc)])"

definition CalculateRlp ::
  "goint \<Rightarrow> (u256 \<Rightarrow> u256 option) \<Rightarrow> TransactionCounter \<Rightarrow> TransactionCounter result" where
  "CalculateRlp pct u256_Sqrt tc =
     rbind (GetL2DataCache tc) (\<lambda>(raw, tc).
     rbind (deref (GetPrice (tc_transaction tc))) (\<lambda>price.
     rbind (deref (GetValue (tc_transaction tc))) (\<lambda>value.
     rbind (deref (GetChainID (tc_transaction tc))) (\<lambda>chainId.
     rbind (run (rlp_charges u256_Sqrt (tc_transaction tc) raw price value chainId)
              (NewCounterCollector pct (tc_smtLevels tc) (tc_forkId tc))) (\<lambda>collector.
     Inr (tc\<lparr>tc_rlpCounters := collector\<rparr>))))))"

text \<open>The charges of \<open>ProcessTx\<close> for the size of the called or deployed code.\<close>

definition process_charges :: "TransactionCounter \<Rightarrow> goint \<Rightarrow> bool \<Rightarrow> cop list" where
  "process_charges tc byteCodeLength isDeploy =
     [Deduct CK_S 300,
      (if tc_forkId tc \<ge> ForkId13Durian then Deduct CK_B (12 + 7) else Deduct CK_B (11 + 7)),
      Deduct CK_P (14 * tc_smtLevels tc), Deduct CK_D 5, Deduct CK_A 2, Deduct CK_K 1,
      multiCall isColdAddress 2, multiCall addArith 3, subArith, divArith, multiCall mulArith 4,
      fillBlockInfoTreeWithTxReceipt,
      processContractCall (tc_smtLevels tc) byteCodeLength isDeploy False False]"

definition ProcessTx ::
  "goint \<Rightarrow> (Address \<Rightarrow> goint) \<Rightarrow> byte list \<Rightarrow> TransactionCounter \<Rightarrow> TransactionCounter result" where
  "ProcessTx pct codeSize returnData tc =
     (let (byteCodeLength, isDeploy) =
            (case GetTo (tc_transaction tc) of
               None \<Rightarrow> (of_nat (length returnData), True)
             | Some toAddress \<Rightarrow> (codeSize toAddress, False))
      in rbind (run (process_charges tc byteCodeLength isDeploy)
           (NewCounterCollector pct (tc_smtLevels tc) (tc_forkId tc))) (\<lambda>cc.
         Inr (tc\<lparr>tc_processingCounters := cc\<rparr>)))"

definition ExecutionCounters :: "TransactionCounter \<Rightarrow> CounterCollector" where
  "ExecutionCounters tc = tc_executionCounters tc"

definition ProcessingCounters :: "TransactionCounter \<Rightarrow> CounterCollector" where
  "ProcessingCounters tc = tc_processingCounters tc"

section \<open>The batch collector\<close>

type_synonym tcref = nat
type_synonym store = "tcref \<rightharpoonup> TransactionCounter"

record BatchCounterCollector =
  l2DataCollector :: "CounterCollector option"
  transactions :: "tcref list"
  smtLevels :: goint
  smtLevelsForTransaction :: goint
  blockCount :: goint
  forkId :: uint16
  bcc_unlimited :: bool
  addonCounters :: "Counters option"
  rlpCombinedCounters :: Counters
  executionCombinedCounters :: Counters
  processingCombinedCounters :: Counters

definition bcc_NewCounters :: "goint \<Rightarrow> BatchCounterCollector \<Rightarrow> Counters" where
  "bcc_NewCounters pct bcc =
     (if bcc_unlimited bcc then createCountrsByLimits unlimitedCounters
      else getCounterLimits pct (forkId bcc))"

definition NewBatchCounterCollector ::
  "goint \<Rightarrow> goint \<Rightarrow> uint16 \<Rightarrow> rat \<Rightarrow> bool \<Rightarrow> Counters option \<Rightarrow> BatchCounterCollector" where
  "NewBatchCounterCollector pct smtMaxLevel fork mcpReduction unlimited addon =
     (let bcc = \<lparr>l2DataCollector = None, transactions = [],
            smtLevels = calculateSmtLevels smtMaxLevel 0 mcpReduction,
            smtLevelsForTransaction = calculateSmtLevels smtMaxLevel 32 mcpReduction,
            blockCount = 0, forkId = fork, bcc_unlimited = unlimited, addonCounters = addon,
            rlpCombinedCounters = [], executionCombinedCounters = [], processingCombinedCounters = []\<rparr>
      in bcc\<lparr>rlpCombinedCounters := bcc_NewCounters pct bcc,
             executionCombinedCounters := bcc_NewCounters pct bcc,
             processingCombinedCounters := bcc_NewCounters pct bcc\<rparr>)"

text \<open>A \<open>range\<close> loop over \<open>vs\<close> from index \<open>k\<close> that updates the counter at each index of \<open>cs\<close>.\<close>

fun range_into :: "(Counter \<Rightarrow> Counter \<Rightarrow> Counter) \<Rightarrow> nat \<Rightarrow> Counters \<Rightarrow> Counters \<Rightarrow> Counters result" where
  "range_into f k [] cs = Inr cs"
| "range_into f k (v # vs) cs =
     rbind (deref v) (\<lambda>x. rbind (counter_at cs k) (\<lambda>c.
     rbind (set_counter cs k (f c x)) (\<lambda>cs. range_into f (Suc k) vs cs)))"

text \<open>The loop bodies: charge a counter, start it from earlier use, add to or take from a cached sum.\<close>

definition charge_used :: "Counter \<Rightarrow> Counter \<Rightarrow> Counter" where
  "charge_used c v = c\<lparr>used := used c + used v, remaining := remaining c - used v\<rparr>"
definition start_used :: "Counter \<Rightarrow> Counter \<Rightarrow> Counter" where
  "start_used c v = c\<lparr>used := used v, remaining := remaining c - used v\<rparr>"
definition add_used :: "Counter \<Rightarrow> Counter \<Rightarrow> Counter" where
  "add_used c v = c\<lparr>used := used c + used v\<rparr>"
definition sub_used :: "Counter \<Rightarrow> Counter \<Rightarrow> Counter" where
  "sub_used c v = c\<lparr>used := used c - used v\<rparr>"

definition UpdateRlpCountersCache ::
  "TransactionCounter \<Rightarrow> BatchCounterCollector \<Rightarrow> BatchCounterCollector result" where
  "UpdateRlpCountersCache tc bcc =
     rbind (range_into add_used 0 (cc_counters (tc_rlpCounters tc)) (rlpCombinedCounters bcc)) (\<lambda>r.
     Inr (bcc\<lparr>rlpCombinedCounters := r\<rparr>))"

definition UpdateExecutionAndProcessingCountersCache ::
  "TransactionCounter \<Rightarrow> BatchCounterCollector \<Rightarrow> BatchCounterCollector result" where
  "UpdateExecutionAndProcessingCountersCache tc bcc =
     rbind (range_into add_used 0 (cc_counters (tc_executionCounters tc)) (executionCombinedCounters bcc)) (\<lambda>e.
     rbind (range_into add_used 0 (cc_counters (tc_processingCounters tc)) (processingCombinedCounters bcc)) (\<lambda>p.
     Inr (bcc\<lparr>executionCombinedCounters := e, processingCombinedCounters := p\<rparr>)))"

definition UndoTransactionCountersCache ::
  "TransactionCounter \<Rightarrow> BatchCounterCollector \<Rightarrow> BatchCounterCollector result" where
  "UndoTransactionCountersCache tc bcc =
     rbind (range_into sub_used 0 (cc_counters (tc_rlpCounters tc)) (rlpCombinedCounters bcc)) (\<lambda>r.
     rbind (range_into sub_used 0 (cc_counters (tc_executionCounters tc)) (executionCombinedCounters bcc)) (\<lambda>e.
     rbind (range_into sub_used 0 (cc_counters (tc_processingCounters tc)) (processingCombinedCounters bcc)) (\<lambda>p.
     Inr (bcc\<lparr>rlpCombinedCounters := r, executionCombinedCounters := e,
              processingCombinedCounters := p\<rparr>))))"

fun encoded_length :: "tcref list \<Rightarrow> store \<Rightarrow> (goint \<times> store) result" where
  "encoded_length [] st = Inr (0, st)"
| "encoded_length (t # ts) st =
     rbind (deref (st t)) (\<lambda>tc. rbind (GetL2DataCache tc) (\<lambda>(l2Data, tc).
     rbind (encoded_length ts (st(t \<mapsto> tc))) (\<lambda>(n, st). Inr (of_nat (length l2Data) + n, st))))"

definition processBatchLevelData ::
  "goint \<Rightarrow> store \<Rightarrow> BatchCounterCollector \<Rightarrow> (store \<times> BatchCounterCollector) result" where
  "processBatchLevelData pct st bcc =
     rbind (encoded_length (transactions bcc) st) (\<lambda>(n, st).
     let totalEncodedTxLength = n + 9 * blockCount bcc;
         l2Deduction = ceilI (totalEncodedTxLength + 1) 136
     in rbind (run [Deduct CK_S 100, Deduct CK_P (smtLevels bcc), Deduct CK_B 2, divArith,
                    Deduct CK_K l2Deduction, failAssert, consolidateBlock, finishBatchProcessing]
                (NewCounterCollector pct (smtLevels bcc) (forkId bcc))) (\<lambda>cc.
        Inr (st, bcc\<lparr>l2DataCollector := Some cc\<rparr>)))"

primrec block_loop :: "Counters \<Rightarrow> Counters \<Rightarrow> nat \<Rightarrow> Counters \<Rightarrow> Counters result" where
  "block_loop changeBlock changeL2Block 0 combined = Inr combined"
| "block_loop changeBlock changeL2Block (Suc n) combined =
     rbind (range_into charge_used 0 changeBlock combined) (\<lambda>combined.
     rbind (range_into charge_used 0 changeL2Block combined) (block_loop changeBlock changeL2Block n))"

text \<open>The last loop of \<open>CombineCollectors\<close>, over the indices of \<open>combined\<close>.\<close>

fun cache_loop :: "BatchCounterCollector \<Rightarrow> nat \<Rightarrow> nat \<Rightarrow> Counters \<Rightarrow> Counters result" where
  "cache_loop bcc k 0 combined = Inr combined"
| "cache_loop bcc k (Suc n) combined =
     rbind (counter_at (rlpCombinedCounters bcc) k) (\<lambda>r.
     rbind (counter_at (executionCombinedCounters bcc) k) (\<lambda>e.
     rbind (counter_at (processingCombinedCounters bcc) k) (\<lambda>p.
     rbind (counter_at combined k) (\<lambda>c.
     let val = used r + used e + used p in
     rbind (set_counter combined k (c\<lparr>used := used c + val, remaining := remaining c - val\<rparr>))
       (cache_loop bcc (Suc k) n)))))"

definition with_addon :: "BatchCounterCollector \<Rightarrow> Counters \<Rightarrow> Counters result" where
  "with_addon bcc combined = (case addonCounters bcc of
     None \<Rightarrow> Inr combined | Some addon \<Rightarrow> range_into start_used 0 addon combined)"

definition with_l2Data :: "BatchCounterCollector \<Rightarrow> Counters \<Rightarrow> Counters result" where
  "with_l2Data bcc combined = (case l2DataCollector bcc of
     None \<Rightarrow> Inr combined | Some cc \<Rightarrow> range_into charge_used 0 (cc_counters cc) combined)"

definition CombineCollectors ::
  "goint \<Rightarrow> bool \<Rightarrow> store \<Rightarrow> BatchCounterCollector \<Rightarrow> (Counters \<times> store \<times> BatchCounterCollector) result" where
  "CombineCollectors pct verify st bcc =
     rbind (with_addon bcc (bcc_NewCounters pct bcc)) (\<lambda>combined.
     rbind (processBatchLevelData pct st bcc) (\<lambda>(st, bcc).
     rbind (processChangeL2Block verify
              (NewCounterCollector pct (smtLevelsForTransaction bcc) (forkId bcc))) (\<lambda>changeL2BlockCounter.
     rbind (decodeChangeL2BlockTx
              (NewCounterCollector pct (smtLevelsForTransaction bcc) (forkId bcc))) (\<lambda>changeBlockCounters.
     rbind (block_loop (cc_counters changeBlockCounters) (cc_counters changeL2BlockCounter)
              (nat (sint (blockCount bcc))) combined) (\<lambda>combined.
     rbind (with_l2Data bcc combined) (\<lambda>combined.
     rbind (cache_loop bcc 0 (length combined) combined) (\<lambda>combined.
     Inr (combined, st, bcc))))))))"

fun noChanges_loop :: "store \<Rightarrow> tcref list \<Rightarrow> Counters \<Rightarrow> Counters \<Rightarrow> Counters result" where
  "noChanges_loop st [] txCounters combined = Inr combined"
| "noChanges_loop st (t # ts) txCounters combined =
     rbind (deref (st t)) (\<lambda>tc.
     rbind (CombineCountersInto tc txCounters) (\<lambda>txCounters.
     rbind (range_into charge_used 0 txCounters combined) (\<lambda>combined.
     rbind (NullateUsed txCounters) (\<lambda>txCounters.
     noChanges_loop st ts txCounters combined))))"

definition CombineCollectorsNoChanges :: "goint \<Rightarrow> store \<Rightarrow> BatchCounterCollector \<Rightarrow> Counters result" where
  "CombineCollectorsNoChanges pct st bcc =
     rbind (with_addon bcc (bcc_NewCounters pct bcc)) (\<lambda>combined.
     rbind (with_l2Data bcc combined) (\<lambda>combined.
     noChanges_loop st (transactions bcc) NewCounters combined))"

fun any_negative :: "Counters \<Rightarrow> bool result" where
  "any_negative [] = Inr False"
| "any_negative (v # vs) = rbind (deref v) (\<lambda>c. rbind (any_negative vs) (\<lambda>o'.
     Inr (sint (remaining c) < 0 \<or> o')))"

definition CheckForOverflow ::
  "goint \<Rightarrow> bool \<Rightarrow> store \<Rightarrow> BatchCounterCollector \<Rightarrow> (bool \<times> store \<times> BatchCounterCollector) result" where
  "CheckForOverflow pct verify st bcc =
     (if bcc_unlimited bcc then Inr (False, st, bcc)
      else rbind (CombineCollectors pct verify st bcc) (\<lambda>(combined, st, bcc).
           rbind (any_negative combined) (\<lambda>overflow. Inr (overflow, st, bcc))))"

definition AddNewTransactionCounters ::
  "goint \<Rightarrow> (u256 \<Rightarrow> u256 option) \<Rightarrow> tcref \<Rightarrow> store \<Rightarrow> BatchCounterCollector \<Rightarrow>
     (bool \<times> store \<times> BatchCounterCollector) result" where
  "AddNewTransactionCounters pct u256_Sqrt t st bcc =
     rbind (deref (st t)) (\<lambda>tc. rbind (CalculateRlp pct u256_Sqrt tc) (\<lambda>tc.
     rbind (UpdateRlpCountersCache tc (bcc\<lparr>transactions := transactions bcc @ [t]\<rparr>)) (\<lambda>bcc.
     CheckForOverflow pct False (st(t \<mapsto> tc)) bcc)))"

definition SingleTransactionOverflowCheck ::
  "goint \<Rightarrow> (u256 \<Rightarrow> u256 option) \<Rightarrow> tcref \<Rightarrow> store \<Rightarrow> BatchCounterCollector \<Rightarrow>
     (bool \<times> store \<times> BatchCounterCollector) result" where
  "SingleTransactionOverflowCheck pct u256_Sqrt t st bcc =
     rbind (deref (st t)) (\<lambda>tc. rbind (CalculateRlp pct u256_Sqrt tc) (\<lambda>tc.
     rbind (UpdateRlpCountersCache tc (bcc\<lparr>transactions := transactions bcc @ [t]\<rparr>)) (\<lambda>bcc.
     rbind (UpdateExecutionAndProcessingCountersCache tc (bcc\<lparr>blockCount := 1\<rparr>)) (\<lambda>bcc.
     CheckForOverflow pct False (st(t \<mapsto> tc)) bcc))))"

definition RemovePreviousTransactionCounters ::
  "store \<Rightarrow> BatchCounterCollector \<Rightarrow> BatchCounterCollector result" where
  "RemovePreviousTransactionCounters st bcc =
     (if transactions bcc = [] then Inl (Panic ''index out of range'')
      else rbind (deref (st (last (transactions bcc)))) (\<lambda>lastTx.
           rbind (UndoTransactionCountersCache lastTx bcc) (\<lambda>bcc.
           Inr (bcc\<lparr>transactions := butlast (transactions bcc)\<rparr>))))"

definition ClearTransactionCounters :: "BatchCounterCollector \<Rightarrow> BatchCounterCollector" where
  "ClearTransactionCounters bcc = bcc\<lparr>transactions := []\<rparr>"

definition StartNewBlock ::
  "goint \<Rightarrow> bool \<Rightarrow> store \<Rightarrow> BatchCounterCollector \<Rightarrow> (bool \<times> store \<times> BatchCounterCollector) result" where
  "StartNewBlock pct verify st bcc =
     CheckForOverflow pct verify st (bcc\<lparr>blockCount := blockCount bcc + 1\<rparr>)"

primrec clone_transactions :: "store \<Rightarrow> tcref list \<Rightarrow> TransactionCounter list result" where
  "clone_transactions st [] = Inr []"
| "clone_transactions st (t # ts) =
     rbind (deref (st t)) (\<lambda>tc. rbind (TransactionCounter_Clone tc) (\<lambda>c.
     rbind (clone_transactions st ts) (\<lambda>cs. Inr (c # cs))))"

text \<open>\<open>Clone\<close> allocates the cloned transactions at the given fresh addresses.\<close>

definition BatchCounterCollector_Clone ::
  "tcref list \<Rightarrow> store \<Rightarrow> BatchCounterCollector \<Rightarrow> (store \<times> BatchCounterCollector) result" where
  "BatchCounterCollector_Clone fresh st bcc =
     rbind (clone_transactions st (transactions bcc)) (\<lambda>clonedTransactions.
     rbind (case l2DataCollector bcc of
              None \<Rightarrow> Inr None
            | Some cc \<Rightarrow> rbind (CounterCollector_Clone cc) (\<lambda>cc. Inr (Some cc))) (\<lambda>l2.
     rbind (Counters_Clone (rlpCombinedCounters bcc)) (\<lambda>r.
     rbind (Counters_Clone (executionCombinedCounters bcc)) (\<lambda>e.
     rbind (Counters_Clone (processingCombinedCounters bcc)) (\<lambda>p.
     Inr (st ++ map_of (zip fresh clonedTransactions),
          \<lparr>l2DataCollector = l2, transactions = take (length clonedTransactions) fresh,
           smtLevels = smtLevels bcc, smtLevelsForTransaction = smtLevelsForTransaction bcc,
           blockCount = blockCount bcc, forkId = forkId bcc, bcc_unlimited = bcc_unlimited bcc,
           addonCounters = None, rlpCombinedCounters = r, executionCombinedCounters = e,
           processingCombinedCounters = p\<rparr>))))))"

section \<open>Counters as vectors of use\<close>

text \<open>
  A complete set of counters has eight non-nil entries. \<open>uses\<close> reads what was used and \<open>spend\<close>
  charges a vector of amounts; all loops over counters are sums of such vectors.
\<close>

definition full :: "Counters \<Rightarrow> bool" where
  "full cs \<longleftrightarrow> length cs = CounterTypesCount \<and> None \<notin> set cs"

definition uses :: "Counters \<Rightarrow> goint list" where
  "uses cs = map (\<lambda>v. used (the v)) cs"

definition vplus :: "goint list \<Rightarrow> goint list \<Rightarrow> goint list" where
  "vplus us vs = map2 (+) us vs"

definition spend :: "Counters \<Rightarrow> goint list \<Rightarrow> Counters" where
  "spend cs us = map2 (\<lambda>c n. Some ((the c)\<lparr>used := used (the c) + n, remaining := remaining (the c) - n\<rparr>)) cs us"

definition set_uses :: "Counters \<Rightarrow> goint list \<Rightarrow> Counters" where
  "set_uses cs us = map2 (\<lambda>c n. Some ((the c)\<lparr>used := n\<rparr>)) cs us"

definition vzero :: "goint list" where "vzero = replicate CounterTypesCount 0"

lemma wf_counters_full: "wf_counters cs \<Longrightarrow> full cs"
  by (auto simp: wf_counters_def full_def balanced_def list_all_iff split: option.splits)

lemma length_uses [simp]: "length (uses cs) = length cs"
  by (simp add: uses_def)

lemma length_vplus [simp]: "length us = n \<Longrightarrow> length vs = n \<Longrightarrow> length (vplus us vs) = n"
  by (simp add: vplus_def)

lemma full_length [simp]: "full cs \<Longrightarrow> length cs = CounterTypesCount"
  by (simp add: full_def)

lemma full_spend [simp]: "full cs \<Longrightarrow> length us = CounterTypesCount \<Longrightarrow> full (spend cs us)"
  by (auto simp: full_def spend_def)

lemma full_set_uses [simp]: "full cs \<Longrightarrow> length us = CounterTypesCount \<Longrightarrow> full (set_uses cs us)"
  by (auto simp: full_def set_uses_def)

lemma list8_eqI:
  assumes "length xs = CounterTypesCount" "length ys = CounterTypesCount"
    and "\<And>k. k < CounterTypesCount \<Longrightarrow> xs ! k = ys ! k"
  shows "xs = ys"
  using assms by (intro nth_equalityI) simp_all

lemma spend_spend:
  "length us = length cs \<Longrightarrow> length vs = length cs \<Longrightarrow> spend (spend cs us) vs = spend cs (vplus us vs)"
  by (intro nth_equalityI) (simp_all add: spend_def vplus_def algebra_simps)

lemma uses_spend: "length us = length cs \<Longrightarrow> uses (spend cs us) = vplus (uses cs) us"
  by (intro nth_equalityI) (simp_all add: spend_def vplus_def uses_def)

lemma uses_set_uses [simp]: "length us = length cs \<Longrightarrow> uses (set_uses cs us) = us"
  by (intro nth_equalityI) (simp_all add: set_uses_def uses_def)

lemma set_uses_set_uses [simp]:
  "length us = length cs \<Longrightarrow> length vs = length cs \<Longrightarrow> set_uses (set_uses cs us) vs = set_uses cs vs"
  by (intro nth_equalityI) (simp_all add: set_uses_def)

lemma full_nth:
  assumes "full cs" "k < CounterTypesCount" obtains c where "cs ! k = Some c"
proof (cases "cs ! k")
  case None
  then have "None \<in> set cs" using assms nth_mem [of k cs] by (simp add: full_def)
  then show thesis using assms by (simp add: full_def)
qed (rule that)

lemma set_uses_uses [simp]:
  assumes "full cs" shows "set_uses cs (uses cs) = cs"
proof (rule list8_eqI)
  fix k assume k: "k < CounterTypesCount"
  obtain c where "cs ! k = Some c" using assms k by (rule full_nth)
  then show "set_uses cs (uses cs) ! k = cs ! k" using assms k by (simp add: set_uses_def uses_def)
qed (use assms in \<open>simp_all add: set_uses_def\<close>)

lemma range_into_append:
  "length vs = length cs \<Longrightarrow> None \<notin> set vs \<Longrightarrow> None \<notin> set cs \<Longrightarrow>
   range_into f (length pre) vs (pre @ cs) = Inr (pre @ map2 (\<lambda>c v. Some (f (the c) (the v))) cs vs)"
proof (induction vs arbitrary: pre cs)
  case (Cons v vs)
  obtain c cs' where cs: "cs = Some c # cs'" "length cs' = length vs" "None \<notin> set cs'"
    using Cons.prems by (cases cs; cases "hd cs") auto
  obtain x where v: "v = Some x" using Cons.prems by (cases v) auto
  have "counter_at (pre @ cs) (length pre) = Inr c" by (simp add: counter_at_def idx_def cs)
  moreover have "set_counter (pre @ cs) (length pre) (f c x) = Inr ((pre @ [Some (f c x)]) @ cs')"
    by (simp add: set_counter_def setidx_def cs)
  ultimately show ?case
    using Cons.IH [of cs' "pre @ [Some (f c x)]"] Cons.prems cs v by simp
qed simp

lemma range_into_full:
  assumes "full vs" "full cs"
  shows "range_into f 0 vs cs = Inr (map2 (\<lambda>c v. Some (f (the c) (the v))) cs vs)"
  using range_into_append [of vs cs f "[]"] assms by (simp add: full_def)

lemma range_into_charge:
  assumes "full vs" "full cs" shows "range_into charge_used 0 vs cs = Inr (spend cs (uses vs))"
  unfolding range_into_full [OF assms]
  using assms by (auto intro!: list8_eqI simp: spend_def uses_def charge_used_def)

lemma range_into_add:
  assumes "full vs" "full cs"
  shows "range_into add_used 0 vs cs = Inr (set_uses cs (vplus (uses cs) (uses vs)))"
  unfolding range_into_full [OF assms]
  using assms by (auto intro!: list8_eqI simp: set_uses_def vplus_def uses_def add_used_def)

definition vminus :: "goint list \<Rightarrow> goint list \<Rightarrow> goint list" where
  "vminus us vs = map2 (-) us vs"

lemma range_into_sub:
  assumes "full vs" "full cs"
  shows "range_into sub_used 0 vs cs = Inr (set_uses cs (vminus (uses cs) (uses vs)))"
  unfolding range_into_full [OF assms]
  using assms by (auto intro!: list8_eqI simp: set_uses_def vminus_def uses_def sub_used_def)

lemma range_into_start:
  assumes "full vs" "full cs" "uses cs = vzero"
  shows "range_into start_used 0 vs cs = Inr (spend cs (uses vs))"
proof -
  have "used (the (cs ! k)) = 0" if "k < CounterTypesCount" for k
    using arg_cong [OF assms(3), of "\<lambda>us. us ! k"] that assms(2) by (simp add: uses_def vzero_def)
  then show ?thesis
    unfolding range_into_full [OF assms(1,2)]
    using assms by (auto intro!: list8_eqI simp: spend_def uses_def start_used_def)
qed

section \<open>What the operations keep\<close>

lemma wf_NewCounterCollector [simp]: "wf_counters (cc_counters (NewCounterCollector pct l f))"
  by (simp add: NewCounterCollector_def getCounterLimits_def Let_def)

lemma wf_bcc_NewCounters [simp]: "wf_counters (bcc_NewCounters pct bcc)"
  by (simp add: bcc_NewCounters_def getCounterLimits_def Let_def)

lemma uses_new [simp]: "uses (createCountrsByLimits l) = vzero"
  by (simp add: uses_def createCountrsByLimits_def NewCounters_def CounterTypesCount_def
      new_counter_def vzero_def numeral_nat)

lemma uses_bcc_NewCounters [simp]: "uses (bcc_NewCounters pct bcc) = vzero"
  by (simp add: bcc_NewCounters_def getCounterLimits_def Let_def)

lemma charges_returns:
  assumes "charges f" "wf_counters (cc_counters cc)" "f cc = Inr cc'"
  shows "wf_counters (cc_counters cc')"
  using assms by (auto elim: chargesE)

lemma GetL2DataCache_Inr:
  "GetL2DataCache tc = Inr (d, tc') \<Longrightarrow> tc' = tc\<lparr>tc_l2DataCache := Some d\<rparr>"
  by (cases tc) (auto simp: GetL2DataCache_def rbind_eq_Inr split: option.splits)

lemma GetDecodedV_Inr: "GetChainID tx = Some c \<Longrightarrow> \<exists>w. GetDecodedV tx v = Inr w"
  by (simp add: GetDecodedV_def Let_def)

lemma charges_rlp_charges:
  assumes "\<And>c. u256_Sqrt c \<noteq> None" "GetChainID tx = Some chainId"
  shows "charges (run (rlp_charges u256_Sqrt tx raw price value chainId))"
proof -
  obtain v r s where sig: "RawSignatureValues tx = (v, r, s)" by (cases "RawSignatureValues tx")
  obtain w where w: "GetDecodedV tx v = Inr w" using GetDecodedV_Inr [OF assms(2)] by blast
  show ?thesis
    unfolding rlp_charges_def Let_def sig prod.case w rbind_Inr
      divArith_def SHLarith_def addBatchHashData_def addHashTx_def addL2HashTx_def
      addBatchHashByteByByte_def SHRarith_def
    by (intro charges_intros charges_ecRecover assms(1))
qed

lemma CalculateRlp_Inr:
  assumes "CalculateRlp pct u256_Sqrt tc = Inr tc'" "\<And>c. u256_Sqrt c \<noteq> None"
  shows "\<exists>c r tc1. tc' = tc\<lparr>tc_l2DataCache := Some c, tc_rlpCounters := r\<rparr> \<and> wf_counters (cc_counters r) \<and>
    GetL2DataCache tc = Inr (c, tc1)"
proof -
  obtain raw tc1 price val chain r where l2: "GetL2DataCache tc = Inr (raw, tc1)"
    and ch: "GetChainID (tc_transaction tc1) = Some chain"
    and r: "run (rlp_charges u256_Sqrt (tc_transaction tc1) raw price val chain)
        (NewCounterCollector pct (tc_smtLevels tc1) (tc_forkId tc1)) = Inr r"
    and tc': "tc' = tc1\<lparr>tc_rlpCounters := r\<rparr>"
    using assms(1) by (auto simp: CalculateRlp_def rbind_eq_Inr deref_def split: option.splits)
  show ?thesis
    using l2 GetL2DataCache_Inr [OF l2] tc' charges_returns [OF charges_rlp_charges [OF assms(2) ch] _ r]
    by auto
qed

lemma ProcessTx_Inr:
  assumes "ProcessTx pct codeSize returnData tc = Inr tc'"
  shows "\<exists>p. tc' = tc\<lparr>tc_processingCounters := p\<rparr> \<and> wf_counters (cc_counters p)"
proof -
  obtain n d p where p: "run (process_charges tc n d)
      (NewCounterCollector pct (tc_smtLevels tc) (tc_forkId tc)) = Inr p"
    "tc' = tc\<lparr>tc_processingCounters := p\<rparr>"
    using assms by (auto simp: ProcessTx_def Let_def rbind_eq_Inr split: option.splits)
  have "charges (run (process_charges tc n d))"
    unfolding process_charges_def cc_methods by (intro charges_intros)
  from charges_returns [OF this _ p(1)] show ?thesis using p(2) by auto
qed

section \<open>The combined counters\<close>

definition tc_full :: "TransactionCounter \<Rightarrow> bool" where
  "tc_full tc \<longleftrightarrow> full (cc_counters (tc_rlpCounters tc)) \<and> full (cc_counters (tc_executionCounters tc)) \<and>
     full (cc_counters (tc_processingCounters tc))"

text \<open>
  The state invariant: complete counters everywhere, and every transaction of the batch is in the
  store with its encoded bytes cached.
\<close>

definition wf_batch :: "store \<Rightarrow> BatchCounterCollector \<Rightarrow> bool" where
  "wf_batch st bcc \<longleftrightarrow>
     full (rlpCombinedCounters bcc) \<and> full (executionCombinedCounters bcc) \<and>
     full (processingCombinedCounters bcc) \<and>
     (case addonCounters bcc of None \<Rightarrow> True | Some a \<Rightarrow> full a) \<and>
     (case l2DataCollector bcc of None \<Rightarrow> True | Some cc \<Rightarrow> full (cc_counters cc)) \<and>
     (\<forall>t\<in>set (transactions bcc). \<exists>tc. st t = Some tc \<and> tc_full tc \<and> tc_l2DataCache tc \<noteq> None)"

definition addon_use :: "BatchCounterCollector \<Rightarrow> goint list" where
  "addon_use bcc = (case addonCounters bcc of None \<Rightarrow> vzero | Some a \<Rightarrow> uses a)"

definition l2_use :: "BatchCounterCollector \<Rightarrow> goint list" where
  "l2_use bcc = (case l2DataCollector bcc of None \<Rightarrow> vzero | Some cc \<Rightarrow> uses (cc_counters cc))"

definition cached_use :: "BatchCounterCollector \<Rightarrow> goint list" where
  "cached_use bcc = vplus (vplus (uses (rlpCombinedCounters bcc)) (uses (executionCombinedCounters bcc)))
     (uses (processingCombinedCounters bcc))"

text \<open>What each block of the batch costs, and the cost of a number of blocks.\<close>

definition block_use :: "goint \<Rightarrow> bool \<Rightarrow> BatchCounterCollector \<Rightarrow> goint list" where
  "block_use pct verify bcc =
     (let cc = NewCounterCollector pct (smtLevelsForTransaction bcc) (forkId bcc) in
      case (decodeChangeL2BlockTx cc, processChangeL2Block verify cc) of
        (Inr a, Inr b) \<Rightarrow> vplus (uses (cc_counters a)) (uses (cc_counters b))
      | _ \<Rightarrow> vzero)"

primrec vtimes :: "nat \<Rightarrow> goint list \<Rightarrow> goint list" where
  "vtimes 0 us = vzero"
| "vtimes (Suc n) us = vplus us (vtimes n us)"

lemma length_vtimes [simp]: "length us = CounterTypesCount \<Longrightarrow> length (vtimes n us) = CounterTypesCount"
  by (induction n) (simp_all add: vzero_def)

lemma length_vzero [simp]: "length vzero = CounterTypesCount"
  by (simp add: vzero_def)

lemma vplus_assoc: "vplus (vplus a b) c = vplus a (vplus b c)"
proof (induction a arbitrary: b c)
  case (Cons x a)
  then show ?case by (cases b; cases c) (simp_all add: vplus_def add.assoc)
qed (simp add: vplus_def)

lemma vplus_comm: "vplus a b = vplus b a"
proof (induction a arbitrary: b)
  case (Cons x a)
  then show ?case by (cases b) (simp_all add: vplus_def add.commute)
qed (simp add: vplus_def)

lemma vplus_zero [simp]:
  assumes "length us = CounterTypesCount" shows "vplus us vzero = us" "vplus vzero us = us"
  using assms by (auto intro!: list8_eqI simp: vplus_def vzero_def)

lemma spend_zero [simp]: "full cs \<Longrightarrow> spend cs vzero = cs"
proof -
  assume f: "full cs"
  show ?thesis
  proof (rule list8_eqI)
    fix k assume k: "k < CounterTypesCount"
    obtain c where "cs ! k = Some c" using f k by (rule full_nth)
    then show "spend cs vzero ! k = cs ! k" using f k by (simp add: spend_def vzero_def)
  qed (use f in \<open>simp_all add: spend_def\<close>)
qed

lemma block_loop_spend:
  assumes "full a" "full b"
  shows "full cs \<Longrightarrow> block_loop a b n cs = Inr (spend cs (vtimes n (vplus (uses a) (uses b))))"
proof (induction n arbitrary: cs)
  case (Suc n)
  then show ?case
    using assms by (simp add: range_into_charge spend_spend vplus_assoc)
qed simp

lemma with_addon_spend:
  assumes "wf_batch st bcc" "full cs" "uses cs = vzero"
  shows "with_addon bcc cs = Inr (spend cs (addon_use bcc))"
  using assms by (auto simp: with_addon_def addon_use_def wf_batch_def range_into_start split: option.splits)

lemma with_l2Data_spend:
  assumes "wf_batch st bcc" "full cs"
  shows "with_l2Data bcc cs = Inr (spend cs (l2_use bcc))"
  using assms by (auto simp: with_l2Data_def l2_use_def wf_batch_def range_into_charge split: option.splits)

text \<open>Loops that replace the entry at each index from the entry that is there.\<close>

lemma index_loop:
  assumes zero: "\<And>cs. L N 0 cs = Inr cs"
    and step: "\<And>k n cs. k < N \<Longrightarrow> ok cs \<Longrightarrow> L k (Suc n) cs = L (Suc k) n (cs[k := g k (cs ! k)])"
    and keep: "\<And>k cs. k < N \<Longrightarrow> ok cs \<Longrightarrow> ok (cs[k := g k (cs ! k)])"
    and len: "\<And>cs. ok cs \<Longrightarrow> length cs = N"
  shows "k + n = N \<Longrightarrow> ok cs \<Longrightarrow> L k n cs = Inr (take k cs @ map (\<lambda>j. g j (cs ! j)) [k..<N])"
proof (induction n arbitrary: k cs)
  case 0
  then show ?case using zero len by simp
next
  case (Suc n)
  let ?cs = "cs[k := g k (cs ! k)]"
  have k: "k < N" using Suc.prems by simp
  have "L k (Suc n) cs = Inr (take (Suc k) ?cs @ map (\<lambda>j. g j (?cs ! j)) [Suc k..<N])"
    using step [OF k Suc.prems(2)] Suc.IH [of "Suc k" ?cs] keep [OF k Suc.prems(2)] Suc.prems by simp
  also have "take (Suc k) ?cs = take k cs @ [g k (cs ! k)]"
    using k len [OF Suc.prems(2)] by (simp add: take_Suc_conv_app_nth)
  also have "map (\<lambda>j. g j (?cs ! j)) [Suc k..<N] = map (\<lambda>j. g j (cs ! j)) [Suc k..<N]" by simp
  finally show ?case using k by (simp add: upt_conv_Cons)
qed

lemma full_update: "full cs \<Longrightarrow> full (cs[k := Some c])"
  by (auto simp: full_def dest: set_update_subset_insert [THEN subsetD])

lemma full_counter_at:
  assumes "full cs" "k < CounterTypesCount" shows "counter_at cs k = Inr (the (cs ! k))"
proof -
  obtain c where "cs ! k = Some c" using assms by (rule full_nth)
  then show ?thesis using assms by (simp add: counter_at_def idx_def)
qed

lemma full_set_counter: "length cs = CounterTypesCount \<Longrightarrow> k < CounterTypesCount \<Longrightarrow> set_counter cs k c = Inr (cs[k := Some c])"
  by (simp add: set_counter_def setidx_def)

lemma cache_loop_spend:
  assumes "wf_batch st bcc" "full cs"
  shows "cache_loop bcc 0 CounterTypesCount cs = Inr (spend cs (cached_use bcc))"
proof -
  let ?v = "\<lambda>k. cached_use bcc ! k"
  define g where "g k c = Some ((the c)\<lparr>used := used (the c) + ?v k, remaining := remaining (the c) - ?v k\<rparr>)"
    for k and c :: "Counter option"
  have f: "full (rlpCombinedCounters bcc)" "full (executionCombinedCounters bcc)" "full (processingCombinedCounters bcc)"
    using assms(1) by (simp_all add: wf_batch_def)
  have "cache_loop bcc 0 CounterTypesCount cs = Inr (take 0 cs @ map (\<lambda>j. g j (cs ! j)) [0..<CounterTypesCount])"
  proof (rule index_loop [where L = "cache_loop bcc" and ok = full])
    fix k n cs assume k: "k < CounterTypesCount" and cs: "full cs"
    have "?v k = used (the (rlpCombinedCounters bcc ! k)) + used (the (executionCombinedCounters bcc ! k)) +
        used (the (processingCombinedCounters bcc ! k))"
      using f k by (simp add: cached_use_def vplus_def uses_def)
    then show "cache_loop bcc k (Suc n) cs = cache_loop bcc (Suc k) n (cs[k := g k (cs ! k)])"
      using f k cs by (simp add: full_counter_at full_set_counter Let_def g_def)
  qed (use assms(2) in \<open>simp_all add: g_def full_update\<close>)
  also have "map (\<lambda>j. g j (cs ! j)) [0..<CounterTypesCount] = spend cs (cached_use bcc)"
    using f assms(2) by (intro list8_eqI) (simp_all add: g_def spend_def cached_use_def vplus_def uses_def)
  finally show ?thesis by simp
qed

definition tc_use :: "TransactionCounter \<Rightarrow> goint list" where
  "tc_use tc = vplus (vplus (uses (cc_counters (tc_rlpCounters tc))) (uses (cc_counters (tc_executionCounters tc))))
     (uses (cc_counters (tc_processingCounters tc)))"

lemma length_tc_use [simp]: "tc_full tc \<Longrightarrow> length (tc_use tc) = CounterTypesCount"
  by (simp add: tc_use_def tc_full_def)

lemma CombineCountersInto_full:
  assumes "tc_full tc" "length cs = CounterTypesCount"
  obtains cs' where "CombineCountersInto tc cs = Inr cs'" "full cs'" "uses cs' = tc_use tc"
proof -
  let ?r = "cc_counters (tc_rlpCounters tc)"
  define g where "g k c = Some ((case c of None \<Rightarrow> zeroCounter | Some c \<Rightarrow> c)\<lparr>used := tc_use tc ! k\<rparr>)"
    for k and c :: "Counter option"
  have f: "full ?r" "full (cc_counters (tc_executionCounters tc))" "full (cc_counters (tc_processingCounters tc))"
    using assms(1) by (simp_all add: tc_full_def)
  have "combine_loop tc 0 (drop 0 ?r) cs = Inr (take 0 cs @ map (\<lambda>j. g j (cs ! j)) [0..<CounterTypesCount])"
  proof (rule index_loop [where L = "\<lambda>k n cs. combine_loop tc k (drop k ?r) cs" and n = CounterTypesCount
        and ok = "\<lambda>cs. length cs = CounterTypesCount"])
    fix k n and cs :: Counters assume k: "k < CounterTypesCount" and cs: "length cs = CounterTypesCount"
    obtain c where c: "?r ! k = Some c" using f(1) k by (rule full_nth)
    have d: "drop k ?r = Some c # drop (Suc k) ?r" using f(1) k c by (simp add: Cons_nth_drop_Suc [symmetric])
    have "tc_use tc ! k = used c + used (the (cc_counters (tc_executionCounters tc) ! k)) +
        used (the (cc_counters (tc_processingCounters tc) ! k))"
      using f k c by (simp add: tc_use_def vplus_def uses_def)
    then show "combine_loop tc k (drop k ?r) cs = combine_loop tc (Suc k) (drop (Suc k) ?r) (cs[k := g k (cs ! k)])"
      unfolding d using f k cs by (simp add: full_counter_at full_set_counter idx_def g_def)
  qed (use assms f in simp_all)
  then have "CombineCountersInto tc cs = Inr (map (\<lambda>j. g j (cs ! j)) [0..<CounterTypesCount])"
    by (simp add: CombineCountersInto_def)
  moreover have "full (map (\<lambda>j. g j (cs ! j)) [0..<CounterTypesCount])" by (auto simp: full_def g_def)
  moreover have "uses (map (\<lambda>j. g j (cs ! j)) [0..<CounterTypesCount]) = tc_use tc"
    using assms(1) by (intro list8_eqI) (simp_all add: uses_def g_def)
  ultimately show thesis by (rule that)
qed

lemma NullateUsed_full: "None \<notin> set cs \<Longrightarrow> \<exists>cs'. NullateUsed cs = Inr cs' \<and> length cs' = length cs"
proof (induction cs)
  case (Cons v cs)
  then show ?case by (cases v) auto
qed simp

primrec txs_use :: "store \<Rightarrow> tcref list \<Rightarrow> goint list" where
  "txs_use st [] = vzero"
| "txs_use st (t # ts) = vplus (tc_use (the (st t))) (txs_use st ts)"

lemma noChanges_spend:
  assumes "\<forall>t\<in>set ts. \<exists>tc. st t = Some tc \<and> tc_full tc"
  shows "length txc = CounterTypesCount \<Longrightarrow> full cs \<Longrightarrow> noChanges_loop st ts txc cs = Inr (spend cs (txs_use st ts))"
  using assms
proof (induction ts arbitrary: txc cs)
  case (Cons t ts)
  obtain tc where tc: "st t = Some tc" "tc_full tc" using Cons.prems by auto
  obtain cs' where cs': "CombineCountersInto tc txc = Inr cs'" "full cs'" "uses cs' = tc_use tc"
    using tc(2) Cons.prems(1) by (rule CombineCountersInto_full)
  obtain cs'' where "NullateUsed cs' = Inr cs''" "length cs'' = CounterTypesCount"
    using NullateUsed_full [of cs'] cs'(2) by (auto simp: full_def)
  moreover have "length (txs_use st ts) = CounterTypesCount"
    using Cons.prems(3) by (induction ts) auto
  ultimately show ?case
    using tc cs' Cons.prems Cons.IH [of cs'' "spend cs (tc_use tc)"]
    by (simp add: range_into_charge spend_spend)
qed simp

text \<open>Computing the length of the batch data does not touch the store once the bytes are cached.\<close>

lemma encoded_length_cached:
  assumes "\<forall>t\<in>set ts. \<exists>tc. st t = Some tc \<and> tc_l2DataCache tc \<noteq> None"
  shows "\<exists>n. encoded_length ts st = Inr (n, st)"
  using assms
proof (induction ts)
  case (Cons t ts)
  obtain tc d where tc: "st t = Some tc" "tc_l2DataCache tc = Some d" using Cons.prems by auto
  then have "st(t \<mapsto> tc) = st" by auto
  then show ?case using Cons tc by (auto simp: GetL2DataCache_def)
qed simp

lemma charges_batch_level:
  "charges (run [Deduct CK_S 100, Deduct CK_P l, Deduct CK_B 2, divArith, Deduct CK_K n, failAssert,
     consolidateBlock, finishBatchProcessing])"
  unfolding cc_methods by (intro charges_intros)

lemma processBatchLevelData_returns:
  assumes "wf_batch st bcc"
  obtains cc where "processBatchLevelData pct st bcc = Inr (st, bcc\<lparr>l2DataCollector := Some cc\<rparr>)"
    "full (cc_counters cc)"
proof -
  have "\<forall>t\<in>set (transactions bcc). \<exists>tc. st t = Some tc \<and> tc_l2DataCache tc \<noteq> None"
    using assms unfolding wf_batch_def by blast
  then obtain n where n: "encoded_length (transactions bcc) st = Inr (n, st)"
    using encoded_length_cached by blast
  obtain cc where "run [Deduct CK_S 100, Deduct CK_P (smtLevels bcc), Deduct CK_B 2, divArith,
      Deduct CK_K (ceilI (n + 9 * blockCount bcc + 1) 136), failAssert, consolidateBlock, finishBatchProcessing]
      (NewCounterCollector pct (smtLevels bcc) (forkId bcc)) = Inr cc" "wf_counters (cc_counters cc)"
    using charges_batch_level wf_NewCounterCollector by (rule chargesE)
  then show thesis
    using n that [of cc] by (simp add: processBatchLevelData_def Let_def wf_counters_full del: run.simps)
qed

lemma change_block_returns:
  obtains a b where "decodeChangeL2BlockTx (NewCounterCollector pct l f) = Inr a" "full (cc_counters a)"
    "processChangeL2Block verify (NewCounterCollector pct l f) = Inr b" "full (cc_counters b)"
proof -
  have "charges decodeChangeL2BlockTx" "charges (processChangeL2Block verify)"
    unfolding cc_methods by (intro charges_intros)+
  then show thesis
    using that chargesE [OF _ wf_NewCounterCollector] wf_counters_full by metis
qed

definition batch_use :: "goint \<Rightarrow> bool \<Rightarrow> BatchCounterCollector \<Rightarrow> goint list" where
  "batch_use pct verify bcc = vplus (vplus (vplus (addon_use bcc)
     (vtimes (nat (sint (blockCount bcc))) (block_use pct verify bcc))) (l2_use bcc)) (cached_use bcc)"

lemma wf_batch_l2: "wf_batch st bcc \<Longrightarrow> full (cc_counters cc) \<Longrightarrow> wf_batch st (bcc\<lparr>l2DataCollector := Some cc\<rparr>)"
  by (simp add: wf_batch_def)

lemma use_lengths:
  assumes "wf_batch st bcc"
  shows "length (addon_use bcc) = CounterTypesCount" "length (l2_use bcc) = CounterTypesCount"
    "length (cached_use bcc) = CounterTypesCount" "length (block_use pct verify bcc) = CounterTypesCount"
proof -
  obtain a b where "decodeChangeL2BlockTx (NewCounterCollector pct (smtLevelsForTransaction bcc) (forkId bcc)) = Inr a"
    "full (cc_counters a)" "processChangeL2Block verify (NewCounterCollector pct (smtLevelsForTransaction bcc) (forkId bcc)) = Inr b"
    "full (cc_counters b)" by (rule change_block_returns)
  then show "length (block_use pct verify bcc) = CounterTypesCount" by (simp add: block_use_def Let_def)
qed (use assms in \<open>auto simp: wf_batch_def addon_use_def l2_use_def cached_use_def split: option.splits\<close>)

lemma CombineCollectors_returns:
  assumes "wf_batch st bcc"
  obtains cc where "full (cc_counters cc)" "processBatchLevelData pct st bcc = Inr (st, bcc\<lparr>l2DataCollector := Some cc\<rparr>)"
    "CombineCollectors pct verify st bcc = Inr (spend (bcc_NewCounters pct bcc)
       (batch_use pct verify (bcc\<lparr>l2DataCollector := Some cc\<rparr>)), st, bcc\<lparr>l2DataCollector := Some cc\<rparr>)"
proof -
  obtain cc where cc: "processBatchLevelData pct st bcc = Inr (st, bcc\<lparr>l2DataCollector := Some cc\<rparr>)"
    "full (cc_counters cc)" using assms by (rule processBatchLevelData_returns)
  let ?b = "bcc\<lparr>l2DataCollector := Some cc\<rparr>"
  obtain a b where ab: "decodeChangeL2BlockTx (NewCounterCollector pct (smtLevelsForTransaction ?b) (forkId ?b)) = Inr a"
    "full (cc_counters a)" "processChangeL2Block verify (NewCounterCollector pct (smtLevelsForTransaction ?b) (forkId ?b)) = Inr b"
    "full (cc_counters b)" by (rule change_block_returns)
  have wf: "wf_batch st ?b" using assms cc(2) by (rule wf_batch_l2)
  note len = use_lengths(1-3) [OF wf] use_lengths(4) [OF wf, of pct verify]
  define c0 where "c0 = bcc_NewCounters pct bcc"
  have c0: "full c0" "uses c0 = vzero" by (simp_all add: c0_def wf_counters_full)
  have bu: "block_use pct verify ?b = vplus (uses (cc_counters a)) (uses (cc_counters b))"
    using ab by (simp add: block_use_def)
  have au: "addon_use ?b = addon_use bcc" by (simp add: addon_use_def)
  have "CombineCollectors pct verify st bcc = Inr (spend (spend (spend (spend c0 (addon_use bcc))
      (vtimes (nat (sint (blockCount bcc))) (block_use pct verify ?b))) (l2_use ?b)) (cached_use ?b), st, ?b)"
    using with_addon_spend [OF assms c0] cc(1) ab wf c0 len
    by (simp add: CombineCollectors_def c0_def [symmetric] block_loop_spend with_l2Data_spend [OF wf]
        cache_loop_spend [OF wf] bu au)
  then show thesis
    using that [of cc] cc c0 len by (simp add: spend_spend batch_use_def c0_def au)
qed

lemma any_negative_full:
  "None \<notin> set cs \<Longrightarrow> any_negative cs = Inr (\<exists>c\<in>set cs. sint (remaining (the c)) < 0)"
proof (induction cs)
  case (Cons v cs)
  then show ?case by (cases v) auto
qed simp

section \<open>The life of a batch\<close>

definition rlp_of :: "TransactionCounter \<Rightarrow> goint list" where
  "rlp_of tc = uses (cc_counters (tc_rlpCounters tc))"
definition exec_of :: "TransactionCounter \<Rightarrow> goint list" where
  "exec_of tc = uses (cc_counters (tc_executionCounters tc))"
definition proc_of :: "TransactionCounter \<Rightarrow> goint list" where
  "proc_of tc = uses (cc_counters (tc_processingCounters tc))"

text \<open>What a transaction has used of counter \<open>k\<close> in its execution and processing, which \<open>UpdateExecutionAndProcessingCountersCache\<close> commits to the caches.\<close>

definition late :: "TransactionCounter \<Rightarrow> nat \<Rightarrow> goint" where
  "late tc k = exec_of tc ! k + proc_of tc ! k"

definition open_use :: "store \<Rightarrow> tcref set \<Rightarrow> nat \<Rightarrow> goint" where
  "open_use st U k = (\<Sum>t\<in>U. late (the (st t)) k)"

text \<open>
  The states of a batch under its operations, in any order. The callers differ in that order:
  \<open>turbo/transactions/call.go\<close> commits the counters of a transaction after its execution,
  \<open>execTransaction\<close> of \<open>turbo/jsonrpc/zkevm_counters.go\<close> never does, and \<open>zk/tests/zk_counters_test.go\<close> goes
  on to the next transaction when one fails. So a transaction may be made, added or checked alone, charged by the
  virtual machine (any operation that meets the contract of a collector method), processed and
  committed at any time, the last one may be removed, all may be cleared, blocks may start and the
  counters may be combined at any time; only an address that is in the batch is not added again, and the
  counters of an earlier part of the batch, when given, are complete.
  The relation keeps a record: \<open>U\<close> are the transactions of the batch that were added and not
  committed, and \<open>lost\<close> is the use the caches miss for another reason, by counter. It changes when a
  transaction is charged after it was committed or is committed again, when an uncommitted transaction
  is removed (its use is taken out of the caches though it was not in them) and when all transactions are
  cleared (the caches are not).
\<close>

inductive reach ::
  "goint \<Rightarrow> (u256 \<Rightarrow> u256 option) \<Rightarrow> (Address \<Rightarrow> goint) \<Rightarrow> store \<Rightarrow> BatchCounterCollector \<Rightarrow> tcref set \<Rightarrow> (nat \<Rightarrow> goint) \<Rightarrow> bool"
  for pct sqrt256 codeSize where
  start: "(case addon of None \<Rightarrow> True | Some a \<Rightarrow> full a) \<Longrightarrow>
    reach pct sqrt256 codeSize Map.empty (NewBatchCounterCollector pct lvl fork red unlimited addon) {} (\<lambda>_. 0)"
| new: "reach pct sqrt256 codeSize st bcc U lost \<Longrightarrow> st t = None \<Longrightarrow>
    reach pct sqrt256 codeSize (st(t \<mapsto> NewTransactionCounter pct tx lvl fork red unlimited)) bcc U lost"
| add: "reach pct sqrt256 codeSize st bcc U lost \<Longrightarrow> t \<notin> set (transactions bcc) \<Longrightarrow>
    AddNewTransactionCounters pct sqrt256 t st bcc = Inr (overflow, st', bcc') \<Longrightarrow>
    reach pct sqrt256 codeSize st' bcc' (Set.insert t U) lost"
| single: "reach pct sqrt256 codeSize st bcc U lost \<Longrightarrow> t \<notin> set (transactions bcc) \<Longrightarrow>
    SingleTransactionOverflowCheck pct sqrt256 t st bcc = Inr (overflow, st', bcc') \<Longrightarrow>
    reach pct sqrt256 codeSize st' bcc' U lost"
| execute: "reach pct sqrt256 codeSize st bcc U lost \<Longrightarrow> st t = Some tc \<Longrightarrow> charges f \<Longrightarrow>
    f (ExecutionCounters tc) = Inr cc \<Longrightarrow> tc' = tc\<lparr>tc_executionCounters := cc\<rparr> \<Longrightarrow>
    reach pct sqrt256 codeSize (st(t \<mapsto> tc')) bcc U
      (\<lambda>k. lost k + (if t \<in> set (transactions bcc) - U then late tc' k - late tc k else 0))"
| process: "reach pct sqrt256 codeSize st bcc U lost \<Longrightarrow> st t = Some tc \<Longrightarrow>
    ProcessTx pct codeSize returnData tc = Inr tc' \<Longrightarrow>
    reach pct sqrt256 codeSize (st(t \<mapsto> tc')) bcc U
      (\<lambda>k. lost k + (if t \<in> set (transactions bcc) - U then late tc' k - late tc k else 0))"
| commit: "reach pct sqrt256 codeSize st bcc U lost \<Longrightarrow> st t = Some tc \<Longrightarrow>
    UpdateExecutionAndProcessingCountersCache tc bcc = Inr bcc' \<Longrightarrow>
    reach pct sqrt256 codeSize st bcc' (U - {t}) (\<lambda>k. lost k - (if t \<in> U then 0 else late tc k))"
| remove: "reach pct sqrt256 codeSize st bcc U lost \<Longrightarrow> t = last (transactions bcc) \<Longrightarrow>
    RemovePreviousTransactionCounters st bcc = Inr bcc' \<Longrightarrow>
    reach pct sqrt256 codeSize st bcc' (U - {t}) (\<lambda>k. lost k + (if t \<in> U then late (the (st t)) k else 0))"
| clear: "reach pct sqrt256 codeSize st bcc U lost \<Longrightarrow>
    reach pct sqrt256 codeSize st (ClearTransactionCounters bcc) {} (\<lambda>k. - (cached_use bcc ! k))"
| block: "reach pct sqrt256 codeSize st bcc U lost \<Longrightarrow>
    StartNewBlock pct verify st bcc = Inr (overflow, st', bcc') \<Longrightarrow>
    reach pct sqrt256 codeSize st' bcc' U lost"
| check: "reach pct sqrt256 codeSize st bcc U lost \<Longrightarrow>
    CheckForOverflow pct verify st bcc = Inr (overflow, st', bcc') \<Longrightarrow>
    reach pct sqrt256 codeSize st' bcc' U lost"
| combine: "reach pct sqrt256 codeSize st bcc U lost \<Longrightarrow>
    CombineCollectors pct verify st bcc = Inr (combined, st', bcc') \<Longrightarrow>
    reach pct sqrt256 codeSize st' bcc' U lost"

text \<open>
  The invariant: the use of all transactions of the batch is what the caches hold, what its uncommitted
  transactions have used since they were added, and what was lost.
\<close>

definition txs_total :: "store \<Rightarrow> tcref list \<Rightarrow> nat \<Rightarrow> goint" where
  "txs_total st ts k = (\<Sum>t\<in>set ts. tc_use (the (st t)) ! k)"

definition tc_ok :: "TransactionCounter \<Rightarrow> bool" where
  "tc_ok tc \<longleftrightarrow> tc_full tc \<and> wf_counters (cc_counters (tc_executionCounters tc)) \<and>
     (\<forall>d. tc_l2DataCache tc = Some d \<longrightarrow> TransactionToL2Data (tc_transaction tc) 8 MaxEffectivePercentage = Inr d)"

definition inv :: "store \<Rightarrow> BatchCounterCollector \<Rightarrow> tcref set \<Rightarrow> (nat \<Rightarrow> goint) \<Rightarrow> bool" where
  "inv st bcc U lost \<longleftrightarrow>
     wf_batch st bcc \<and> distinct (transactions bcc) \<and> U \<subseteq> set (transactions bcc) \<and>
     (\<forall>t tc. st t = Some tc \<longrightarrow> tc_ok tc) \<and>
     (\<forall>k<CounterTypesCount. txs_total st (transactions bcc) k = cached_use bcc ! k + open_use st U k + lost k)"

lemma vplus_nth [simp]: "k < length us \<Longrightarrow> k < length vs \<Longrightarrow> vplus us vs ! k = us ! k + vs ! k"
  by (simp add: vplus_def)

lemma vminus_nth [simp]: "k < length us \<Longrightarrow> k < length vs \<Longrightarrow> vminus us vs ! k = us ! k - vs ! k"
  by (simp add: vminus_def)

lemma length_vminus [simp]: "length us = n \<Longrightarrow> length vs = n \<Longrightarrow> length (vminus us vs) = n"
  by (simp add: vminus_def)

lemma vzero_nth [simp]: "k < CounterTypesCount \<Longrightarrow> vzero ! k = 0"
  by (simp add: vzero_def)

lemma of_lengths [simp]:
  assumes "tc_full tc"
  shows "length (rlp_of tc) = CounterTypesCount" "length (exec_of tc) = CounterTypesCount"
    "length (proc_of tc) = CounterTypesCount"
  using assms by (simp_all add: tc_full_def rlp_of_def exec_of_def proc_of_def)

lemma tc_use_nth: "tc_full tc \<Longrightarrow> k < CounterTypesCount \<Longrightarrow> tc_use tc ! k = rlp_of tc ! k + late tc k"
  by (simp add: tc_use_def late_def rlp_of_def exec_of_def proc_of_def tc_full_def)

lemma cached_use_nth:
  "wf_batch st bcc \<Longrightarrow> k < CounterTypesCount \<Longrightarrow> cached_use bcc ! k =
    uses (rlpCombinedCounters bcc) ! k + uses (executionCombinedCounters bcc) ! k + uses (processingCombinedCounters bcc) ! k"
  by (simp add: cached_use_def wf_batch_def)

text \<open>A sum over transactions when the counters at one address change.\<close>

lemma sum_update:
  assumes "finite S"
  shows "(\<Sum>u\<in>S. f (the ((st(t \<mapsto> tc)) u))) = (\<Sum>u\<in>S. f (the (st u))) + (if t \<in> S then f tc - f (the (st t)) else (0 :: goint))"
proof (cases "t \<in> S")
  case True
  have "(\<Sum>u\<in>S - {t}. f (the ((st(t \<mapsto> tc)) u))) = (\<Sum>u\<in>S - {t}. f (the (st u)))" by (rule sum.cong) auto
  then show ?thesis using assms True by (simp add: sum.remove [of S t])
next
  case False
  then have "(\<Sum>u\<in>S. f (the ((st(t \<mapsto> tc)) u))) = (\<Sum>u\<in>S. f (the (st u)))" by (intro sum.cong) auto
  then show ?thesis using False by simp
qed

lemma txs_total_update:
  "txs_total (st(t \<mapsto> tc)) ts k = txs_total st ts k + (if t \<in> set ts then tc_use tc ! k - tc_use (the (st t)) ! k else 0)"
  unfolding txs_total_def by (rule sum_update [where f = "\<lambda>tc. tc_use tc ! k"]) simp

lemma open_use_update:
  "finite U \<Longrightarrow> open_use (st(t \<mapsto> tc)) U k = open_use st U k + (if t \<in> U then late tc k - late (the (st t)) k else 0)"
  unfolding open_use_def by (rule sum_update [where f = "\<lambda>tc. late tc k"])

lemma inv_balance: "inv st bcc U lost \<Longrightarrow> k < CounterTypesCount \<Longrightarrow>
    txs_total st (transactions bcc) k = cached_use bcc ! k + open_use st U k + lost k"
  by (simp add: inv_def)

lemma inv_wf: "inv st bcc U lost \<Longrightarrow> wf_batch st bcc"
  by (simp add: inv_def)

lemma inv_tc: "inv st bcc U lost \<Longrightarrow> st t = Some tc \<Longrightarrow> tc_ok tc"
  unfolding inv_def by blast

lemma tc_okD: "tc_ok tc \<Longrightarrow> tc_full tc" "tc_ok tc \<Longrightarrow> wf_counters (cc_counters (tc_executionCounters tc))"
  by (simp_all add: tc_ok_def)

lemma inv_finite: "inv st bcc U lost \<Longrightarrow> finite U"
  unfolding inv_def by (meson finite_set finite_subset)

lemma wf_batch_tx: "wf_batch st bcc \<Longrightarrow> t \<in> set (transactions bcc) \<Longrightarrow> tc_full (the (st t))"
  by (auto simp: wf_batch_def)

lemma CombineCollectors_keeps:
  assumes "wf_batch st bcc" "CombineCollectors pct verify st bcc = Inr (combined, st', bcc')"
  shows "st' = st \<and> (\<exists>cc. bcc' = bcc\<lparr>l2DataCollector := Some cc\<rparr> \<and> full (cc_counters cc))"
  using CombineCollectors_returns [OF assms(1), of pct verify] assms(2) by (metis Pair_inject sum.inject(2))

lemma CheckForOverflow_keeps:
  assumes "wf_batch st bcc" "CheckForOverflow pct verify st bcc = Inr (overflow, st', bcc')"
  shows "st' = st \<and> (bcc' = bcc \<or> (\<exists>cc. bcc' = bcc\<lparr>l2DataCollector := Some cc\<rparr> \<and> full (cc_counters cc)))"
  using assms CombineCollectors_keeps [OF assms(1), of pct verify]
  by (fastforce simp: CheckForOverflow_def rbind_eq_Inr split: if_splits)

lemma inv_l2: "inv st bcc U lost \<Longrightarrow> full (cc_counters cc) \<Longrightarrow> inv st (bcc\<lparr>l2DataCollector := Some cc\<rparr>) U lost"
  by (simp add: inv_def wf_batch_l2 cached_use_def)

lemma inv_CheckForOverflow:
  assumes "inv st bcc U lost" "CheckForOverflow pct verify st bcc = Inr (overflow, st', bcc')"
  shows "inv st' bcc' U lost"
  using CheckForOverflow_keeps [OF inv_wf [OF assms(1)] assms(2)] assms(1) inv_l2 by blast

lemma inv_CombineCollectors:
  assumes "inv st bcc U lost" "CombineCollectors pct verify st bcc = Inr (combined, st', bcc')"
  shows "inv st' bcc' U lost"
  using CombineCollectors_keeps [OF inv_wf [OF assms(1)] assms(2)] assms(1) inv_l2 by blast

lemma full_createCountrs [simp]: "full (createCountrsByLimits l)"
  by (simp add: wf_counters_full)

lemma full_bcc_NewCounters [simp]: "full (bcc_NewCounters pct bcc)"
  by (simp add: wf_counters_full)

lemma inv_start:
  "(case addon of None \<Rightarrow> True | Some a \<Rightarrow> full a) \<Longrightarrow>
   inv Map.empty (NewBatchCounterCollector pct lvl fork red unlimited addon) {} (\<lambda>_. 0)"
  by (simp add: inv_def NewBatchCounterCollector_def Let_def wf_batch_def txs_total_def open_use_def cached_use_def)

lemma NewTransactionCounter_ok: "tc_ok (NewTransactionCounter pct tx lvl fork red unlimited)"
  by (simp add: tc_ok_def NewTransactionCounter_def Let_def tc_full_def SetTransaction_def
      NewUnlimitedCounterCollector_def NewCounterCollector_def getCounterLimits_def)

lemma wf_batch_store:
  assumes "wf_batch st bcc" "t \<in> set (transactions bcc) \<Longrightarrow> tc_full tc \<and> tc_l2DataCache tc \<noteq> None"
  shows "wf_batch (st(t \<mapsto> tc)) bcc"
  using assms unfolding wf_batch_def by auto

lemma inv_new:
  assumes inv: "inv st bcc U lost" and t: "st t = None" and tc: "tc_ok tc"
  shows "inv (st(t \<mapsto> tc)) bcc U lost"
proof -
  have nt: "t \<notin> set (transactions bcc)" using inv t by (auto simp: inv_def wf_batch_def)
  then have "t \<notin> U" using inv by (auto simp: inv_def)
  then show ?thesis
    using inv nt tc wf_batch_store [OF inv_wf [OF inv], of t tc] inv_finite [OF inv]
    by (auto simp: inv_def txs_total_update open_use_update)
qed

text \<open>A charge of the execution or processing counters of a transaction.\<close>

lemma inv_charge:
  assumes inv: "inv st bcc U lost" and t: "st t = Some tc"
    and tc': "tc_ok tc'" "tc_rlpCounters tc' = tc_rlpCounters tc" "tc_l2DataCache tc' = tc_l2DataCache tc"
  shows "inv (st(t \<mapsto> tc')) bcc U (\<lambda>k. lost k + (if t \<in> set (transactions bcc) - U then late tc' k - late tc k else 0))"
proof -
  let ?ts = "transactions bcc"
  have wf: "wf_batch (st(t \<mapsto> tc')) bcc"
    using inv_wf [OF inv] t tc' by (intro wf_batch_store) (auto simp: wf_batch_def tc_okD)
  have "tc_use tc' ! k - tc_use tc ! k = late tc' k - late tc k" if "k < CounterTypesCount" for k
    using that tc' inv_tc [OF inv t] by (simp add: tc_use_nth rlp_of_def tc_okD)
  then have "txs_total (st(t \<mapsto> tc')) ?ts k = cached_use bcc ! k + open_use (st(t \<mapsto> tc')) U k +
      (lost k + (if t \<in> set ?ts - U then late tc' k - late tc k else 0))" if "k < CounterTypesCount" for k
    using that inv_balance [OF inv that] t inv inv_finite [OF inv]
    by (auto simp: txs_total_update open_use_update inv_def)
  then show ?thesis using inv wf tc' by (auto simp: inv_def)
qed

lemma inv_commit:
  assumes inv: "inv st bcc U lost" and t: "st t = Some tc"
    and up: "UpdateExecutionAndProcessingCountersCache tc bcc = Inr bcc'"
  shows "inv st bcc' (U - {t}) (\<lambda>k. lost k - (if t \<in> U then 0 else late tc k))"
proof -
  have wf: "wf_batch st bcc" and full: "tc_full tc" using inv_wf [OF inv] inv_tc [OF inv t] by (simp_all add: tc_okD)
  have b: "bcc' = bcc\<lparr>
      executionCombinedCounters := set_uses (executionCombinedCounters bcc) (vplus (uses (executionCombinedCounters bcc)) (exec_of tc)),
      processingCombinedCounters := set_uses (processingCombinedCounters bcc) (vplus (uses (processingCombinedCounters bcc)) (proc_of tc))\<rparr>"
    using up wf full
    by (simp add: UpdateExecutionAndProcessingCountersCache_def wf_batch_def tc_full_def range_into_add
        exec_of_def proc_of_def)
  have wf': "wf_batch st bcc'" using wf full by (simp add: b wf_batch_def)
  have c: "cached_use bcc' ! k = cached_use bcc ! k + late tc k" if "k < CounterTypesCount" for k
    using that full wf unfolding cached_use_nth [OF wf' that] cached_use_nth [OF wf that]
    by (simp add: b late_def wf_batch_def)
  have o: "open_use st (U - {t}) k = open_use st U k - (if t \<in> U then late tc k else 0)" for k
    using inv_finite [OF inv] t by (simp add: open_use_def sum_diff1)
  have "transactions bcc' = transactions bcc" by (simp add: b)
  then show ?thesis using inv wf' by (auto simp: inv_def c o)
qed

lemma inv_append:
  assumes inv: "inv st bcc U lost" and t: "t \<notin> set (transactions bcc)" "st t = Some tc0" and sq: "\<And>c. sqrt256 c \<noteq> None"
    and tc: "CalculateRlp pct sqrt256 tc0 = Inr tc"
    and up: "UpdateRlpCountersCache tc (bcc\<lparr>transactions := transactions bcc @ [t]\<rparr>) = Inr bcc1"
  shows "inv (st(t \<mapsto> tc)) bcc1 (Set.insert t U) lost"
proof -
  let ?st = "st(t \<mapsto> tc)" and ?ts = "transactions bcc"
  obtain c r tc1 where tc_eq: "tc = tc0\<lparr>tc_l2DataCache := Some c, tc_rlpCounters := r\<rparr>" "wf_counters (cc_counters r)"
    "GetL2DataCache tc0 = Inr (c, tc1)"
    using CalculateRlp_Inr [OF tc sq] by blast
  have ok: "tc_ok tc"
    using inv_tc [OF inv t(2)] tc_eq
    by (auto simp: tc_ok_def tc_full_def wf_counters_full GetL2DataCache_def rbind_eq_Inr split: option.splits)
  note full = tc_okD [OF ok]
  note wf = inv_wf [OF inv]
  have b: "bcc1 = bcc\<lparr>transactions := ?ts @ [t],
      rlpCombinedCounters := set_uses (rlpCombinedCounters bcc) (vplus (uses (rlpCombinedCounters bcc)) (rlp_of tc))\<rparr>"
    using up wf full by (simp add: UpdateRlpCountersCache_def wf_batch_def tc_full_def range_into_add rlp_of_def)
  have "wf_batch ?st bcc" using wf t(1) by (intro wf_batch_store) simp_all
  then have wf': "wf_batch ?st bcc1" using full tc_eq(1) by (simp add: b wf_batch_def)
  have c: "cached_use bcc1 ! k = cached_use bcc ! k + rlp_of tc ! k" if "k < CounterTypesCount" for k
    using that full wf unfolding cached_use_nth [OF wf' that] cached_use_nth [OF wf that] by (simp add: b wf_batch_def)
  have nU: "t \<notin> U" using inv t(1) by (auto simp: inv_def)
  then have o: "open_use ?st (Set.insert t U) k = open_use st U k + late tc k" for k
    using open_use_update [of U st t tc k] inv_finite [OF inv] by (simp add: open_use_def)
  have "txs_total ?st (?ts @ [t]) k = txs_total ?st ?ts k + tc_use tc ! k" for k
    using t(1) by (simp add: txs_total_def)
  then have s: "txs_total ?st (?ts @ [t]) k = txs_total st ?ts k + tc_use tc ! k" for k
    using t(1) by (simp add: txs_total_update)
  have "transactions bcc1 = ?ts @ [t]" by (simp add: b)
  then show ?thesis
    using inv wf' ok full t(1) by (auto simp: inv_def c o s tc_use_nth)
qed

lemma inv_add:
  assumes "inv st bcc U lost" "t \<notin> set (transactions bcc)" "\<And>c. sqrt256 c \<noteq> None"
    and "AddNewTransactionCounters pct sqrt256 t st bcc = Inr (overflow, st', bcc')"
  shows "inv st' bcc' (Set.insert t U) lost"
proof -
  obtain tc0 tc bcc1 where 1: "st t = Some tc0" "CalculateRlp pct sqrt256 tc0 = Inr tc"
    "UpdateRlpCountersCache tc (bcc\<lparr>transactions := transactions bcc @ [t]\<rparr>) = Inr bcc1"
    "CheckForOverflow pct False (st(t \<mapsto> tc)) bcc1 = Inr (overflow, st', bcc')"
    using assms(4) by (auto simp: AddNewTransactionCounters_def rbind_eq_Inr deref_def split: option.splits)
  show ?thesis by (rule inv_CheckForOverflow [OF inv_append [OF assms(1,2) 1(1) assms(3) 1(2,3)] 1(4)])
qed

lemma inv_blockCount: "inv st bcc U lost \<Longrightarrow> inv st (bcc\<lparr>blockCount := n\<rparr>) U lost"
  by (simp add: inv_def wf_batch_def cached_use_def)

lemma inv_single:
  assumes "inv st bcc U lost" "t \<notin> set (transactions bcc)" "\<And>c. sqrt256 c \<noteq> None"
    and "SingleTransactionOverflowCheck pct sqrt256 t st bcc = Inr (overflow, st', bcc')"
  shows "inv st' bcc' U lost"
proof -
  obtain tc0 tc bcc1 bcc2 where 1: "st t = Some tc0" "CalculateRlp pct sqrt256 tc0 = Inr tc"
    "UpdateRlpCountersCache tc (bcc\<lparr>transactions := transactions bcc @ [t]\<rparr>) = Inr bcc1"
    "UpdateExecutionAndProcessingCountersCache tc (bcc1\<lparr>blockCount := 1\<rparr>) = Inr bcc2"
    "CheckForOverflow pct False (st(t \<mapsto> tc)) bcc2 = Inr (overflow, st', bcc')"
    using assms(4) by (auto simp: SingleTransactionOverflowCheck_def rbind_eq_Inr deref_def split: option.splits)
  have "t \<notin> U" using assms(1,2) by (auto simp: inv_def)
  moreover have "inv (st(t \<mapsto> tc)) bcc2 (Set.insert t U - {t}) (\<lambda>k. lost k - (if t \<in> Set.insert t U then 0 else late tc k))"
    using inv_commit [OF inv_blockCount [OF inv_append [OF assms(1,2) 1(1) assms(3) 1(2,3)]] _ 1(4), of t] by simp
  ultimately have "inv (st(t \<mapsto> tc)) bcc2 U lost" by simp
  then show ?thesis using 1(5) by (rule inv_CheckForOverflow)
qed

lemma inv_remove:
  assumes inv: "inv st bcc U lost" and t: "t = last (transactions bcc)"
    and rm: "RemovePreviousTransactionCounters st bcc = Inr bcc'"
  shows "inv st bcc' (U - {t}) (\<lambda>k. lost k + (if t \<in> U then late (the (st t)) k else 0))"
proof -
  let ?ts = "transactions bcc" and ?us = "butlast (transactions bcc)"
  note wf = inv_wf [OF inv]
  have ne: "?ts \<noteq> []" using rm by (auto simp: RemovePreviousTransactionCounters_def)
  then have ts: "?us @ [t] = ?ts" by (simp add: t)
  obtain tc where tc: "st t = Some tc" "tc_full tc"
    using wf ne last_in_set unfolding wf_batch_def t by blast
  have b: "bcc' = bcc\<lparr>rlpCombinedCounters := set_uses (rlpCombinedCounters bcc) (vminus (uses (rlpCombinedCounters bcc)) (rlp_of tc)),
      executionCombinedCounters := set_uses (executionCombinedCounters bcc) (vminus (uses (executionCombinedCounters bcc)) (exec_of tc)),
      processingCombinedCounters := set_uses (processingCombinedCounters bcc) (vminus (uses (processingCombinedCounters bcc)) (proc_of tc)),
      transactions := ?us\<rparr>"
    using rm ne wf tc
    by (simp add: RemovePreviousTransactionCounters_def UndoTransactionCountersCache_def wf_batch_def tc_full_def
        range_into_sub rlp_of_def exec_of_def proc_of_def flip: t)
  have wf': "wf_batch st bcc'" using wf tc(2) unfolding b wf_batch_def by (auto dest: in_set_butlastD)
  have c: "cached_use bcc' ! k = cached_use bcc ! k - tc_use tc ! k" if "k < CounterTypesCount" for k
    using that tc(2) wf unfolding cached_use_nth [OF wf' that] cached_use_nth [OF wf that]
    by (simp add: b tc_use_nth late_def wf_batch_def)
  have o: "open_use st (U - {t}) k = open_use st U k - (if t \<in> U then late tc k else 0)" for k
    using inv_finite [OF inv] tc(1) by (simp add: open_use_def sum_diff1)
  have d: "distinct (?us @ [t])" "U \<subseteq> set (?us @ [t])" using inv unfolding ts by (simp_all add: inv_def)
  then have "txs_total st (?us @ [t]) k = txs_total st ?us k + tc_use tc ! k" for k
    using tc(1) by (simp add: txs_total_def)
  then have s: "txs_total st ?us k = txs_total st ?ts k - tc_use tc ! k" for k unfolding ts by simp
  have "transactions bcc' = ?us" by (simp add: b)
  then show ?thesis using inv wf' d tc(1) by (auto simp: inv_def c o s)
qed

lemma inv_clear:
  assumes "inv st bcc U lost" shows "inv st (ClearTransactionCounters bcc) {} (\<lambda>k. - (cached_use bcc ! k))"
  using assms by (simp add: inv_def ClearTransactionCounters_def wf_batch_def cached_use_def txs_total_def open_use_def)

lemma reach_inv:
  assumes "reach pct sqrt256 codeSize st bcc U lost" "\<And>c. sqrt256 c \<noteq> None"
  shows "inv st bcc U lost"
  using assms(1)
proof induction
  case (start addon lvl fork red unlimited)
  then show ?case by (rule inv_start)
next
  case (new st bcc U lost t tx lvl fork red unlimited)
  show ?case by (rule inv_new [OF new.IH new.hyps(2) NewTransactionCounter_ok])
next
  case (add st bcc U lost t overflow st' bcc')
  show ?case by (rule inv_add [OF add.IH add.hyps(2) assms(2) add.hyps(3)])
next
  case (single st bcc U lost t overflow st' bcc')
  show ?case by (rule inv_single [OF single.IH single.hyps(2) assms(2) single.hyps(3)])
next
  case (execute st bcc U lost t tc f cc tc')
  note tc = inv_tc [OF execute.IH execute.hyps(2)]
  have "wf_counters (cc_counters cc)"
    using charges_returns [OF execute.hyps(3) _ execute.hyps(4)] tc by (simp add: ExecutionCounters_def tc_okD)
  then show ?case
    using tc execute.hyps(5)
    by (intro inv_charge [OF execute.IH execute.hyps(2)]) (simp_all add: tc_ok_def tc_full_def wf_counters_full)
next
  case (process st bcc U lost t tc returnData tc')
  obtain p where "tc' = tc\<lparr>tc_processingCounters := p\<rparr>" "wf_counters (cc_counters p)"
    using ProcessTx_Inr [OF process.hyps(3)] by blast
  then show ?case
    using inv_tc [OF process.IH process.hyps(2)]
    by (intro inv_charge [OF process.IH process.hyps(2)]) (simp_all add: tc_ok_def tc_full_def wf_counters_full)
next
  case (commit st bcc U lost t tc bcc')
  show ?case by (rule inv_commit [OF commit.IH commit.hyps(2,3)])
next
  case (remove st bcc U lost t bcc')
  show ?case by (rule inv_remove [OF remove.IH remove.hyps(2,3)])
next
  case (clear st bcc U lost)
  show ?case by (rule inv_clear [OF clear.IH])
next
  case (block st bcc U lost verify overflow st' bcc')
  show ?case by (rule inv_CheckForOverflow [OF inv_blockCount [OF block.IH] block.hyps(2) [unfolded StartNewBlock_def]])
next
  case (check st bcc U lost verify overflow st' bcc')
  show ?case by (rule inv_CheckForOverflow [OF check.IH check.hyps(2)])
next
  case (combine st bcc U lost verify combined st' bcc')
  show ?case by (rule inv_CombineCollectors [OF combine.IH combine.hyps(2)])
qed

section \<open>What the batch data costs\<close>

text \<open>The encoded length of the transactions, and the charges for the data of the batch by counter: steps, arithmetics, binaries, keccaks and poseidons.\<close>

definition l2_bytes :: "store \<Rightarrow> tcref list \<Rightarrow> goint" where
  "l2_bytes st ts = (\<Sum>t\<leftarrow>ts. of_nat (length (projr (TransactionToL2Data (tc_transaction (the (st t))) 8 MaxEffectivePercentage))))"

definition data_use :: "store \<Rightarrow> BatchCounterCollector \<Rightarrow> goint list" where
  "data_use st bcc = [362, 1, 9, 0, ceilI (l2_bytes st (transactions bcc) + 9 * blockCount bcc + 1) 136 + 2, 0,
     2 * smtLevels bcc + 46, 0]"

definition vunit :: "CounterKey \<Rightarrow> goint \<Rightarrow> goint list" where
  "vunit key n = vzero[key_index key := n]"

lemma length_vunit [simp]: "length (vunit key n) = CounterTypesCount"
  by (simp add: vunit_def)

lemma Deduct_spend:
  assumes "full (cc_counters cc)"
  shows "Deduct key n cc = Inr (cc\<lparr>cc_counters := spend (cc_counters cc) (vunit key n)\<rparr>)"
proof -
  let ?cs = "cc_counters cc" and ?i = "key_index key"
  let ?c = "the (?cs ! ?i)"
  note i = key_index_less [of key]
  have "?cs[?i := Some (?c\<lparr>used := used ?c + n, remaining := remaining ?c - n\<rparr>)] = spend ?cs (vunit key n)"
  proof (rule list8_eqI)
    fix k assume k: "k < CounterTypesCount"
    obtain c where "?cs ! k = Some c" using assms k by (rule full_nth)
    then show "?cs[?i := Some (?c\<lparr>used := used ?c + n, remaining := remaining ?c - n\<rparr>)] ! k = spend ?cs (vunit key n) ! k"
      using assms k i by (cases "k = ?i") (simp_all add: spend_def vunit_def nth_list_update)
  qed (use assms in \<open>simp_all add: spend_def\<close>)
  then show ?thesis
    using assms i by (simp add: Deduct_def full_counter_at full_set_counter)
qed

lemma batch_level_spend:
  assumes "full (cc_counters cc)"
  shows "run [Deduct CK_S 100, Deduct CK_P l, Deduct CK_B 2, divArith, Deduct CK_K n, failAssert,
      consolidateBlock, finishBatchProcessing] cc =
    Inr (cc\<lparr>cc_counters := spend (cc_counters cc) [362, 1, 9, 0, n + 2, 0, l + cc_smtLevels cc + 46, 0]\<rparr>)"
proof -
  have "vplus (vplus (vplus (vplus (vplus (vplus (vplus (vplus (vplus (vplus (vplus (vplus (vplus (vplus
      (vunit CK_S 100) (vunit CK_P l)) (vunit CK_B 2)) (vunit CK_S 40)) (vunit CK_B 3)) (vunit CK_A 1)) (vunit CK_K n))
      (vunit CK_S 2)) (vunit CK_S 20)) (vunit CK_B 2)) (vunit CK_P 46)) (vunit CK_S 200)) (vunit CK_K 2))
      (vunit CK_P (cc_smtLevels cc))) (vunit CK_B 2) = [362, 1, 9, 0, n + 2, 0, l + cc_smtLevels cc + 46, 0]"
    by (simp add: vunit_def vzero_def vplus_def CounterTypesCount_def numeral_nat add.commute)
  then show ?thesis
    using assms by (simp add: divArith_def failAssert_def consolidateBlock_def finishBatchProcessing_def MCPL_def
        Deduct_spend spend_spend)
qed

lemma encoded_length_bytes:
  assumes "\<forall>t\<in>set ts. \<exists>tc. st t = Some tc \<and> tc_ok tc \<and> tc_l2DataCache tc \<noteq> None"
  shows "encoded_length ts st = Inr (l2_bytes st ts, st)"
  using assms
proof (induction ts)
  case (Cons t ts)
  obtain tc d where tc: "st t = Some tc" "tc_l2DataCache tc = Some d" "tc_ok tc" using Cons.prems by auto
  then have "st(t \<mapsto> tc) = st" "TransactionToL2Data (tc_transaction tc) 8 MaxEffectivePercentage = Inr d"
    by (auto simp: tc_ok_def)
  then show ?case using Cons tc by (simp add: GetL2DataCache_def l2_bytes_def)
qed (simp add: l2_bytes_def)

lemma processBatchLevelData_use:
  assumes "inv st bcc U lost"
  shows "\<exists>cc. processBatchLevelData pct st bcc = Inr (st, bcc\<lparr>l2DataCollector := Some cc\<rparr>) \<and>
    uses (cc_counters cc) = data_use st bcc"
proof -
  have "\<forall>t\<in>set (transactions bcc). \<exists>tc. st t = Some tc \<and> tc_ok tc \<and> tc_l2DataCache tc \<noteq> None"
    using inv_wf [OF assms] inv_tc [OF assms] unfolding wf_batch_def by blast
  note n = encoded_length_bytes [OF this]
  let ?cc = "NewCounterCollector pct (smtLevels bcc) (forkId bcc)"
  have f: "full (cc_counters ?cc)" by (simp add: wf_counters_full)
  have u: "uses (cc_counters ?cc) = vzero" by (simp add: NewCounterCollector_def getCounterLimits_def Let_def)
  have "uses (spend (cc_counters ?cc) (data_use st bcc)) = data_use st bcc"
    using f u by (subst uses_spend) (simp_all add: data_use_def CounterTypesCount_def)
  then show ?thesis
    using f by (intro exI [of _ "?cc\<lparr>cc_counters := spend (cc_counters ?cc) (data_use st bcc)\<rparr>"])
      (simp add: processBatchLevelData_def n Let_def batch_level_spend data_use_def NewCounterCollector_def del: run.simps)
qed

lemma txs_use_total: "distinct ts \<Longrightarrow> (\<forall>t\<in>set ts. tc_full (the (st t))) \<Longrightarrow> k < CounterTypesCount \<Longrightarrow>
    length (txs_use st ts) = CounterTypesCount \<and> txs_use st ts ! k = txs_total st ts k"
  by (induction ts) (auto simp: txs_total_def)

lemma length_txs_use: "\<forall>t\<in>set ts. tc_full (the (st t)) \<Longrightarrow> length (txs_use st ts) = CounterTypesCount"
  by (induction ts) auto

lemma vtimes_nth: "length us = CounterTypesCount \<Longrightarrow> k < CounterTypesCount \<Longrightarrow> vtimes n us ! k = of_nat n * us ! k"
  by (induction n) (simp_all add: algebra_simps)

lemma wf_batch_txs: "wf_batch st bcc \<Longrightarrow> \<forall>t\<in>set (transactions bcc). \<exists>tc. st t = Some tc \<and> tc_full tc"
  unfolding wf_batch_def by blast

lemma fresh_remaining:
  assumes "wf_counters cs" "uses cs = vzero" "k < CounterTypesCount"
  shows "remaining (the (cs ! k)) = initialAmount (the (cs ! k))"
proof -
  have k: "k < length cs" using assms(1,3) by (simp add: wf_counters_def)
  then have "balanced (cs ! k)" using assms(1) by (simp add: wf_counters_def list_all_length)
  moreover have "used (the (cs ! k)) = 0" using arg_cong [OF assms(2), of "\<lambda>us. us ! k"] assms(3) k by (simp add: uses_def)
  ultimately show ?thesis by (auto simp: balanced_def split: option.splits)
qed

lemma any_negative_spend:
  assumes "full cs" "length us = CounterTypesCount"
  shows "any_negative (spend cs us) = Inr (\<exists>k<CounterTypesCount. sint (remaining (the (cs ! k)) - us ! k) < 0)"
proof -
  have f: "full (spend cs us)" using assms by simp
  have "(\<exists>c\<in>set (spend cs us). sint (remaining (the c)) < 0) \<longleftrightarrow>
      (\<exists>k<CounterTypesCount. sint (remaining (the (spend cs us ! k))) < 0)"
    using full_length [OF f] by (metis in_set_conv_nth)
  also have "\<dots> \<longleftrightarrow> (\<exists>k<CounterTypesCount. sint (remaining (the (cs ! k)) - us ! k) < 0)"
    using assms by (intro ex_cong1 conj_cong refl) (simp add: spend_def)
  finally show ?thesis using f any_negative_full [of "spend cs us"] by (simp add: full_def)
qed

lemma CombineCollectors_use:
  assumes "inv st bcc U lost"
  obtains cc us where "CombineCollectors pct verify st bcc =
      Inr (spend (bcc_NewCounters pct bcc) us, st, bcc\<lparr>l2DataCollector := Some cc\<rparr>)"
    "length us = CounterTypesCount"
    "\<And>k. k < CounterTypesCount \<Longrightarrow> us ! k = addon_use bcc ! k + of_nat (nat (sint (blockCount bcc))) * block_use pct verify bcc ! k +
      data_use st bcc ! k + txs_total st (transactions bcc) k - open_use st U k - lost k"
proof -
  note wf = inv_wf [OF assms]
  obtain cc where cc: "full (cc_counters cc)" "processBatchLevelData pct st bcc = Inr (st, bcc\<lparr>l2DataCollector := Some cc\<rparr>)"
    "CombineCollectors pct verify st bcc = Inr (spend (bcc_NewCounters pct bcc)
       (batch_use pct verify (bcc\<lparr>l2DataCollector := Some cc\<rparr>)), st, bcc\<lparr>l2DataCollector := Some cc\<rparr>)"
    using wf by (rule CombineCollectors_returns)
  obtain cc' where cc': "bcc\<lparr>l2DataCollector := Some cc\<rparr> = bcc\<lparr>l2DataCollector := Some cc'\<rparr>" "uses (cc_counters cc') = data_use st bcc"
    using processBatchLevelData_use [OF assms, of pct] cc(2) by auto
  then have d: "uses (cc_counters cc) = data_use st bcc" using arg_cong [OF cc'(1), of l2DataCollector] by simp
  let ?b = "bcc\<lparr>l2DataCollector := Some cc\<rparr>"
  have b: "addon_use ?b = addon_use bcc" "block_use pct verify ?b = block_use pct verify bcc" "l2_use ?b = data_use st bcc"
    "cached_use ?b = cached_use bcc"
    using d by (simp_all add: addon_use_def block_use_def l2_use_def cached_use_def)
  note len = use_lengths(1-3) [OF wf] use_lengths(4) [OF wf, of pct verify]
  have "length (data_use st bcc) = CounterTypesCount" using full_length [OF cc(1)] d by (metis length_uses)
  then show thesis
    using that [OF cc(3)] len inv_balance [OF assms] by (simp add: batch_use_def b vtimes_nth algebra_simps)
qed

lemma clone_full_panics: "full cs \<Longrightarrow> clone_loop [] 0 cs = Inl (Panic ''index out of range'')"
  by (cases cs; cases "hd cs") (auto simp: full_def CounterTypesCount_def set_counter_def setidx_def)

section \<open>A batch with a running transaction\<close>

lemma CalculateRlp_returns:
  assumes "TransactionToL2Data (tc_transaction tc) 8 MaxEffectivePercentage = Inr raw" "tc_l2DataCache tc = None"
    and "\<And>c. u256_Sqrt c \<noteq> None" "GetPrice (tc_transaction tc) = Some price"
    "GetValue (tc_transaction tc) = Some val" "GetChainID (tc_transaction tc) = Some chain"
  shows "\<exists>tc'. CalculateRlp pct u256_Sqrt tc = Inr tc'"
proof -
  have "charges (run (rlp_charges u256_Sqrt (tc_transaction tc) raw price val chain))"
    by (rule charges_rlp_charges [OF assms(3,6)])
  then obtain r where "run (rlp_charges u256_Sqrt (tc_transaction tc) raw price val chain)
      (NewCounterCollector pct (tc_smtLevels tc) (tc_forkId tc)) = Inr r"
    using chargesE [OF _ wf_NewCounterCollector] by blast
  then show ?thesis using assms by (simp add: CalculateRlp_def GetL2DataCache_def del: run.simps)
qed

lemma AddNewTransactionCounters_returns:
  assumes "inv st bcc U lost" "t \<notin> set (transactions bcc)" "st t = Some tc" "\<And>c. u256_Sqrt c \<noteq> None"
    and "CalculateRlp pct u256_Sqrt tc = Inr tc'"
  shows "\<exists>overflow bcc'. AddNewTransactionCounters pct u256_Sqrt t st bcc = Inr (overflow, st(t \<mapsto> tc'), bcc') \<and>
    transactions bcc' = transactions bcc @ [t] \<and> bcc_unlimited bcc' = bcc_unlimited bcc"
proof -
  have f: "full (rlpCombinedCounters bcc)" using inv_wf [OF assms(1)] by (simp add: wf_batch_def)
  obtain c r tc1 where "tc' = tc\<lparr>tc_l2DataCache := Some c, tc_rlpCounters := r\<rparr>" "wf_counters (cc_counters r)"
    using CalculateRlp_Inr [OF assms(5,4)] by blast
  then have r: "full (cc_counters (tc_rlpCounters tc'))" by (simp add: wf_counters_full)
  define bcc1 where "bcc1 = bcc\<lparr>transactions := transactions bcc @ [t],
      rlpCombinedCounters := set_uses (rlpCombinedCounters bcc) (vplus (uses (rlpCombinedCounters bcc)) (rlp_of tc'))\<rparr>"
  have up: "UpdateRlpCountersCache tc' (bcc\<lparr>transactions := transactions bcc @ [t]\<rparr>) = Inr bcc1"
    using f r by (simp add: UpdateRlpCountersCache_def range_into_add rlp_of_def bcc1_def)
  have i: "inv (st(t \<mapsto> tc')) bcc1 (Set.insert t U) lost"
    by (rule inv_append [OF assms(1-4) assms(5) up])
  obtain cc us where cu: "CombineCollectors pct False (st(t \<mapsto> tc')) bcc1 =
      Inr (spend (bcc_NewCounters pct bcc1) us, st(t \<mapsto> tc'), bcc1\<lparr>l2DataCollector := Some cc\<rparr>)" "length us = CounterTypesCount"
    using CombineCollectors_use [OF i, of pct False] by blast
  have "\<exists>overflow bcc'. CheckForOverflow pct False (st(t \<mapsto> tc')) bcc1 = Inr (overflow, st(t \<mapsto> tc'), bcc') \<and>
      transactions bcc' = transactions bcc @ [t] \<and> bcc_unlimited bcc' = bcc_unlimited bcc"
    using cu by (auto simp: CheckForOverflow_def any_negative_spend bcc1_def)
  then show ?thesis using assms(3,5) up by (simp add: AddNewTransactionCounters_def)
qed

definition running_tx :: BatchTxData where
  "running_tx = \<lparr>bt_Transaction = LegacyTx \<lparr>tx_ChainID = None, tx_Nonce = 1, tx_Gas = 21000,
     tx_To = Some (replicate 20 7), tx_Value = Some 3, tx_Data = [1, 2], tx_V = 2037, tx_R = 5, tx_S = 6\<rparr> (Some 9),
     bt_EffectiveGasPricePercentage = MaxEffectivePercentage\<rparr>"

lemma running_batch:
  "\<exists>st bcc. reach 100 Some (\<lambda>_. 0) st bcc {0} (\<lambda>_. 0) \<and> transactions bcc = [0] \<and> \<not> bcc_unlimited bcc \<and>
    open_use st {0} (key_index CK_S) = 5"
proof -
  let ?R = "reach 100 Some (\<lambda>_. 0)" and ?tx = "bt_Transaction running_tx"
  define bcc where "bcc = NewBatchCounterCollector 100 80 9 1 False None"
  define tc where "tc = NewTransactionCounter 100 ?tx 80 9 1 False"
  have r0: "?R Map.empty bcc {} (\<lambda>_. 0)" unfolding bcc_def by (rule reach.start) simp
  have r1: "?R [0 \<mapsto> tc] bcc {} (\<lambda>_. 0)" unfolding tc_def by (rule reach.new [OF r0]) simp
  have b: "transactions bcc = []" "\<not> bcc_unlimited bcc" by (simp_all add: bcc_def NewBatchCounterCollector_def Let_def)
  have tc: "tc_transaction tc = ?tx" "tc_l2DataCache tc = None" by (simp_all add: tc_def NewTransactionCounter_def Let_def)
  have "wf_tx ?tx" by (simp add: running_tx_def wf_tx_def)
  then have l2: "TransactionToL2Data (tc_transaction tc) 8 MaxEffectivePercentage = Inr (enc_tx 8 running_tx)"
    using TransactionToL2Data_enc [of running_tx 8] by (simp add: tc(1) running_tx_def)
  have "GetPrice ?tx = Some 9" "GetValue ?tx = Some 3" "GetChainID ?tx = Some (DeriveChainId 2037)"
    by (simp_all add: running_tx_def GetValue_def)
  then obtain tc' where tc': "CalculateRlp 100 Some tc = Inr tc'"
    using CalculateRlp_returns [OF l2 tc(2), of Some 9 3 "DeriveChainId 2037" 100] tc(1) by auto
  obtain overflow bcc' where a: "AddNewTransactionCounters 100 Some 0 [0 \<mapsto> tc] bcc = Inr (overflow, [0 \<mapsto> tc'], bcc')"
    "transactions bcc' = [0]" "\<not> bcc_unlimited bcc'"
    using AddNewTransactionCounters_returns [OF reach_inv [OF r1] _ _ _ tc', of 0] b by auto
  have r2: "?R [0 \<mapsto> tc'] bcc' {0} (\<lambda>_. 0)" using reach.add [OF r1 _ a(1)] b(1) by simp
  obtain c r tc1 where tc'_eq: "tc' = tc\<lparr>tc_l2DataCache := Some c, tc_rlpCounters := r\<rparr>"
    using CalculateRlp_Inr [OF tc'] by auto
  let ?e = "tc_executionCounters tc'"
  have e: "full (cc_counters ?e)" "uses (cc_counters ?e) = vzero" "proc_of tc' = vzero"
    by (simp_all add: tc'_eq tc_def NewTransactionCounter_def Let_def SetTransaction_def NewCounterCollector_def
        getCounterLimits_def proc_of_def)
  let ?cc = "?e\<lparr>cc_counters := spend (cc_counters ?e) (vunit CK_S 5)\<rparr>"
  have "Deduct CK_S 5 (ExecutionCounters tc') = Inr ?cc" using e(1) by (simp add: ExecutionCounters_def Deduct_spend)
  from reach.execute [where t = 0 and tc = tc' and f = "Deduct CK_S 5", OF r2 _ _ this refl] have r3: "?R [0 \<mapsto> tc'\<lparr>tc_executionCounters := ?cc\<rparr>] bcc' {0} (\<lambda>_. 0)"
    using a(2) by (simp add: charges_intros)
  have "late (tc'\<lparr>tc_executionCounters := ?cc\<rparr>) (key_index CK_S) = 5"
    using e by (simp add: late_def exec_of_def proc_of_def uses_spend vunit_def CounterTypesCount_def)
  then have "open_use [0 \<mapsto> tc'\<lparr>tc_executionCounters := ?cc\<rparr>] {0} (key_index CK_S) = 5" by (simp add: open_use_def)
  then show ?thesis using r3 a(2,3) by blast
qed

section \<open>Properties\<close>

text \<open>
  C30. Cached sums against recomputation, in every state that the operations of a batch can lead to in any
  order (only a transaction that is in the batch is not added again): the counters that \<open>CombineCollectorsNoChanges\<close> recomputes from the transactions themselves are the
  limits charged with the earlier use, the batch data, the three cached sums that \<open>CombineCollectors\<close> uses
  instead, the execution and processing use of the transactions that were added and not committed,
  and what was lost by a charge or commit after the commit, by the removal of an uncommitted transaction
  or by clearing. So the caches agree with the transactions when nothing was lost and every
  transaction that has used anything is committed, and otherwise differ by exactly that use.
\<close>
theorem caches_against_transactions:
  assumes "reach pct isqrt codeSize st bcc U lost" "\<And>c. isqrt c \<noteq> None"
  shows "CombineCollectorsNoChanges pct st bcc =
    Inr (spend (bcc_NewCounters pct bcc) (vplus (vplus (addon_use bcc) (l2_use bcc))
      (map (\<lambda>k. cached_use bcc ! k + open_use st U k + lost k) [0..<CounterTypesCount])))"
proof -
  have i: "inv st bcc U lost" using assms by (rule reach_inv)
  note wf = inv_wf [OF i]
  have d: "distinct (transactions bcc)" "\<forall>t\<in>set (transactions bcc). tc_full (the (st t))"
    using i wf_batch_tx [OF wf] by (simp_all add: inv_def)
  have l: "length (txs_use st (transactions bcc)) = CounterTypesCount" using d(2) by (rule length_txs_use)
  have "txs_use st (transactions bcc) = map (\<lambda>k. cached_use bcc ! k + open_use st U k + lost k) [0..<CounterTypesCount]"
    using l d inv_balance [OF i] by (intro list8_eqI) (simp_all add: txs_use_total)
  then show ?thesis
    using with_addon_spend [OF wf, of "bcc_NewCounters pct bcc"] use_lengths(1-3) [OF wf]
      noChanges_spend [OF wf_batch_txs [OF wf]]
    by (simp add: CombineCollectorsNoChanges_def with_l2Data_spend [OF wf] NewCounters_def spend_spend)
qed

theorem caches_against_transactions_witness:
  "\<exists>st bcc. transactions bcc = [0] \<and> open_use st {0} (key_index CK_S) = 5 \<and>
    CombineCollectorsNoChanges 100 st bcc =
      Inr (spend (bcc_NewCounters 100 bcc) (vplus (vplus (addon_use bcc) (l2_use bcc))
        (map (\<lambda>k. cached_use bcc ! k + open_use st {0} k + 0) [0..<CounterTypesCount])))"
proof -
  obtain st bcc where r: "reach 100 Some (\<lambda>_. 0) st bcc {0} (\<lambda>_. 0)" "transactions bcc = [0]"
    "open_use st {0} (key_index CK_S) = 5"
    using running_batch by blast
  from caches_against_transactions [OF r(1)] r(2,3) show ?thesis by blast
qed

text \<open>
  C31. The overflow check is exact and total: in every state that the operations of a limited batch lead
  to in any order (only a transaction that is in the batch is not added again), \<open>CheckForOverflow\<close> returns (no panic, no error), changes nothing but the collector of the
  batch data, and reports an overflow if and only if for some counter the limit of the fork minus what
  is counted is negative as a 64-bit integer. Counted are the use of earlier batches, the two block
  operations for each started block, the batch data (362 steps, 1 arithmetic, 9 binaries, the keccaks of the
  encoded bytes and 2 more, twice the levels of the tree and 46 poseidons), and the use of the
  transactions without the execution and processing use of those that are not committed and
  without what was lost.
\<close>
theorem CheckForOverflow_exact:
  assumes "reach pct isqrt codeSize st bcc U lost" "\<And>c. isqrt c \<noteq> None" "\<not> bcc_unlimited bcc"
  shows "\<exists>cc. CheckForOverflow pct verify st bcc =
    Inr (\<exists>k<CounterTypesCount. sint (initialAmount (the (getCounterLimits pct (forkId bcc) ! k)) -
           (addon_use bcc ! k + of_nat (nat (sint (blockCount bcc))) * block_use pct verify bcc ! k + data_use st bcc ! k +
            txs_total st (transactions bcc) k - open_use st U k - lost k)) < 0,
         st, bcc\<lparr>l2DataCollector := Some cc\<rparr>)"
proof -
  have i: "inv st bcc U lost" using assms(1,2) by (rule reach_inv)
  obtain cc us where u: "CombineCollectors pct verify st bcc =
      Inr (spend (bcc_NewCounters pct bcc) us, st, bcc\<lparr>l2DataCollector := Some cc\<rparr>)" "length us = CounterTypesCount"
    "\<And>k. k < CounterTypesCount \<Longrightarrow> us ! k = addon_use bcc ! k + of_nat (nat (sint (blockCount bcc))) * block_use pct verify bcc ! k +
      data_use st bcc ! k + txs_total st (transactions bcc) k - open_use st U k - lost k"
    using CombineCollectors_use [OF i, of pct verify] by blast
  let ?c = "bcc_NewCounters pct bcc"
  have c: "?c = getCounterLimits pct (forkId bcc)" using assms(3) by (simp add: bcc_NewCounters_def)
  have r: "remaining (the (?c ! k)) = initialAmount (the (?c ! k))" if "k < CounterTypesCount" for k
    using that by (intro fresh_remaining) simp_all
  have "any_negative (spend ?c us) = Inr (\<exists>k<CounterTypesCount. sint (remaining (the (?c ! k)) - us ! k) < 0)"
    using u(2) by (intro any_negative_spend) simp_all
  also have "\<dots> = Inr (\<exists>k<CounterTypesCount. sint (initialAmount (the (?c ! k)) - us ! k) < 0)"
    using r by (metis (no_types, lifting))
  finally show ?thesis unfolding c using assms(3) u by (auto simp: CheckForOverflow_def c)
qed

theorem CheckForOverflow_exact_witness:
  "\<exists>st bcc cc. transactions bcc = [0] \<and> open_use st {0} (key_index CK_S) = 5 \<and>
    CheckForOverflow 100 True st bcc =
      Inr (\<exists>k<CounterTypesCount. sint (initialAmount (the (getCounterLimits 100 (forkId bcc) ! k)) -
           (addon_use bcc ! k + of_nat (nat (sint (blockCount bcc))) * block_use 100 True bcc ! k + data_use st bcc ! k +
            txs_total st [0] k - open_use st {0} k - 0)) < 0,
         st, bcc\<lparr>l2DataCollector := Some cc\<rparr>)"
proof -
  obtain st bcc where r: "reach 100 Some (\<lambda>_. 0) st bcc {0} (\<lambda>_. 0)" "transactions bcc = [0]" "\<not> bcc_unlimited bcc"
    "open_use st {0} (key_index CK_S) = 5"
    using running_batch by blast
  from CheckForOverflow_exact [OF r(1) _ r(3), of True, unfolded r(2)] r(2,4) show ?thesis by blast
qed

text \<open>
  C40. A batch cannot be cloned: in every state that the operations of a batch lead to in any order
  (only a transaction that is in the batch is not added again), \<open>Clone\<close> of the batch collector panics with an index out of range, whatever the addresses for its copies,
  because \<open>Clone\<close> of counters assigns to the elements of an empty slice.
\<close>
theorem BatchCounterCollector_Clone_panics:
  assumes "reach pct isqrt codeSize st bcc U lost" "\<And>c. isqrt c \<noteq> None"
  shows "BatchCounterCollector_Clone fresh st bcc = Inl (Panic ''index out of range'')"
proof -
  have wf: "wf_batch st bcc" using inv_wf [OF reach_inv [OF assms]] .
  show ?thesis
  proof (cases "transactions bcc")
    case Nil
    then show ?thesis
      using wf by (cases "l2DataCollector bcc")
        (simp_all add: BatchCounterCollector_Clone_def wf_batch_def Counters_Clone_def CounterCollector_Clone_def clone_full_panics)
  next
    case (Cons t ts)
    then obtain tc where "st t = Some tc" "tc_full tc" using wf by (auto simp: wf_batch_def)
    then show ?thesis
      using Cons by (simp add: BatchCounterCollector_Clone_def TransactionCounter_Clone_def CounterCollector_Clone_def
          tc_full_def clone_full_panics)
  qed
qed

theorem BatchCounterCollector_Clone_panics_witness:
  "\<exists>st bcc. transactions bcc = [0] \<and> BatchCounterCollector_Clone [1] st bcc = Inl (Panic ''index out of range'') \<and>
    BatchCounterCollector_Clone [] Map.empty (NewBatchCounterCollector 100 80 9 1 False None) = Inl (Panic ''index out of range'')"
proof -
  obtain st bcc where r: "reach 100 Some (\<lambda>_. 0) st bcc {0} (\<lambda>_. 0)" "transactions bcc = [0]"
    using running_batch by blast
  have "reach 100 Some (\<lambda>_. 0) Map.empty (NewBatchCounterCollector 100 80 9 1 False None) {} (\<lambda>_. 0)"
    by (rule reach.start) simp
  then show ?thesis
    using BatchCounterCollector_Clone_panics [OF r(1)] BatchCounterCollector_Clone_panics r(2) by blast
qed

end
