(* ===== verification/SmtUtils.thy ===== *)
theory SmtUtils
  imports Prelude
begin

text \<open>
  Keys, values and paths of the sparse Merkle tree (\<open>smt/pkg/utils/utils.go\<close> and
  \<open>utils_xlayer.go\<close>). A \<open>NodeKey\<close> is an array of four \<open>uint64\<close>; the slice \<open>nk[:]\<close> is \<open>nk_list nk\<close>.
  A \<open>*big.Int\<close> is an \<open>int option\<close> with \<open>None\<close> for nil, and the arrays \<open>NodeValue8\<close> and
  \<open>NodeValue12\<close> are lists of 8 and 12 of them. The Poseidon hash is third-party code and is the
  parameter \<open>hashFunc\<close> of the definitions that call it. The path of a key lists its 256 bits,
  interleaving the four words; the lemmas of this theory relate paths, removed prefixes and
  joined keys bit by bit.
\<close>

section \<open>Node keys\<close>

datatype NodeKey = NodeKey (nk0: uint64) (nk1: uint64) (nk2: uint64) (nk3: uint64)

text \<open>The conversions between the array and the slice of its elements.\<close>

definition nk_list :: "NodeKey \<Rightarrow> uint64 list" where
  "nk_list k = [nk0 k, nk1 k, nk2 k, nk3 k]"

definition nk_of :: "uint64 list \<Rightarrow> NodeKey" where
  "nk_of xs = NodeKey (xs ! 0) (xs ! 1) (xs ! 2) (xs ! 3)"

type_synonym bigint = "int option"
type_synonym NodeValue8 = "bigint list"
type_synonym NodeValue12 = "bigint list"

definition LeafCapacity :: NodeKey where "LeafCapacity = NodeKey 1 0 0 0"
definition BranchCapacity :: NodeKey where "BranchCapacity = NodeKey 0 0 0 0"

text \<open>The type of the hash: eight elements and a capacity of four give four elements.\<close>

type_synonym hash = "uint64 list \<Rightarrow> NodeKey \<Rightarrow> NodeKey"

definition Hash :: "hash \<Rightarrow> uint64 list \<Rightarrow> NodeKey \<Rightarrow> NodeKey" where
  "Hash hashFunc input capacity = hashFunc input capacity"

definition HashByPointers :: "hash \<Rightarrow> uint64 list \<Rightarrow> NodeKey \<Rightarrow> NodeKey" where
  "HashByPointers hashFunc input capacity = hashFunc input capacity"

definition NodeKey_IsZero :: "NodeKey \<Rightarrow> bool" where
  "NodeKey_IsZero nk \<longleftrightarrow> nk0 nk = 0 \<and> nk1 nk = 0 \<and> nk2 nk = 0 \<and> nk3 nk = 0"

definition IsEqualTo :: "NodeKey \<Rightarrow> NodeKey \<Rightarrow> bool" where
  "IsEqualTo nk other \<longleftrightarrow>
     nk0 nk = nk0 other \<and> nk1 nk = nk1 other \<and> nk2 nk = nk2 other \<and> nk3 nk = nk3 other"

section \<open>Node values\<close>

definition NodeValue8_IsZero :: "NodeValue8 option \<Rightarrow> bool" where
  "NodeValue8_IsZero nv =
     (case nv of
        None \<Rightarrow> True
      | Some vs \<Rightarrow> list_all (\<lambda>v. case v of None \<Rightarrow> False | Some x \<Rightarrow> big_Uint64 x = 0) vs)"

definition SetHalfValue :: "NodeValue8 \<Rightarrow> NodeKey \<Rightarrow> int \<Rightarrow> NodeValue8 result" where
  "SetHalfValue nv values part =
     (if part < 0 \<or> part > 1 then Inl (Err ''part must be 0 or 1'')
      else let partI = nat part * 4 in
        Inr (take partI nv @ map (\<lambda>v. Some (uint v)) (nk_list values) @ drop (partI + 4) nv))"

definition ToUintArray :: "NodeValue8 option \<Rightarrow> uint64 list" where
  "ToUintArray nv =
     (case nv of
        None \<Rightarrow> replicate 8 0
      | Some vs \<Rightarrow> map (\<lambda>v. case v of None \<Rightarrow> 0 | Some x \<Rightarrow> big_Uint64 x) vs)"

text \<open>\<open>nv[i].Uint64()\<close> for the elements of a slice: a nil element panics.\<close>

primrec uint64s :: "bigint list \<Rightarrow> uint64 list result" where
  "uint64s [] = Inr []"
| "uint64s (v # vs) = rbind (deref v) (\<lambda>x. rbind (uint64s vs) (\<lambda>xs. Inr (big_Uint64 x # xs)))"

definition StripCapacity :: "NodeValue12 \<Rightarrow> uint64 list result" where
  "StripCapacity nv = uint64s (take 8 nv)"

definition Get0to4 :: "NodeValue12 \<Rightarrow> NodeKey result" where
  "Get0to4 nv = rbind (uint64s (take 4 nv)) (\<lambda>xs. Inr (nk_of xs))"

definition Get4to8 :: "NodeValue12 \<Rightarrow> NodeKey result" where
  "Get4to8 nv = rbind (uint64s (take 4 (drop 4 nv))) (\<lambda>xs. Inr (nk_of xs))"

definition GetNodeValue8 :: "NodeValue12 \<Rightarrow> NodeValue8" where
  "GetNodeValue8 nv = take 8 nv"

definition Get0to8 :: "NodeValue12 \<Rightarrow> uint64 list result" where
  "Get0to8 nv = uint64s (take 8 nv)"

text \<open>The array has four elements: a longer slice is indexed out of range.\<close>

definition NodeKeyFromBigIntArray :: "bigint list \<Rightarrow> NodeKey result" where
  "NodeKeyFromBigIntArray arr =
     (if length arr > 4 then Inl (Panic ''index out of range'')
      else Inr (nk_of (map (\<lambda>v. case v of None \<Rightarrow> 0 | Some x \<Rightarrow> big_Uint64 x) arr
                       @ replicate (4 - length arr) 0)))"

text \<open>The array has twelve elements, so the loop visits the indices 0, 4 and 8.\<close>

primrec uniqueSibling_loop :: "bigint list \<Rightarrow> nat list \<Rightarrow> nat \<Rightarrow> int \<Rightarrow> (nat \<times> int) result" where
  "uniqueSibling_loop a [] count fnd = Inr (count, fnd)"
| "uniqueSibling_loop a (i # is) count fnd =
     rbind (NodeKeyFromBigIntArray (take 4 (drop i a))) (\<lambda>k.
     if \<not> NodeKey_IsZero k then uniqueSibling_loop a is (count + 1) (int i div 4)
     else uniqueSibling_loop a is count fnd)"

definition IsUniqueSibling :: "NodeValue12 \<Rightarrow> int result" where
  "IsUniqueSibling nv =
     rbind (uniqueSibling_loop nv [0, 4, 8] 0 0) (\<lambda>(count, fnd). Inr (if count = 1 then fnd else -1))"

definition IsArrayUint64Empty :: "uint64 list \<Rightarrow> bool" where
  "IsArrayUint64Empty arr = list_all (\<lambda>v. \<not> v > 0) arr"

text \<open>\<open>copy(nv[:], arr)\<close> into a fresh array of \<open>n\<close> nil pointers.\<close>

definition copy_array :: "nat \<Rightarrow> bigint list \<Rightarrow> bigint list" where
  "copy_array n arr = take n arr @ replicate (n - length arr) None"

definition Value8FromBigIntArray :: "bigint list \<Rightarrow> NodeValue8" where
  "Value8FromBigIntArray arr = copy_array 8 arr"

definition NodeValue12FromBigIntArray :: "bigint list \<Rightarrow> NodeValue12 result" where
  "NodeValue12FromBigIntArray arr =
     (if length arr \<noteq> 12 then Inl (Err ''invalid array length'') else Inr (copy_array 12 arr))"

definition NodeValue8FromBigIntArray :: "bigint list \<Rightarrow> NodeValue8 result" where
  "NodeValue8FromBigIntArray arr =
     (if length arr \<noteq> 8 then Inl (Err ''invalid array length'') else Inr (copy_array 8 arr))"

definition BigIntArrayFromNodeValue8 :: "NodeValue8 option \<Rightarrow> bigint list result" where
  "BigIntArrayFromNodeValue8 nv = rbind (deref nv) (\<lambda>vs. Inr (copy_array 8 vs))"

fun zero12_loop :: "bool \<Rightarrow> bigint list \<Rightarrow> bool result" where
  "zero12_loop zero [] = Inr zero"
| "zero12_loop zero (v # vs) = rbind (deref v) (\<lambda>x. if x = 0 then zero12_loop True vs else Inr False)"

definition NodeValue12_IsZero :: "NodeValue12 \<Rightarrow> bool result" where
  "NodeValue12_IsZero nv = zero12_loop False nv"

definition NodeValue12_IsNil :: "NodeValue12 option \<Rightarrow> bool" where
  "NodeValue12_IsNil nv = (case nv of None \<Rightarrow> True | Some vs \<Rightarrow> list_all (\<lambda>v. v = None) vs)"

definition IsFinalNode :: "NodeValue12 \<Rightarrow> bool" where
  "IsFinalNode nv = (case nv ! 8 of None \<Rightarrow> False | Some x \<Rightarrow> x = 1)"

section \<open>Paths\<close>

primrec getPath_loop :: "nat \<Rightarrow> uint64 list \<Rightarrow> nat list" where
  "getPath_loop 0 auxk = []"
| "getPath_loop (Suc j) auxk = map (\<lambda>a. unat (a AND 1)) auxk @ getPath_loop j (map (drop_bit 1) auxk)"

definition GetPath :: "NodeKey \<Rightarrow> nat list" where
  "GetPath nk = getPath_loop 64 (nk_list nk)"

definition fromPath_step :: "nat list \<Rightarrow> uint64 list \<Rightarrow> nat \<Rightarrow> uint64 list" where
  "fromPath_step path res j =
     (let i = j mod 4; k = j div 4 in res[i := res ! i OR push_bit k (of_nat (path ! j))])"

definition NodeKeyFromPath :: "nat list \<Rightarrow> NodeKey result" where
  "NodeKeyFromPath path =
     (if length path \<noteq> 256 then Inl (Err ''path is not 256 bits'')
      else Inr (nk_of (foldl (fromPath_step path) [0, 0, 0, 0] [0..<256])))"

definition ConcatArrays4 :: "NodeKey \<Rightarrow> NodeKey \<Rightarrow> uint64 list" where
  "ConcatArrays4 a b = nk_list a @ nk_list b"

definition ConcatArrays4ByPointers :: "NodeKey \<Rightarrow> NodeKey \<Rightarrow> uint64 list" where
  "ConcatArrays4ByPointers a b = [nk0 a, nk1 a, nk2 a, nk3 a, nk0 b, nk1 b, nk2 b, nk3 b]"

definition ConcatArrays8AndCapacityByPointers :: "uint64 list \<Rightarrow> NodeKey \<Rightarrow> NodeValue12" where
  "ConcatArrays8AndCapacityByPointers input capacity =
     map (\<lambda>v. Some (uint v)) input @ map (\<lambda>v. Some (uint v)) (nk_list capacity)"

definition HashKeyAndValueByPointers :: "hash \<Rightarrow> uint64 list \<Rightarrow> NodeKey \<Rightarrow> NodeKey \<times> NodeValue12" where
  "HashKeyAndValueByPointers hashFunc input capacity =
     (let h = HashByPointers hashFunc input capacity
      in (h, ConcatArrays8AndCapacityByPointers input capacity))"

definition RemoveKeyBits :: "NodeKey \<Rightarrow> nat \<Rightarrow> NodeKey" where
  "RemoveKeyBits k nBits =
     (let fullLevels = nBits div 4
      in nk_of (map (\<lambda>i. drop_bit (if fullLevels * 4 + i < nBits then fullLevels + 1 else fullLevels)
                                   (nk_list k ! i)) [0..<4]))"

definition joinKey_step :: "nat \<times> uint64 list \<times> uint64 list \<Rightarrow> nat \<Rightarrow> nat \<times> uint64 list \<times> uint64 list" where
  "joinKey_step s b =
     (case s of (i, n, accs) \<Rightarrow>
        (i + 1, n[i mod 4 := n ! (i mod 4) + 1],
         if b = 1 then accs[i mod 4 := accs ! (i mod 4) OR push_bit (unat (n ! (i mod 4))) 1] else accs))"

definition JoinKey :: "nat list \<Rightarrow> NodeKey \<Rightarrow> NodeKey" where
  "JoinKey usedBits remainingKey =
     (case foldl joinKey_step (0, [0, 0, 0, 0], [0, 0, 0, 0]) usedBits of (i, n, accs) \<Rightarrow>
        nk_of (map (\<lambda>i. push_bit (unat (n ! i)) (nk_list remainingKey ! i) OR accs ! i) [0..<4]))"

text \<open>The comparison function that \<open>SortNodeKeysBitwiseAsc\<close> passes to \<open>sort.Slice\<close>.\<close>

fun sortRow :: "uint64 list \<Rightarrow> uint64 list \<Rightarrow> bool option" where
  "sortRow (a # as) (b # bs) =
     (if a AND 1 \<noteq> b AND 1 then Some (a AND 1 < b AND 1) else sortRow as bs)"
| "sortRow _ _ = None"

primrec sortLess_loop :: "nat \<Rightarrow> uint64 list \<Rightarrow> uint64 list \<Rightarrow> bool" where
  "sortLess_loop 0 aTmp bTmp = True"
| "sortLess_loop (Suc l) aTmp bTmp =
     (case sortRow aTmp bTmp of
        Some r \<Rightarrow> r
      | None \<Rightarrow> sortLess_loop l (map (drop_bit 1) aTmp) (map (drop_bit 1) bTmp))"

definition SortNodeKeysBitwiseAsc_less :: "NodeKey \<Rightarrow> NodeKey \<Rightarrow> bool" where
  "SortNodeKeysBitwiseAsc_less a b = sortLess_loop 64 (nk_list a) (nk_list b)"

section \<open>Lemmas on keys\<close>

lemma length_nk_list [simp]: "length (nk_list k) = 4"
  by (simp add: nk_list_def)

lemma nk_of_nk_list [simp]: "nk_of (nk_list k) = k"
  by (cases k) (simp add: nk_list_def nk_of_def)

lemma list4_cases: "length xs = 4 \<Longrightarrow> (\<And>a b c d. xs = [a, b, c, d] \<Longrightarrow> P) \<Longrightarrow> P"
  by (auto simp: numeral_eq_Suc length_Suc_conv)

lemma nk_list_nk_of [simp]: "length xs = 4 \<Longrightarrow> nk_list (nk_of xs) = xs"
  by (erule list4_cases) (simp add: nk_list_def nk_of_def)

lemma nk_eqI:
  assumes "\<And>i. i < 4 \<Longrightarrow> nk_list k ! i = nk_list k' ! i"
  shows "k = k'"
proof -
  have "nk_list k = nk_list k'" using assms by (intro nth_equalityI) simp_all
  then show ?thesis by (metis nk_of_nk_list)
qed

lemma nk_list_inject [simp]: "nk_list k = nk_list k' \<longleftrightarrow> k = k'"
  by (metis nk_of_nk_list)

lemma IsEqualTo_iff [simp]: "IsEqualTo k k' \<longleftrightarrow> k = k'"
  by (cases k; cases k') (simp add: IsEqualTo_def)

lemma NodeKey_IsZero_iff: "NodeKey_IsZero k \<longleftrightarrow> k = NodeKey 0 0 0 0"
  by (cases k) (simp add: NodeKey_IsZero_def)

section \<open>Lemmas on paths\<close>

definition path_bit :: "NodeKey \<Rightarrow> nat \<Rightarrow> bool" where
  "path_bit k j \<longleftrightarrow> bit (nk_list k ! (j mod 4)) (j div 4)"

lemma length_getPath_loop: "length (getPath_loop n xs) = n * length xs"
  by (induction n arbitrary: xs) simp_all

lemma length_GetPath [simp]: "length (GetPath k) = 256"
  by (simp add: GetPath_def length_getPath_loop)

lemma and_one_bit: "unat ((a :: uint64) AND 1) = of_bool (bit a 0)"
  by (simp add: and_one_eq mod_2_eq_odd bit_0)

lemma getPath_loop_nth:
  "length xs = 4 \<Longrightarrow> j < 4 * n \<Longrightarrow> getPath_loop n xs ! j = of_bool (bit (xs ! (j mod 4)) (j div 4))"
proof (induction n arbitrary: xs j)
  case (Suc n)
  show ?case
  proof (cases "j < 4")
    case True
    then show ?thesis using Suc.prems by (simp add: nth_append and_one_bit)
  next
    case False
    have "j - 4 < 4 * n" using Suc.prems False by simp
    then have "getPath_loop n (map (drop_bit 1) xs) ! (j - 4) =
        of_bool (bit (map (drop_bit 1) xs ! ((j - 4) mod 4)) ((j - 4) div 4))"
      using Suc.prems by (intro Suc.IH) simp_all
    moreover have "(j - 4) mod 4 = j mod 4" "1 + (j - 4) div 4 = j div 4"
      using False by (simp_all add: le_mod_geq le_div_geq)
    ultimately show ?thesis
      using False Suc.prems by (simp add: nth_append bit_drop_bit_eq)
  qed
qed simp

lemma GetPath_nth: "j < 256 \<Longrightarrow> GetPath k ! j = of_bool (path_bit k j)"
  unfolding GetPath_def path_bit_def by (rule getPath_loop_nth) simp_all

lemma path_bit_eqI:
  assumes "\<And>j. j < 256 \<Longrightarrow> path_bit k j = path_bit k' j"
  shows "k = k'"
proof (rule nk_eqI, rule bit_word_eqI)
  fix i n assume i: "i < (4::nat)" and n: "n < LENGTH(64)"
  have "4 * n + i < 256" "(4 * n + i) mod 4 = i" "(4 * n + i) div 4 = n" using i n by simp_all
  then show "bit (nk_list k ! i) n = bit (nk_list k' ! i) n"
    using assms [of "4 * n + i"] by (simp add: path_bit_def)
qed

lemma GetPath_inject [simp]: "GetPath k = GetPath k' \<longleftrightarrow> k = k'"
proof
  assume "GetPath k = GetPath k'"
  then show "k = k'" by (intro path_bit_eqI) (metis GetPath_nth of_bool_eq_iff)
qed simp

text \<open>How many of the first \<open>m\<close> levels of a path are bits of word \<open>i\<close>.\<close>

definition word_levels :: "nat \<Rightarrow> nat \<Rightarrow> nat" where
  "word_levels m i = (m + 3 - i) div 4"

lemma word_levels_alt: "i < 4 \<Longrightarrow> word_levels m i = m div 4 + (if i < m mod 4 then 1 else 0)"
proof -
  assume i: "i < 4"
  have "m + 3 - i = 4 * (m div 4) + (m mod 4 + 3 - i)" using i by simp
  then have "word_levels m i = m div 4 + (m mod 4 + 3 - i) div 4"
    unfolding word_levels_def by simp
  moreover have "(m mod 4 + 3 - i) div 4 = (if i < m mod 4 then 1 else 0)"
  proof (cases "i < m mod 4")
    case True
    then have "4 \<le> m mod 4 + 3 - i" "m mod 4 + 3 - i < 2 * 4" using mod_less_divisor [of 4 m] by simp_all
    then have "(m mod 4 + 3 - i) div 4 = 1" by (simp add: div_nat_eqI)
    then show ?thesis using True by simp
  next
    case False
    then have "m mod 4 + 3 - i < 4" by simp
    then show ?thesis using False by simp
  qed
  ultimately show ?thesis by simp
qed

lemma word_levels_removed:
  "i < 4 \<Longrightarrow> (if m div 4 * 4 + i < m then m div 4 + 1 else m div 4) = word_levels m i"
proof -
  have "m div 4 * 4 + i < m \<longleftrightarrow> i < m mod 4" using div_mult_mod_eq [of m 4] by linarith
  then show "i < 4 \<Longrightarrow> ?thesis" by (simp add: word_levels_alt)
qed

lemma word_levels_less:
  assumes "i < 4" shows "t < word_levels m i \<longleftrightarrow> 4 * t + i < m"
proof -
  define q r where "q = m div 4" and "r = m mod 4"
  have "m = 4 * q + r" "r < 4" by (simp_all add: q_def r_def)
  then show ?thesis
    using assms by (simp add: word_levels_alt) arith
qed

lemma word_levels_here: "word_levels m (m mod 4) = m div 4"
  by (simp add: word_levels_alt)

lemma word_levels_Suc:
  assumes "i < 4"
  shows "word_levels (Suc m) i = (if i = m mod 4 then word_levels m i + 1 else word_levels m i)"
proof (cases "m mod 4 = 3")
  case True
  then have "Suc m mod 4 = 0" "Suc m div 4 = Suc (m div 4)" by (simp_all add: mod_Suc div_Suc)
  then show ?thesis using assms True by (auto simp: word_levels_alt)
next
  case False
  then have "Suc m mod 4 = Suc (m mod 4)" "Suc m div 4 = m div 4" by (simp_all add: mod_Suc div_Suc)
  then show ?thesis using assms by (auto simp: word_levels_alt)
qed

lemma div_mod_4_iff:
  assumes "i < (4::nat)" shows "4 * t + i = m \<longleftrightarrow> i = m mod 4 \<and> t = m div 4"
proof
  show "4 * t + i = m \<Longrightarrow> i = m mod 4 \<and> t = m div 4" using assms by auto
  show "i = m mod 4 \<and> t = m div 4 \<Longrightarrow> 4 * t + i = m" by simp
qed

lemma joinKey_fold:
  "length us \<le> 256 \<Longrightarrow>
   \<exists>n accs. foldl joinKey_step (0, [0, 0, 0, 0], [0, 0, 0, 0]) us = (length us, n, accs) \<and>
     length n = 4 \<and> length accs = 4 \<and>
     (\<forall>i<4. unat (n ! i) = word_levels (length us) i \<and>
        (\<forall>t. bit (accs ! i) t \<longleftrightarrow> 4 * t + i < length us \<and> us ! (4 * t + i) = 1))"
proof (induction us rule: rev_induct)
  case Nil
  have "([0, 0, 0, 0] :: uint64 list) ! i = 0" if "i < 4" for i
    using that by (auto simp: less_Suc_eq numeral_eq_Suc)
  then show ?case by (auto simp: word_levels_def)
next
  case (snoc b us)
  let ?m = "length us" and ?r = "length us mod 4"
  obtain n accs where IH: "foldl joinKey_step (0, [0, 0, 0, 0], [0, 0, 0, 0]) us = (?m, n, accs)"
    "length n = 4" "length accs = 4" and
    n: "\<And>i. i < 4 \<Longrightarrow> unat (n ! i) = word_levels ?m i" and
    a: "\<And>i t. i < 4 \<Longrightarrow> bit (accs ! i) t \<longleftrightarrow> 4 * t + i < ?m \<and> us ! (4 * t + i) = 1"
    using snoc by auto
  define n' where "n' = n[?r := n ! ?r + 1]"
  define accs' where "accs' = (if b = 1 then accs[?r := accs ! ?r OR push_bit (unat (n ! ?r)) 1] else accs)"
  have m: "?m < 256" using snoc.prems by simp
  have nr: "unat (n ! ?r) = ?m div 4" using n [of ?r] by (simp add: word_levels_here)
  have "unat (n ! ?r + 1) = ?m div 4 + 1"
    using nr m by (subst unat_add_lem [THEN iffD1]) (simp_all add: less_mult_imp_div_less)
  then have "unat (n' ! i) = word_levels (Suc ?m) i" if "i < 4" for i
    using that IH(2) n [OF that] by (auto simp: n'_def word_levels_Suc word_levels_here nth_list_update)
  moreover have "bit (accs' ! i) t \<longleftrightarrow> 4 * t + i < Suc ?m \<and> (us @ [b]) ! (4 * t + i) = 1" if i: "i < 4" for i t
  proof -
    have new: "4 * t + i = ?m \<longleftrightarrow> i = ?r \<and> t = ?m div 4"
      using i by (rule div_mod_4_iff)
    have e: "bit (2 ^ (?m div 4) :: uint64) t \<longleftrightarrow> t = ?m div 4"
      using m by (auto simp: bit_exp_iff possible_bit_word)
    have "bit (accs' ! i) t \<longleftrightarrow> bit (accs ! i) t \<or> (b = 1 \<and> 4 * t + i = ?m)"
      using i IH(3) unfolding new accs'_def nr
      by (cases "b = 1"; cases "i = ?r") (simp_all add: bit_or_iff e)
    moreover have "(4 * t + i < ?m \<and> us ! (4 * t + i) = 1) \<or> (b = 1 \<and> 4 * t + i = ?m) \<longleftrightarrow>
        4 * t + i < Suc ?m \<and> (us @ [b]) ! (4 * t + i) = 1"
      by (cases "4 * t + i" ?m rule: linorder_cases) (simp_all add: nth_append)
    ultimately show ?thesis using a [OF i, of t] by simp
  qed
  moreover have "foldl joinKey_step (0, [0, 0, 0, 0], [0, 0, 0, 0]) (us @ [b]) = (Suc ?m, n', accs')"
    using IH(1) by (simp add: joinKey_step_def n'_def accs'_def)
  ultimately show ?case using IH(2,3) by (simp add: n'_def accs'_def)
qed

lemma RemoveKeyBits_nth: "i < 4 \<Longrightarrow> nk_list (RemoveKeyBits k m) ! i = drop_bit (word_levels m i) (nk_list k ! i)"
  unfolding RemoveKeyBits_def Let_def by (simp add: word_levels_removed)

lemma JoinKey_bit:
  assumes "length us \<le> 256" "i < 4"
  shows "bit (nk_list (JoinKey us r) ! i) t \<longleftrightarrow>
    (if 4 * t + i < length us then us ! (4 * t + i) = 1
     else t < 64 \<and> bit (nk_list r ! i) (t - word_levels (length us) i))"
proof -
  obtain n accs where f: "foldl joinKey_step (0, [0, 0, 0, 0], [0, 0, 0, 0]) us = (length us, n, accs)"
    "length n = 4" "length accs = 4"
    "\<forall>i<4. unat (n ! i) = word_levels (length us) i \<and>
       (\<forall>t. bit (accs ! i) t \<longleftrightarrow> 4 * t + i < length us \<and> us ! (4 * t + i) = 1)"
    using joinKey_fold [OF assms(1)] by blast
  have "nk_list (JoinKey us r) ! i = push_bit (unat (n ! i)) (nk_list r ! i) OR accs ! i"
    using assms(2) by (simp add: JoinKey_def f(1))
  then show ?thesis
    using f(4) assms word_levels_less [of i t "length us"]
    by (auto simp: bit_or_iff bit_push_bit_iff)
qed

lemma path_bit_JoinKey:
  assumes "length us \<le> 256" "j < 256"
  shows "path_bit (JoinKey us r) j \<longleftrightarrow>
    (if j < length us then us ! j = 1
     else bit (nk_list r ! (j mod 4)) (j div 4 - word_levels (length us) (j mod 4)))"
  using JoinKey_bit [OF assms(1), of "j mod 4" r "j div 4"] less_mult_imp_div_less [of j 64 4] assms(2)
  by (simp add: path_bit_def)

lemma JoinKey_RemoveKeyBits:
  assumes "m \<le> 256"
  shows "JoinKey (take m (GetPath k)) (RemoveKeyBits k m) = k"
proof (rule path_bit_eqI)
  fix j :: nat assume j: "j < 256"
  show "path_bit (JoinKey (take m (GetPath k)) (RemoveKeyBits k m)) j = path_bit k j"
  proof (cases "j < m")
    case True
    then show ?thesis using j assms by (simp add: path_bit_JoinKey GetPath_nth)
  next
    case False
    then have "word_levels m (j mod 4) \<le> j div 4"
      using word_levels_less [of "j mod 4" "j div 4" m] by simp
    then show ?thesis
      using False j assms by (simp add: path_bit_JoinKey RemoveKeyBits_nth bit_drop_bit_eq)
        (simp add: path_bit_def)
  qed
qed

lemma fromPath_fold:
  assumes "\<forall>b\<in>set p. b < 2" "length p = 256"
  shows "n \<le> 256 \<Longrightarrow> length (foldl (fromPath_step p) [0, 0, 0, 0] [0..<n]) = 4 \<and>
    (\<forall>c<4. \<forall>t. bit (foldl (fromPath_step p) [0, 0, 0, 0] [0..<n] ! c) t \<longleftrightarrow> 4 * t + c < n \<and> p ! (4 * t + c) = 1)"
proof (induction n)
  case 0
  have "([0, 0, 0, 0] :: uint64 list) ! c = 0" if "c < 4" for c
    using that by (auto simp: less_Suc_eq numeral_eq_Suc)
  then show ?case by simp
next
  case (Suc n)
  let ?r = "foldl (fromPath_step p) [0, 0, 0, 0] [0..<n]"
  have len: "length ?r = 4" and IH: "\<And>c t. c < 4 \<Longrightarrow> bit (?r ! c) t \<longleftrightarrow> 4 * t + c < n \<and> p ! (4 * t + c) = 1"
    using Suc by auto
  have step: "foldl (fromPath_step p) [0, 0, 0, 0] [0..<Suc n] =
      ?r[n mod 4 := ?r ! (n mod 4) OR push_bit (n div 4) (of_nat (p ! n))]"
    by (simp add: fromPath_step_def Let_def)
  have n: "n div 4 < 64" using Suc.prems by simp
  have "p ! n < 2" using assms Suc.prems by simp
  then have pn: "bit (push_bit (n div 4) (of_nat (p ! n)) :: uint64) t \<longleftrightarrow> t = n div 4 \<and> p ! n = 1" for t
    using n by (cases "p ! n = 1") (auto simp: less_2_cases_iff bit_exp_iff possible_bit_word)
  have "bit (foldl (fromPath_step p) [0, 0, 0, 0] [0..<Suc n] ! c) t \<longleftrightarrow> 4 * t + c < Suc n \<and> p ! (4 * t + c) = 1"
    if c: "c < 4" for c t
  proof -
    note here = div_mod_4_iff [OF c, of t n]
    have "bit (foldl (fromPath_step p) [0, 0, 0, 0] [0..<Suc n] ! c) t \<longleftrightarrow>
        bit (?r ! c) t \<or> (c = n mod 4 \<and> t = n div 4 \<and> p ! n = 1)"
      unfolding step using len c by (cases "c = n mod 4") (simp_all add: bit_or_iff pn)
    then show ?thesis using IH [OF c, of t] here by (cases "4 * t + c" n rule: linorder_cases) auto
  qed
  then show ?case using len step by simp
qed

lemma GetPath_bits: "b \<in> set (GetPath k) \<Longrightarrow> b < 2"
  by (auto simp: in_set_conv_nth GetPath_nth)

lemma GetPath_NodeKeyFromPath:
  assumes "length p = 256" "\<forall>b\<in>set p. b < 2"
  shows "\<exists>k. NodeKeyFromPath p = Inr k \<and> GetPath k = p"
proof -
  define r where "r = foldl (fromPath_step p) [0, 0, 0, 0] [0..<256]"
  have r: "length r = 4" "\<And>c t. c < 4 \<Longrightarrow> bit (r ! c) t \<longleftrightarrow> 4 * t + c < 256 \<and> p ! (4 * t + c) = 1"
    using fromPath_fold [OF assms(2,1), of 256] by (simp_all add: r_def)
  have "GetPath (nk_of r) ! j = p ! j" if j: "j < 256" for j
  proof -
    have "path_bit (nk_of r) j \<longleftrightarrow> p ! j = 1"
      using r(2) [of "j mod 4" "j div 4"] r(1) j by (simp add: path_bit_def)
    moreover have "p ! j = 0 \<or> p ! j = 1" using assms j by (metis less_2_cases nth_mem One_nat_def)
    ultimately show ?thesis using j by (auto simp: GetPath_nth)
  qed
  then have "GetPath (nk_of r) = p" using assms(1) by (intro nth_equalityI) simp_all
  then show ?thesis using assms(1) by (simp add: NodeKeyFromPath_def r_def)
qed

lemma NodeKeyFromPath_GetPath: "NodeKeyFromPath (GetPath k) = Inr k"
  using GetPath_NodeKeyFromPath [of "GetPath k"] GetPath_bits [of _ k] by auto

section \<open>Properties\<close>

text \<open>
  C36. Paths identify keys: every list of 256 bits is the path of exactly one key, which
  \<open>NodeKeyFromPath\<close> returns; and a key is recovered by \<open>JoinKey\<close> from the first \<open>m\<close> bits of its path
  and what \<open>RemoveKeyBits\<close> leaves of it, for every depth \<open>m\<close> of the tree.
\<close>

theorem paths_identify_keys:
  assumes "length p = 256" "\<forall>b\<in>set p. b < 2" "m \<le> 256"
  shows "\<exists>k. NodeKeyFromPath p = Inr k \<and> GetPath k = p \<and> (\<forall>k'. GetPath k' = p \<longrightarrow> k' = k) \<and>
    JoinKey (take m p) (RemoveKeyBits k m) = k"
  using GetPath_NodeKeyFromPath [OF assms(1,2)] JoinKey_RemoveKeyBits [OF assms(3)] by auto

theorem paths_identify_keys_witness:
  "\<exists>k. NodeKeyFromPath (replicate 256 1) = Inr k \<and> GetPath k = replicate 256 1 \<and>
    JoinKey (take 7 (replicate 256 1)) (RemoveKeyBits k 7) = k"
  using paths_identify_keys [of "replicate 256 1" 7] by auto

end
