(* ===== verification/SmtScalar.thy ===== *)
theory SmtScalar
  imports SmtUtils DbUtils
begin

text \<open>
  The conversions of \<open>smt/pkg/utils\<close> between node keys, node values, scalars and hexadecimal
  strings. Several of them exist twice, as a word-level fast path and as an arithmetic slow
  path; the lemmas show that the two agree, that the conversions invert each other, and that the
  loop of \<open>ScalarToNodeKey\<close> ends exactly on non-negative scalars. The branches for 32-bit
  machines are not taken on the targets of the node and are left out.
\<close>

section \<open>Words of a \<open>big.Int\<close>\<close>

text \<open>\<open>Bits\<close> lists the words of the magnitude, least significant first; \<open>SetBits\<close> is its inverse.\<close>

fun nat_words :: "nat \<Rightarrow> uint64 list" where
  "nat_words n = (if n = 0 then [] else of_nat n # nat_words (n div 2 ^ 64))"

declare nat_words.simps [simp del]

definition big_Bits :: "int \<Rightarrow> uint64 list" where
  "big_Bits x = nat_words (nat \<bar>x\<bar>)"

definition SetBits :: "uint64 list \<Rightarrow> int" where
  "SetBits ws = foldr (\<lambda>w a. uint w + 2 ^ 64 * a) ws 0"

section \<open>Keys and roots\<close>

definition ArrayToScalar :: "uint64 list \<Rightarrow> int" where
  "ArrayToScalar array = SetBits array"

definition NodeKey_ToBigInt :: "NodeKey \<Rightarrow> int" where
  "NodeKey_ToBigInt nk = ArrayToScalar (nk_list nk)"

definition ScalarToArray :: "int \<Rightarrow> uint64 list" where
  "ScalarToArray scalar =
     (let mask = 2 ^ 64 - 1;
          r0 = scalar AND mask;
          r1 = drop_bit 64 scalar AND mask;
          r2 = drop_bit 128 scalar AND mask;
          r3 = drop_bit 192 scalar AND mask
      in [big_Uint64 r0, big_Uint64 r1, big_Uint64 r2, big_Uint64 r3])"

text \<open>The fast path gives up on an element that is negative or longer than a word.\<close>

primrec scalarBigFast_words :: "bigint list \<Rightarrow> uint64 list option" where
  "scalarBigFast_words [] = Some []"
| "scalarBigFast_words (a # as) =
     (case a of
        None \<Rightarrow> map_option ((#) 0) (scalarBigFast_words as)
      | Some x \<Rightarrow>
          (case big_Bits x of
             [] \<Rightarrow> map_option ((#) 0) (scalarBigFast_words as)
           | w # ws \<Rightarrow>
               if x < 0 then None
               else if \<exists>v\<in>set ws. v \<noteq> 0 then None
               else map_option ((#) w) (scalarBigFast_words as)))"

definition arrayToScalarBigFast :: "bigint list \<Rightarrow> int option" where
  "arrayToScalarBigFast array =
     (if array = [] then None else map_option SetBits (scalarBigFast_words array))"

primrec scalarBigSlow_loop :: "bigint list \<Rightarrow> int \<Rightarrow> int result" where
  "scalarBigSlow_loop [] scalar = Inr scalar"
| "scalarBigSlow_loop (a # as) scalar =
     rbind (deref a) (\<lambda>x. scalarBigSlow_loop as (push_bit 64 scalar + x))"

definition arrayToScalarBigSlow :: "bigint list \<Rightarrow> int result" where
  "arrayToScalarBigSlow array = scalarBigSlow_loop (rev array) 0"

definition ArrayToScalarBig :: "bigint list \<Rightarrow> int result" where
  "ArrayToScalarBig array =
     (case arrayToScalarBigFast array of Some v \<Rightarrow> Inr v | None \<Rightarrow> arrayToScalarBigSlow array)"

definition NodeValue12_ToBigInt :: "NodeValue12 \<Rightarrow> int result" where
  "NodeValue12_ToBigInt nv = ArrayToScalarBig nv"

text \<open>The loop runs while the scalar has bits left; shifting a negative number never clears it.\<close>

partial_function (option) toNodeKey_loop :: "int \<Rightarrow> nat \<Rightarrow> int list \<Rightarrow> int list option" where
  "toNodeKey_loop r i auxk =
     (if r \<noteq> 0 then
        toNodeKey_loop (drop_bit 1 r) (i + 1)
          (if r AND 1 \<noteq> 0 then auxk[i mod 4 := auxk ! (i mod 4) + push_bit (i div 4) 1] else auxk)
      else Some auxk)"

definition ScalarToNodeKey :: "int \<Rightarrow> NodeKey option" where
  "ScalarToNodeKey s = map_option (\<lambda>auxk. nk_of (map big_Uint64 auxk)) (toNodeKey_loop s 0 [0, 0, 0, 0])"

primrec rootSlow_loop :: "nat \<Rightarrow> int \<Rightarrow> uint64 list" where
  "rootSlow_loop 0 sCopy = []"
| "rootSlow_loop (Suc n) sCopy = big_Uint64 (sCopy mod 2 ^ 64) # rootSlow_loop n (sCopy div 2 ^ 64)"

definition scalarToRootSlow :: "int \<Rightarrow> NodeKey" where
  "scalarToRootSlow s = nk_of (rootSlow_loop 4 s)"

definition ScalarToRoot :: "int \<Rightarrow> NodeKey" where
  "ScalarToRoot s =
     (if s < 0 then scalarToRootSlow s
      else let sbits = big_Bits s
           in nk_of (map (\<lambda>i. if i < length sbits then sbits ! i else 0) [0..<4]))"

section \<open>Values\<close>

primrec mask_loop :: "nat \<Rightarrow> int \<Rightarrow> bigint list" where
  "mask_loop 0 scalar = []"
| "mask_loop (Suc n) scalar = Some (scalar AND (2 ^ 64 - 1)) # mask_loop n (drop_bit 64 scalar)"

definition scalarToNodeValueSlow :: "int \<Rightarrow> NodeValue12" where
  "scalarToNodeValueSlow scalarIn = mask_loop 12 scalarIn"

definition scalarToNodeValueFast :: "int \<Rightarrow> NodeValue12 option" where
  "scalarToNodeValueFast scalarIn =
     (if scalarIn < 0 then None
      else let words = big_Bits scalarIn
           in Some (map (\<lambda>i. Some (if i < length words then SetBits [words ! i] else 0)) [0..<12]))"

definition ScalarToNodeValue :: "int \<Rightarrow> NodeValue12" where
  "ScalarToNodeValue scalarIn =
     (case scalarToNodeValueFast scalarIn of Some out \<Rightarrow> out | None \<Rightarrow> scalarToNodeValueSlow scalarIn)"

definition ScalarToNodeValue8 :: "int \<Rightarrow> NodeValue8" where
  "ScalarToNodeValue8 scalarIn = mask_loop 8 scalarIn"

text \<open>The elements \<open>r0\<close> to \<open>r7\<close> (or \<open>r11\<close>): 32 bits each.\<close>

definition mask32 :: int where "mask32 = 4294967295"

definition ScalarToArrayBig :: "int \<Rightarrow> bigint list" where
  "ScalarToArrayBig scalar = map (\<lambda>i. Some (drop_bit (32 * i) scalar AND mask32)) [0..<8]"

definition ScalarToArrayBig12 :: "int \<Rightarrow> bigint list" where
  "ScalarToArrayBig12 scalar = map (\<lambda>i. Some (drop_bit (32 * i) scalar AND mask32)) [0..<12]"

primrec bigToScalar_loop :: "bigint list \<Rightarrow> int \<Rightarrow> int result" where
  "bigToScalar_loop [] scalar = Inr scalar"
| "bigToScalar_loop (a # as) scalar =
     rbind (deref a) (\<lambda>x. bigToScalar_loop as (push_bit 32 scalar + x))"

definition ArrayBigToScalar :: "bigint list \<Rightarrow> int result" where
  "ArrayBigToScalar arr = bigToScalar_loop (rev arr) 0"

definition NodeValue8FromBigInt :: "int \<Rightarrow> NodeValue8 result" where
  "NodeValue8FromBigInt v = NodeValue8FromBigIntArray (ScalarToArrayBig v)"

definition NodeValue8ToBigInt :: "NodeValue8 option \<Rightarrow> int result" where
  "NodeValue8ToBigInt v = rbind (BigIntArrayFromNodeValue8 v) ArrayBigToScalar"

section \<open>Hexadecimal strings\<close>

definition ConvertBigIntToHex :: "int \<Rightarrow> string" where
  "ConvertBigIntToHex n = ''0x'' @ (if n < 0 then ''-'' else '''') @ hex_nat (nat \<bar>n\<bar>)"

definition TrimPrefix0x :: "string \<Rightarrow> string" where
  "TrimPrefix0x s = (if take 2 s = ''0x'' then drop 2 s else s)"

text \<open>The first digit of an odd number of digits; a character that is no digit wraps around.\<close>

definition singleChar_byte :: "char \<Rightarrow> byte" where
  "singleChar_byte c =
     (let n = of_char c :: nat in
      if 97 \<le> n \<and> n \<le> 102 then of_nat n - 97 + 10
      else if 65 \<le> n \<and> n \<le> 70 then of_nat n - 65 + 10
      else of_nat n - 48)"

definition ConvertHexToBigInt :: "string \<Rightarrow> int" where
  "ConvertHexToBigInt hexStr =
     (let hexStr = TrimPrefix0x hexStr
      in int (SetBytes
           (if odd (length hexStr) then singleChar_byte (hd hexStr) # hex_Decode (tl hexStr)
            else hex_Decode hexStr)))"

text \<open>The bytes of a slice of words in the memory of a little-endian machine.\<close>

definition le_bytes :: "uint64 \<Rightarrow> byte list" where
  "le_bytes w = map (\<lambda>i. ucast (drop_bit (8 * i) w)) [0..<8]"

definition byte_hex :: "byte \<Rightarrow> string" where
  "byte_hex v = [hex_digit (unat (drop_bit 4 v)), hex_digit (unat (v AND 0x0f))]"

definition ArrayToHex :: "uint64 list \<Rightarrow> string" where
  "ArrayToHex array =
     (if array = [] then ''0x0''
      else let byteArray = rev (dropWhile (\<lambda>b. b = 0) (rev (concat (map le_bytes array))))
           in if byteArray = [] then ''0x0''
              else let digits = concat (map byte_hex (rev byteArray))
                   in ''0x'' @ (if hd digits = CHR ''0'' then tl digits else digits))"

definition ConvertUint64ToBytes :: "uint64 \<Rightarrow> byte list" where
  "ConvertUint64ToBytes n = Uint64ToBytes n"

definition ConvertBytesToUint64 :: "byte list \<Rightarrow> uint64 result" where
  "ConvertBytesToUint64 bytes = (if bytes = [] then Inr 0 else BigEndian_Uint64 bytes)"

section \<open>Lemmas on words of scalars\<close>

definition word_at :: "int \<Rightarrow> nat \<Rightarrow> uint64" where
  "word_at s i = of_int (s div 2 ^ (64 * i))"

lemma SetBits_Nil [simp]: "SetBits [] = 0"
  by (simp add: SetBits_def)

lemma SetBits_Cons [simp]: "SetBits (w # ws) = uint w + 2 ^ 64 * SetBits ws"
  by (simp add: SetBits_def)

lemma SetBits_nonneg [simp]: "0 \<le> SetBits ws"
  by (induction ws) simp_all

lemma SetBits_less: "SetBits ws < 2 ^ (64 * length ws)"
proof (induction ws)
  case (Cons w ws)
  have "SetBits (w # ws) < 2 ^ 64 + 2 ^ 64 * SetBits ws" using uint_bounded [of w] by simp
  also have "\<dots> \<le> 2 ^ 64 * 2 ^ (64 * length ws)" using Cons by simp
  finally show ?case by (simp add: power_add)
qed simp

lemma word_at_0: "word_at s 0 = of_int s"
  by (simp add: word_at_def)

lemma div_power_Suc: "(s :: int) div 2 ^ (64 * Suc i) = s div 2 ^ 64 div 2 ^ (64 * i)"
  using zdiv_zmult2_eq [of "2 ^ (64 * i)" s "2 ^ 64"] by (simp add: power_add)

lemma word_at_Suc: "word_at s (Suc i) = word_at (s div 2 ^ 64) i"
  unfolding word_at_def div_power_Suc by (rule refl)

lemma of_int_mod_word: "(of_int (s mod 2 ^ 64) :: uint64) = of_int s"
  by (simp add: word_of_int_eq_iff take_bit_eq_mod)

lemma of_int_mod_numeral [simp]: "(of_int (s mod 18446744073709551616) :: uint64) = of_int s"
  using of_int_mod_word [of s] by simp

lemma SetBits_Cons_div: "SetBits (w # ws) div 2 ^ 64 = SetBits ws"
  using uint_bounded [of w] by simp

lemma of_int_SetBits_Cons: "(of_int (SetBits (w # ws)) :: uint64) = w"
  using of_int_mod_word [of "SetBits (w # ws)"] uint_bounded [of w] by simp

lemma word_at_SetBits: "i < length ws \<Longrightarrow> word_at (SetBits ws) i = ws ! i"
proof (induction ws arbitrary: i)
  case (Cons w ws)
  then show ?case
    by (cases i) (simp_all only: word_at_0 word_at_Suc of_int_SetBits_Cons SetBits_Cons_div nth_Cons_0 nth_Cons_Suc,
      simp)
qed simp

lemma SetBits_word_at: "SetBits (map (word_at s) [0..<n]) = s mod 2 ^ (64 * n)"
proof (induction n arbitrary: s)
  case (Suc n)
  have "map (word_at s) [0..<Suc n] = of_int s # map (word_at (s div 2 ^ 64)) [0..<n]"
    by (simp only: upt_conv_Cons map_Suc_upt [symmetric] list.map map_map o_def word_at_0 word_at_Suc zero_less_Suc)
  then have "SetBits (map (word_at s) [0..<Suc n]) = s mod 2 ^ 64 + 2 ^ 64 * (s div 2 ^ 64 mod 2 ^ (64 * n))"
    using Suc [of "s div 2 ^ 64"] by (simp add: uint_word_of_int_eq take_bit_eq_mod)
  also have "\<dots> = s mod 2 ^ (64 * Suc n)"
    using zmod_zmult2_eq [of "2 ^ (64 * n)" s "2 ^ 64"] by (simp add: power_add)
  finally show ?case .
qed simp

lemma SetBits_nat_words [simp]: "SetBits (nat_words n) = int n"
proof (induction n rule: nat_words.induct)
  case (1 n)
  have "uint (of_nat n :: uint64) = int n mod 2 ^ 64" by (simp add: uint_nat unsigned_of_nat take_bit_eq_mod zmod_int)
  then show ?case using 1 by (subst nat_words.simps) (simp add: zdiv_int)
qed

lemma nat_words_nth:
  "(if i < length (nat_words n) then nat_words n ! i else 0) = word_at (int n) i"
proof (cases "i < length (nat_words n)")
  case True
  then show ?thesis using word_at_SetBits [OF True] by simp
next
  case False
  have "int n < 2 ^ (64 * length (nat_words n))" using SetBits_less [of "nat_words n"] by simp
  also have "\<dots> \<le> 2 ^ (64 * i)" using False by (intro power_increasing) simp_all
  finally show ?thesis using False by (simp add: word_at_def)
qed

lemma big_Uint64_nonneg: "0 \<le> x \<Longrightarrow> big_Uint64 x = of_int x"
  by (simp add: big_Uint64_def)

lemma big_Uint64_uint [simp]: "big_Uint64 (uint w) = w"
  by (simp add: big_Uint64_def)

lemma upt_Suc_shift: "map f [0..<Suc n] = f 0 # map (\<lambda>i. f (Suc i)) [0..<n]"
  by (simp only: upt_conv_Cons map_Suc_upt [symmetric] list.map map_map o_def zero_less_Suc)

lemma and_mask_mod: "x AND (2 ^ 64 - 1) = (x :: int) mod 2 ^ 64"
  using take_bit_eq_mask [of 64 x] by (simp add: take_bit_eq_mod mask_eq_exp_minus_1)

lemma rootSlow_loop_words: "rootSlow_loop n s = map (word_at s) [0..<n]"
  by (induction n arbitrary: s) (simp_all only: rootSlow_loop.simps upt_Suc_shift word_at_0 word_at_Suc,
    simp_all add: big_Uint64_nonneg)

lemma scalarToRootSlow_words: "scalarToRootSlow s = nk_of (map (word_at s) [0..<4])"
  unfolding scalarToRootSlow_def rootSlow_loop_words by (rule refl)

lemma ScalarToRoot_slow: "ScalarToRoot s = scalarToRootSlow s"
  unfolding scalarToRootSlow_words
  by (simp add: ScalarToRoot_def scalarToRootSlow_words big_Bits_def Let_def nat_words_nth)

lemma ScalarToRoot_ToBigInt: "ScalarToRoot (NodeKey_ToBigInt k) = k"
proof -
  have "map (word_at (SetBits (nk_list k))) [0..<4] = nk_list k"
    by (intro nth_equalityI) (simp_all add: word_at_SetBits)
  then show ?thesis
    by (simp add: ScalarToRoot_slow scalarToRootSlow_words NodeKey_ToBigInt_def ArrayToScalar_def)
qed

lemma ToBigInt_ScalarToRoot: "NodeKey_ToBigInt (ScalarToRoot s) = s mod 2 ^ 256"
  unfolding NodeKey_ToBigInt_def ArrayToScalar_def ScalarToRoot_slow scalarToRootSlow_words
  using SetBits_word_at [of s 4] by simp

lemma ToBigInt_inject [simp]: "NodeKey_ToBigInt k = NodeKey_ToBigInt k' \<longleftrightarrow> k = k'"
  by (metis ScalarToRoot_ToBigInt)

lemma ToBigInt_nonneg [simp]: "0 \<le> NodeKey_ToBigInt k"
  by (simp add: NodeKey_ToBigInt_def ArrayToScalar_def)

lemma ScalarToArray_words: "ScalarToArray s = map (word_at s) [0..<4]"
  by (simp add: ScalarToArray_def Let_def and_mask_mod [simplified] big_Uint64_nonneg word_at_def upt_rec
      drop_bit_eq_div)

lemma ScalarToArray_ToBigInt: "ScalarToArray (NodeKey_ToBigInt k) = nk_list k"
proof -
  have "nk_of (ScalarToArray (NodeKey_ToBigInt k)) = k"
    using ScalarToRoot_ToBigInt [of k] by (simp add: ScalarToRoot_slow scalarToRootSlow_words ScalarToArray_words)
  moreover have "length (ScalarToArray (NodeKey_ToBigInt k)) = 4" by (simp add: ScalarToArray_words)
  ultimately show ?thesis by (metis nk_list_nk_of)
qed

lemma mask_loop_words: "mask_loop n s = map (\<lambda>i. Some (uint (word_at s i))) [0..<n]"
  by (induction n arbitrary: s) (simp_all only: mask_loop.simps upt_Suc_shift word_at_0 word_at_Suc,
    simp_all add: and_mask_mod [simplified] uint_word_of_int_eq take_bit_eq_mod drop_bit_eq_div)

lemma scalarToNodeValueFast_slow: "0 \<le> s \<Longrightarrow> scalarToNodeValueFast s = Some (scalarToNodeValueSlow s)"
proof -
  assume s: "0 \<le> s"
  have "(if i < length (nat_words (nat s)) then SetBits [nat_words (nat s) ! i] else 0) = uint (word_at s i)" for i
    using nat_words_nth [of i "nat s"] s by (auto split: if_splits)
  then show ?thesis
    using s by (simp add: scalarToNodeValueFast_def scalarToNodeValueSlow_def big_Bits_def mask_loop_words Let_def)
qed

section \<open>Lemmas on arrays of \<open>big.Int\<close>\<close>

lemma scalarBigSlow_append:
  "scalarBigSlow_loop (xs @ ys) s = rbind (scalarBigSlow_loop xs s) (scalarBigSlow_loop ys)"
  by (induction xs arbitrary: s) (simp_all add: rbind_def split: sum.splits)

lemma arrayToScalarBigSlow_Cons:
  "arrayToScalarBigSlow (a # as) =
     rbind (arrayToScalarBigSlow as) (\<lambda>s. rbind (deref a) (\<lambda>x. Inr (2 ^ 64 * s + x)))"
  by (cases "scalarBigSlow_loop (rev as) 0")
    (simp_all add: arrayToScalarBigSlow_def scalarBigSlow_append push_bit_eq_mult mult.commute)

lemma SetBits_zero: "\<forall>v\<in>set ws. v = 0 \<Longrightarrow> SetBits ws = 0"
  by (induction ws) simp_all

lemma SetBits_big_Bits: "SetBits (big_Bits x) = \<bar>x\<bar>"
  by (simp add: big_Bits_def)

lemma scalarBigFast_slow:
  "scalarBigFast_words array = Some ws \<Longrightarrow> None \<notin> set array \<Longrightarrow> arrayToScalarBigSlow array = Inr (SetBits ws)"
proof (induction array arbitrary: ws)
  case Nil
  then show ?case by (simp add: arrayToScalarBigSlow_def)
next
  case (Cons a as)
  then obtain x where a: "a = Some x" by (cases a) auto
  obtain w vs where w: "ws = w # vs" "scalarBigFast_words as = Some vs" "x = uint w"
  proof (cases "big_Bits x")
    case Nil
    then have "x = 0" using SetBits_big_Bits [of x] by simp
    then show ?thesis using that [of 0] Cons.prems(1) a Nil by auto
  next
    case bits: (Cons w us)
    then have us: "\<forall>v\<in>set us. v = 0" "0 \<le> x" using Cons.prems(1) a by (auto split: if_splits)
    then have "x = uint w" using SetBits_big_Bits [of x] bits by (simp add: SetBits_zero)
    then show ?thesis using that [of w] Cons.prems(1) a bits us by (auto split: if_splits)
  qed
  then show ?case using Cons a by (simp add: arrayToScalarBigSlow_Cons)
qed

lemma ArrayToScalarBig_slow: "None \<notin> set array \<Longrightarrow> ArrayToScalarBig array = arrayToScalarBigSlow array"
  by (auto simp: ArrayToScalarBig_def arrayToScalarBigFast_def scalarBigFast_slow split: option.splits if_splits)

lemma bigToScalar_append:
  "bigToScalar_loop (xs @ ys) s = rbind (bigToScalar_loop xs s) (bigToScalar_loop ys)"
  by (induction xs arbitrary: s) (simp_all add: rbind_def split: sum.splits)

lemma ArrayBigToScalar_Cons:
  "ArrayBigToScalar (a # as) =
     rbind (ArrayBigToScalar as) (\<lambda>s. rbind (deref a) (\<lambda>x. Inr (2 ^ 32 * s + x)))"
  by (cases "bigToScalar_loop (rev as) 0")
    (simp_all add: ArrayBigToScalar_def bigToScalar_append push_bit_eq_mult mult.commute)

lemma mask32_mod: "x AND mask32 = x mod 2 ^ 32"
  using take_bit_eq_mask [of 32 x] by (simp add: mask32_def take_bit_eq_mod mask_eq_exp_minus_1)

lemma ArrayBigToScalar_limbs:
  "ArrayBigToScalar (map (\<lambda>i. Some (drop_bit (32 * i) s AND mask32)) [0..<n]) = Inr (s mod 2 ^ (32 * n))"
proof (induction n arbitrary: s)
  case 0
  then show ?case by (simp add: ArrayBigToScalar_def)
next
  case (Suc n)
  have "map (\<lambda>i. Some (drop_bit (32 * i) s AND mask32)) [0..<Suc n] =
      Some (s mod 2 ^ 32) # map (\<lambda>i. Some (drop_bit (32 * i) (drop_bit 32 s) AND mask32)) [0..<n]"
    by (simp only: upt_Suc_shift mask32_mod) (simp add: add.commute)
  then have "ArrayBigToScalar (map (\<lambda>i. Some (drop_bit (32 * i) s AND mask32)) [0..<Suc n]) =
      Inr (2 ^ 32 * (s div 2 ^ 32 mod 2 ^ (32 * n)) + s mod 2 ^ 32)"
    using Suc [of "drop_bit 32 s"] by (simp add: ArrayBigToScalar_Cons drop_bit_eq_div)
  also have "2 ^ 32 * (s div 2 ^ 32 mod 2 ^ (32 * n)) + s mod 2 ^ 32 = s mod 2 ^ (32 * Suc n)"
    using zmod_zmult2_eq [of "2 ^ (32 * n)" s "2 ^ 32"] by (simp add: power_add)
  finally show ?case .
qed

lemma length_ScalarToArrayBig [simp]: "length (ScalarToArrayBig s) = 8"
  by (simp add: ScalarToArrayBig_def)

lemma NodeValue8FromBigInt_eq: "NodeValue8FromBigInt s = Inr (ScalarToArrayBig s)"
  by (simp add: NodeValue8FromBigInt_def NodeValue8FromBigIntArray_def copy_array_def)

lemma NodeValue8ToBigInt_ScalarToArrayBig: "NodeValue8ToBigInt (Some (ScalarToArrayBig s)) = Inr (s mod 2 ^ 256)"
proof -
  have "NodeValue8ToBigInt (Some (ScalarToArrayBig s)) = ArrayBigToScalar (ScalarToArrayBig s)"
    by (simp add: NodeValue8ToBigInt_def BigIntArrayFromNodeValue8_def copy_array_def)
  also have "\<dots> = Inr (s mod 2 ^ (32 * 8))" unfolding ScalarToArrayBig_def by (rule ArrayBigToScalar_limbs)
  also have "32 * 8 = (256::nat)" by simp
  finally show ?thesis .
qed

section \<open>The loop of \<open>ScalarToNodeKey\<close>\<close>

lemma toNodeKey_loop_nonneg:
  assumes "toNodeKey_loop r i auxk = Some res" shows "0 \<le> r"
proof (rule toNodeKey_loop.raw_induct [OF _ assms])
  fix loop and r :: int and i :: nat and auxk res
  let ?a = "if r AND 1 \<noteq> 0 then auxk[i mod 4 := auxk ! (i mod 4) + push_bit (i div 4) 1] else auxk"
  assume IH: "\<And>r i auxk res. loop r i auxk = Some res \<Longrightarrow> 0 \<le> r"
    and res: "(if r \<noteq> 0 then loop (drop_bit 1 r) (i + 1) ?a else Some auxk) = Some res"
  show "0 \<le> r"
  proof (cases "r = 0")
    case False
    then have "loop (drop_bit 1 r) (i + 1) ?a = Some res" using res by (simp only: if_True simp_thms)
    then have "0 \<le> drop_bit 1 r" by (rule IH)
    then show ?thesis by simp
  qed simp
qed

lemma plus_new_bit:
  assumes "0 \<le> (a :: int)" "\<not> bit a t"
  shows "bit (a + push_bit t 1) u \<longleftrightarrow> bit a u \<or> u = t" "0 \<le> a + push_bit t 1"
proof -
  have "a + push_bit t 1 = a OR push_bit t 1"
    using assms(2) by (intro disjunctive_add) (auto simp: bit_simps)
  then show "bit (a + push_bit t 1) u \<longleftrightarrow> bit a u \<or> u = t" by (auto simp: bit_simps)
  show "0 \<le> a + push_bit t 1" using assms(1) by (simp add: push_bit_eq_mult)
qed

text \<open>The words hold the first \<open>i\<close> bits of the scalar, distributed over the four words.\<close>

definition key_bits :: "int \<Rightarrow> nat \<Rightarrow> int list \<Rightarrow> bool" where
  "key_bits s i auxk \<longleftrightarrow> length auxk = 4 \<and>
     (\<forall>c<4. 0 \<le> auxk ! c \<and> (\<forall>t. bit (auxk ! c) t \<longleftrightarrow> 4 * t + c < i \<and> bit s (4 * t + c)))"

lemma key_bits_step:
  assumes "key_bits s i auxk"
  shows "key_bits s (i + 1)
    (if bit s i then auxk[i mod 4 := auxk ! (i mod 4) + push_bit (i div 4) 1] else auxk)" (is "key_bits s _ ?a")
  unfolding key_bits_def
proof (intro conjI allI impI)
  show "length ?a = 4" using assms by (simp add: key_bits_def)
  fix c :: nat assume c: "c < 4"
  have old: "0 \<le> auxk ! c" "\<And>t. bit (auxk ! c) t \<longleftrightarrow> 4 * t + c < i \<and> bit s (4 * t + c)" and l: "length auxk = 4"
    using assms c by (simp_all add: key_bits_def)
  note here = div_mod_4_iff [OF c, of _ i]
  have "0 \<le> ?a ! c \<and> (bit (?a ! c) t \<longleftrightarrow> bit (auxk ! c) t \<or> (c = i mod 4 \<and> t = i div 4 \<and> bit s i))" for t
  proof (cases "bit s i \<and> c = i mod 4")
    case True
    then have a: "?a ! c = auxk ! c + push_bit (i div 4) 1" using c l by simp
    have "4 * (i div 4) + c = i" using True by simp
    then have "\<not> bit (auxk ! c) (i div 4)" using old(2) [of "i div 4"] by simp
    from plus_new_bit [OF old(1) this] show ?thesis unfolding a using True by blast
  next
    case False
    then have "?a ! c = auxk ! c" by auto
    then show ?thesis using old(1) False by auto
  qed
  then show "0 \<le> ?a ! c" "bit (?a ! c) t \<longleftrightarrow> 4 * t + c < i + 1 \<and> bit s (4 * t + c)" for t
    using old(2) [of t] here [of t] by (blast, cases "4 * t + c" i rule: linorder_cases) auto
qed

lemma toNodeKey_loop_bits:
  assumes "0 \<le> s"
  shows "key_bits s i auxk \<Longrightarrow> \<exists>res. toNodeKey_loop (drop_bit i s) i auxk = Some res \<and>
    (\<exists>n. drop_bit n s = 0 \<and> key_bits s n res)"
proof (induction "nat (drop_bit i s)" arbitrary: i auxk rule: less_induct)
  case less
  let ?r = "drop_bit i s"
  show ?case
  proof (cases "?r = 0")
    case True
    then have "toNodeKey_loop ?r i auxk = Some auxk" by (subst toNodeKey_loop.simps) simp
    then show ?thesis using True less.prems by blast
  next
    case False
    let ?a = "if bit s i then auxk[i mod 4 := auxk ! (i mod 4) + push_bit (i div 4) 1] else auxk"
    have "0 < ?r" using False assms by (simp add: order_less_le)
    moreover have s1: "drop_bit 1 ?r = drop_bit (i + 1) s" by (simp add: add.commute)
    moreover have "drop_bit 1 ?r = ?r div 2" by (simp add: drop_bit_eq_div)
    ultimately have "nat (drop_bit (i + 1) s) < nat ?r" by linarith
    then have IH: "\<exists>res. toNodeKey_loop (drop_bit (i + 1) s) (i + 1) ?a = Some res \<and>
        (\<exists>n. drop_bit n s = 0 \<and> key_bits s n res)"
      using key_bits_step [OF less.prems] by (rule less.hyps)
    have b: "?r AND 1 \<noteq> 0 \<longleftrightarrow> bit s i"
      by (simp add: and_one_eq mod_2_eq_odd bit_iff_odd_drop_bit)
    have "toNodeKey_loop ?r i auxk = toNodeKey_loop (drop_bit (i + 1) s) (i + 1) ?a"
      using False by (subst toNodeKey_loop.simps) (simp only: b s1 if_True simp_thms)
    then show ?thesis using IH by simp
  qed
qed

lemma bit_drop_zero: "drop_bit n (s :: int) = 0 \<Longrightarrow> n \<le> u \<Longrightarrow> \<not> bit s u"
  using bit_drop_bit_eq [of n s] by (metis bit_0_eq bot_apply bot_bool_def comp_apply le_add_diff_inverse)

lemma ScalarToNodeKey_bits:
  assumes "0 \<le> s"
  shows "\<exists>nk. ScalarToNodeKey s = Some nk \<and> (\<forall>j<256. path_bit nk j \<longleftrightarrow> bit s j)"
proof -
  have z: "([0, 0, 0, 0] :: int list) ! c = 0" if "c < 4" for c
    using that by (auto simp: less_Suc_eq numeral_eq_Suc)
  then have "key_bits s 0 [0, 0, 0, 0]" by (simp add: key_bits_def)
  from toNodeKey_loop_bits [OF assms this] obtain res n where
    res: "toNodeKey_loop s 0 [0, 0, 0, 0] = Some res" "drop_bit n s = 0" "key_bits s n res" by auto
  have len: "length res = 4" using res(3) by (simp add: key_bits_def)
  have "path_bit (nk_of (map big_Uint64 res)) j \<longleftrightarrow> bit s j" if j: "j < 256" for j
  proof -
    have j4: "4 * (j div 4) + j mod 4 = j" "j div 4 < 64" using j by simp_all
    have "0 \<le> res ! (j mod 4)" "bit (res ! (j mod 4)) (j div 4) \<longleftrightarrow> j < n \<and> bit s j"
      using res(3) j4(1) unfolding key_bits_def by (metis mod_less_divisor zero_less_numeral)+
    then have "path_bit (nk_of (map big_Uint64 res)) j \<longleftrightarrow> j < n \<and> bit s j"
      using len j4(2) by (simp add: path_bit_def big_Uint64_nonneg bit_word_of_int_iff)
    then show ?thesis using bit_drop_zero [OF res(2), of j] by (cases "j < n") simp_all
  qed
  then show ?thesis using res(1) by (simp add: ScalarToNodeKey_def)
qed

section \<open>Lemmas on hexadecimal strings\<close>

lemma TrimPrefix0x [simp]: "TrimPrefix0x (CHR ''0'' # CHR ''x'' # cs) = cs"
  by (simp add: TrimPrefix0x_def)

lemma singleChar_digit: "fromHexChar c = Some d \<Longrightarrow> singleChar_byte c = of_nat d"
  by (auto simp: fromHexChar_def singleChar_byte_def Let_def split: if_splits)

lemma SetBytes_ConvertHex:
  assumes "hex_string cs"
  shows "ConvertHexToBigInt (''0x'' @ cs) = int (hex_value cs)"
proof (cases "odd (length cs)")
  case True
  then obtain c cs' where c: "cs = c # cs'" by (cases cs) auto
  then obtain d where d: "d < 16" "fromHexChar c = Some d" using assms by auto
  have v: "SetBytes (hex_Decode cs') = hex_value cs'" "2 * length (hex_Decode cs') = length cs'"
    using hex_Decode_value [of cs'] assms True c by simp_all
  have "(256::nat) ^ length (hex_Decode cs') = 16 ^ length cs'"
    using power_mult [of "16::nat" 2 "length (hex_Decode cs')"] v(2) by simp
  moreover have "unat (of_nat d :: byte) = d" using d(1) by (intro unat_of_nat_small) simp
  ultimately show ?thesis
    using True c d v by (simp add: ConvertHexToBigInt_def singleChar_digit SetBytes_Cons hex_value_Cons)
next
  case False
  then show ?thesis using hex_Decode_value [of cs] assms by (simp add: ConvertHexToBigInt_def)
qed

lemma ConvertHexToBigInt_ConvertBigIntToHex: "0 \<le> n \<Longrightarrow> ConvertHexToBigInt (ConvertBigIntToHex n) = n"
  using SetBytes_ConvertHex [of "hex_nat (nat n)"] by (simp add: ConvertBigIntToHex_def)

definition nat_of_digits :: "nat list \<Rightarrow> nat" where
  "nat_of_digits ds = foldl (\<lambda>a d. a * 16 + d) 0 ds"

lemma nat_of_digits_snoc [simp]: "nat_of_digits (ds @ [d]) = nat_of_digits ds * 16 + d"
  by (simp add: nat_of_digits_def)

lemma nat_of_digits_pos: "ds \<noteq> [] \<Longrightarrow> hd ds \<noteq> 0 \<Longrightarrow> 0 < nat_of_digits ds"
proof (induction ds rule: rev_induct)
  case (snoc d ds)
  then show ?case by (cases "ds = []") (auto simp: nat_of_digits_def)
qed simp

lemma hex_nat_digits:
  "ds \<noteq> [] \<Longrightarrow> hd ds \<noteq> 0 \<Longrightarrow> \<forall>d\<in>set ds. d < 16 \<Longrightarrow> hex_nat (nat_of_digits ds) = map hex_digit ds"
proof (induction ds rule: rev_induct)
  case (snoc d ds)
  show ?case
  proof (cases "ds = []")
    case True
    then show ?thesis using snoc.prems by (subst hex_nat.simps) (simp add: nat_of_digits_def)
  next
    case False
    then have "0 < nat_of_digits ds" using snoc.prems by (intro nat_of_digits_pos) simp_all
    then have "hex_nat (nat_of_digits ds * 16 + d) = hex_nat (nat_of_digits ds) @ [hex_digit d]"
      using snoc.prems by (subst hex_nat.simps) simp
    then show ?thesis using snoc False by simp
  qed
qed simp

lemma hex_digit_0: "hex_digit 0 = CHR ''0''"
  by code_simp

definition byte_digits :: "byte \<Rightarrow> nat list" where
  "byte_digits b = [unat b div 16, unat b mod 16]"

lemma byte_digits_less: "d \<in> set (byte_digits b) \<Longrightarrow> d < 16"
  using byte_less [of b] by (auto simp: byte_digits_def)

lemma byte_hex_digits: "byte_hex b = map hex_digit (byte_digits b)"
proof -
  have "unat (drop_bit 4 b) = unat b div 16" unfolding unat_drop_bit_eq by (simp add: drop_bit_eq_div)
  moreover have "b AND 0x0f = take_bit 4 b" by (simp add: take_bit_eq_mask mask_eq_exp_minus_1)
  then have "unat (b AND 0x0f) = unat b mod 16"
    by (simp only: unsigned_take_bit_eq) (simp add: take_bit_eq_mod)
  ultimately show ?thesis by (simp add: byte_hex_def byte_digits_def)
qed

lemma concat_byte_digits:
  "foldl (\<lambda>a d. a * 16 + d) a (concat (map byte_digits bs)) = foldl (\<lambda>a b. a * 256 + unat b) a bs"
proof (induction bs arbitrary: a)
  case (Cons b bs)
  have "(a * 16 + unat b div 16) * 16 + unat b mod 16 = a * 256 + unat b" by simp
  then show ?case
    by (simp only: list.map concat.simps byte_digits_def [of b] append_Cons append_Nil foldl.simps Cons)
qed simp

lemma nat_of_byte_digits: "nat_of_digits (concat (map byte_digits bs)) = SetBytes bs"
  using concat_byte_digits [of 0 bs] by (simp add: nat_of_digits_def SetBytes_def)

lemma rev_le_bytes: "rev (le_bytes w) = Uint64ToBytes w"
  by (simp add: le_bytes_def Uint64ToBytes_def upt_rec)

lemma SetBytes_memory: "int (SetBytes (rev (concat (map le_bytes ws)))) = SetBits ws"
proof (induction ws)
  case (Cons w ws)
  have "int (SetBytes (rev (concat (map le_bytes (w # ws))))) = SetBits ws * 256 ^ 8 + int (unat w)"
    using Cons by (simp add: SetBytes_append rev_le_bytes del: rev_concat)
  then show ?case by simp
qed simp

lemma SetBytes_dropWhile: "SetBytes (dropWhile (\<lambda>b. b = 0) bs) = SetBytes bs"
  by (induction bs) (simp_all add: SetBytes_Cons)

lemma hex_nat_SetBytes:
  assumes "bs \<noteq> []" "hd bs \<noteq> 0"
  shows "hex_nat (SetBytes bs) = (let digits = concat (map byte_hex bs)
    in if hd digits = CHR ''0'' then tl digits else digits)"
proof -
  define ds where "ds = concat (map byte_digits bs)"
  obtain b bs' where b: "bs = b # bs'" "b \<noteq> 0" using assms by (cases bs) auto
  have ds: "ds = unat b div 16 # unat b mod 16 # concat (map byte_digits bs')"
    by (simp add: ds_def b byte_digits_def)
  have small: "\<forall>d\<in>set ds. d < 16"
    by (auto simp: ds_def byte_digits_less)
  have digits: "concat (map byte_hex bs) = map hex_digit ds"
    by (simp add: ds_def map_concat o_def byte_hex_digits [abs_def])
  have zero: "hex_digit d = CHR ''0'' \<longleftrightarrow> d = 0" if "d < 16" for d
  proof
    assume "hex_digit d = CHR ''0''"
    then have "fromHexChar (hex_digit d) = Some 0" by (simp add: fromHexChar_def)
    then show "d = 0" using that by simp
  qed (simp add: hex_digit_0)
  have v: "nat_of_digits ds = SetBytes bs" by (simp add: ds_def nat_of_byte_digits)
  show ?thesis
  proof (cases "unat b div 16 = 0")
    case True
    then have "unat b mod 16 = unat b" using div_mult_mod_eq [of "unat b" 16] by simp
    then have "unat b mod 16 \<noteq> 0" using b(2) by (simp only: unat_eq_0) simp
    moreover have "nat_of_digits (tl ds) = SetBytes bs" using v True by (simp add: ds nat_of_digits_def)
    ultimately show ?thesis
      using hex_nat_digits [of "tl ds"] small True by (simp add: digits ds zero Let_def)
  next
    case False
    have ne: "ds \<noteq> []" and hd: "hd ds = unat b div 16" by (simp_all only: ds) simp_all
    have "hex_nat (SetBytes bs) = map hex_digit ds"
      unfolding v [symmetric] using ne False small unfolding hd [symmetric] by (rule hex_nat_digits)
    moreover have "hex_digit (hd ds) \<noteq> CHR ''0''"
      using zero [of "hd ds"] False small ne unfolding hd [symmetric] by simp
    ultimately show ?thesis using ne by (simp add: digits hd_map)
  qed
qed

lemma ArrayToHex_eq: "ArrayToHex array = ConvertBigIntToHex (ArrayToScalar array)"
proof -
  define bs where "bs = dropWhile (\<lambda>b. b = 0) (rev (concat (map le_bytes array)))"
  have "int (SetBytes bs) = SetBits array" by (simp only: bs_def SetBytes_dropWhile SetBytes_memory)
  then have v: "ConvertBigIntToHex (ArrayToScalar array) = ''0x'' @ hex_nat (SetBytes bs)"
    by (simp add: ConvertBigIntToHex_def ArrayToScalar_def flip: \<open>int (SetBytes bs) = SetBits array\<close>)
  show ?thesis
  proof (cases "bs = []")
    case True
    moreover have "hex_nat 0 = ''0''" by (subst hex_nat.simps) (simp add: hex_digit_0)
    ultimately show ?thesis unfolding v ArrayToHex_def bs_def [symmetric] Let_def by simp
  next
    case False
    then have "hd bs \<noteq> 0" using hd_dropWhile [of "\<lambda>b. b = 0"] unfolding bs_def by blast
    then have "hex_nat (SetBytes bs) = (let digits = concat (map byte_hex bs)
        in if hd digits = CHR ''0'' then tl digits else digits)"
      using False by (intro hex_nat_SetBytes)
    moreover have "array \<noteq> []" using False by (auto simp: bs_def)
    ultimately show ?thesis
      using False unfolding v ArrayToHex_def bs_def [symmetric] Let_def by simp
  qed
qed

section \<open>Properties\<close>

text \<open>
  C33. The loop of \<open>ScalarToNodeKey\<close> ends exactly on the scalars that are not negative, and then bit \<open>j\<close>
  of the scalar is bit \<open>j\<close> of the path of the key. On a negative scalar the shifted number stays
  negative and the loop never ends.
\<close>

theorem ScalarToNodeKey_returns_iff:
  "(case ScalarToNodeKey s of
      Some nk \<Rightarrow> 0 \<le> s \<and> GetPath nk = map (\<lambda>j. of_bool (bit s j)) [0..<256]
    | None \<Rightarrow> s < 0)"
proof (cases "0 \<le> s")
  case True
  then obtain nk where nk: "ScalarToNodeKey s = Some nk" "\<forall>j<256. path_bit nk j \<longleftrightarrow> bit s j"
    using ScalarToNodeKey_bits by blast
  then have "GetPath nk = map (\<lambda>j. of_bool (bit s j)) [0..<256]" by (intro nth_equalityI) (simp_all add: GetPath_nth)
  then show ?thesis using True nk(1) by simp
next
  case False
  then have "ScalarToNodeKey s = None"
    using toNodeKey_loop_nonneg [of s 0 "[0, 0, 0, 0]"] by (cases "toNodeKey_loop s 0 [0, 0, 0, 0]") (auto simp: ScalarToNodeKey_def)
  then show ?thesis using False by simp
qed

text \<open>
  C34. The word-level fast paths compute what the shift-and-mask code does: roots of all scalars, node
  values of all scalars that are not negative, scalars of all arrays without nil, and the
  hexadecimal text of arrays.
\<close>

theorem fast_paths_agree:
  assumes "0 \<le> s" "None \<notin> set array"
  shows "ScalarToRoot s' = scalarToRootSlow s' \<and> ScalarToNodeValue s = scalarToNodeValueSlow s \<and>
    ArrayToScalarBig array = arrayToScalarBigSlow array \<and> ArrayToHex ws = ConvertBigIntToHex (ArrayToScalar ws)"
  by (simp add: ScalarToRoot_slow ScalarToNodeValue_def scalarToNodeValueFast_slow [OF assms(1)]
      ArrayToScalarBig_slow [OF assms(2)] ArrayToHex_eq)

theorem fast_paths_agree_witness:
  "ScalarToNodeValue 5 = scalarToNodeValueSlow 5 \<and> ArrayToScalarBig [Some 7, Some 9] = arrayToScalarBigSlow [Some 7, Some 9]"
  using fast_paths_agree [of 5 "[Some 7, Some 9]"] by simp

text \<open>
  C35. Scalars round trip: a root written as hexadecimal text and read back as a scalar is the same root;
  a scalar cut into eight limbs and summed up again is the scalar modulo 2^256, and hexadecimal
  text gives back every scalar that is not negative.
\<close>

theorem scalar_round_trips:
  assumes "0 \<le> s"
  shows "ScalarToRoot (ConvertHexToBigInt (ArrayToHex (nk_list k))) = k \<and>
    ConvertHexToBigInt (ConvertBigIntToHex s) = s \<and>
    rbind (NodeValue8FromBigInt s) (\<lambda>v. NodeValue8ToBigInt (Some v)) = Inr (s mod 2 ^ 256) \<and>
    NodeKey_ToBigInt (ScalarToRoot s) = s mod 2 ^ 256"
  using ToBigInt_nonneg [of k] unfolding NodeKey_ToBigInt_def [symmetric]
  by (simp add: ArrayToHex_eq NodeKey_ToBigInt_def [symmetric] ConvertHexToBigInt_ConvertBigIntToHex [OF assms]
      ConvertHexToBigInt_ConvertBigIntToHex ScalarToRoot_ToBigInt NodeValue8FromBigInt_eq
      NodeValue8ToBigInt_ScalarToArrayBig ToBigInt_ScalarToRoot)

theorem scalar_round_trips_witness:
  "ScalarToRoot (ConvertHexToBigInt (ArrayToHex (nk_list (NodeKey 1 0 7 0)))) = NodeKey 1 0 7 0 \<and>
    ConvertHexToBigInt (ConvertBigIntToHex 255) = 255"
  using scalar_round_trips [of 255 "NodeKey 1 0 7 0"] by simp

end
