(* ===== verification/SmtDb.thy ===== *)
theory SmtDb
  imports SmtScalar
begin

text \<open>
  The database of the sparse Merkle tree. \<open>DB\<close> is the interface of \<open>smt/pkg/smt/smt.go\<close> as a record
  of its methods, as far as the tree operations call them; \<open>MemDb\<close> models the in-memory
  implementation of \<open>smt/pkg/db/mem-db.go\<close>, whose tables are maps from hexadecimal strings. The
  locale \<open>node_db\<close> states what the tree relies on (a node that was inserted is returned, the
  other tables do not touch the nodes), and it is interpreted on \<open>MemDb\<close>. The read-write lock is
  left out: every method holds it for its whole body.
\<close>

section \<open>The interface\<close>

record 'a DB =
  DB_Get :: "'a \<Rightarrow> NodeKey \<Rightarrow> NodeValue12 result"
  DB_Insert :: "'a \<Rightarrow> NodeKey \<Rightarrow> NodeValue12 \<Rightarrow> 'a result"
  DB_InsertHashKey :: "'a \<Rightarrow> NodeKey \<Rightarrow> NodeKey \<Rightarrow> 'a result"
  DB_InsertKeySource :: "'a \<Rightarrow> NodeKey \<Rightarrow> byte list \<Rightarrow> 'a result"
  DB_GetLastRoot :: "'a \<Rightarrow> int result"
  DB_SetLastRoot :: "'a \<Rightarrow> int \<Rightarrow> 'a result"
  DB_GetDepth :: "'a \<Rightarrow> uint8 result"
  DB_SetDepth :: "'a \<Rightarrow> uint8 \<Rightarrow> 'a result"

section \<open>The in-memory database\<close>

record MemDb =
  Db :: "string \<rightharpoonup> string list"
  DbAccVal :: "string \<rightharpoonup> string list"
  DbKeySource :: "string \<rightharpoonup> byte list"
  DbHashKey :: "string \<rightharpoonup> byte list"
  DbCode :: "string \<rightharpoonup> byte list"
  LastRoot :: int
  Depth :: uint8
  LastHeight :: uint64

definition NewMemDb :: MemDb where
  "NewMemDb = \<lparr>Db = Map.empty, DbAccVal = Map.empty, DbKeySource = Map.empty, DbHashKey = Map.empty,
     DbCode = Map.empty, LastRoot = 0, Depth = 0, LastHeight = 0\<rparr>"

definition MemDb_GetLastRoot :: "MemDb \<Rightarrow> int result" where
  "MemDb_GetLastRoot m = Inr (LastRoot m)"

definition MemDb_SetLastRoot :: "MemDb \<Rightarrow> int \<Rightarrow> MemDb result" where
  "MemDb_SetLastRoot m v = Inr (m\<lparr>LastRoot := v\<rparr>)"

definition MemDb_GetDepth :: "MemDb \<Rightarrow> uint8 result" where
  "MemDb_GetDepth m = Inr (Depth m)"

definition MemDb_SetDepth :: "MemDb \<Rightarrow> uint8 \<Rightarrow> MemDb result" where
  "MemDb_SetDepth m depth = Inr (m\<lparr>Depth := depth\<rparr>)"

text \<open>The key of a table: the hexadecimal form of the scalar of the node key.\<close>

definition hexKey :: "NodeKey \<Rightarrow> string" where
  "hexKey key = ConvertBigIntToHex (ArrayToScalar (nk_list key))"

text \<open>Reading the strings of a table into an array of \<open>n\<close> elements: a missing entry leaves them nil.\<close>

definition read_values :: "nat \<Rightarrow> string list option \<Rightarrow> bigint list result" where
  "read_values n entry =
     (let vs = (case entry of None \<Rightarrow> [] | Some ss \<Rightarrow> ss) in
      if length vs > n then Inl (Panic ''index out of range'')
      else Inr (map (\<lambda>v. Some (ConvertHexToBigInt v)) vs @ replicate (n - length vs) None))"

text \<open>Writing an array of pointers as strings: a nil pointer panics.\<close>

primrec write_values :: "bigint list \<Rightarrow> string list result" where
  "write_values [] = Inr []"
| "write_values (v # vs) =
     rbind (deref v) (\<lambda>x. rbind (write_values vs) (\<lambda>ss. Inr (ConvertBigIntToHex x # ss)))"

definition MemDb_Get :: "MemDb \<Rightarrow> NodeKey \<Rightarrow> NodeValue12 result" where
  "MemDb_Get m key = read_values 12 (Db m (hexKey key))"

definition MemDb_Insert :: "MemDb \<Rightarrow> NodeKey \<Rightarrow> NodeValue12 \<Rightarrow> MemDb result" where
  "MemDb_Insert m key v = rbind (write_values v) (\<lambda>values. Inr (m\<lparr>Db := (Db m)(hexKey key \<mapsto> values)\<rparr>))"

definition MemDb_Delete :: "MemDb \<Rightarrow> string \<Rightarrow> MemDb" where
  "MemDb_Delete m key = m\<lparr>Db := (Db m)(key := None)\<rparr>"

definition MemDb_DeleteByNodeKey :: "MemDb \<Rightarrow> NodeKey \<Rightarrow> MemDb" where
  "MemDb_DeleteByNodeKey m key = m\<lparr>Db := (Db m)(hexKey key := None)\<rparr>"

definition MemDb_GetAccountValue :: "MemDb \<Rightarrow> NodeKey \<Rightarrow> NodeValue8 result" where
  "MemDb_GetAccountValue m key = read_values 8 (DbAccVal m (hexKey key))"

definition MemDb_InsertAccountValue :: "MemDb \<Rightarrow> NodeKey \<Rightarrow> NodeValue8 \<Rightarrow> MemDb result" where
  "MemDb_InsertAccountValue m key v =
     rbind (write_values v) (\<lambda>values. Inr (m\<lparr>DbAccVal := (DbAccVal m)(hexKey key \<mapsto> values)\<rparr>))"

text \<open>The key sources are stored under the decimal form of the scalar.\<close>

definition decKey :: "NodeKey \<Rightarrow> string" where
  "decKey key = dec_nat (nat (ArrayToScalar (nk_list key)))"

definition ErrNotFound :: error where "ErrNotFound = Err ''key not found''"

definition MemDb_InsertKeySource :: "MemDb \<Rightarrow> NodeKey \<Rightarrow> byte list \<Rightarrow> MemDb result" where
  "MemDb_InsertKeySource m key v = Inr (m\<lparr>DbKeySource := (DbKeySource m)(decKey key \<mapsto> v)\<rparr>)"

definition MemDb_DeleteKeySource :: "MemDb \<Rightarrow> NodeKey \<Rightarrow> MemDb" where
  "MemDb_DeleteKeySource m key = m\<lparr>DbKeySource := (DbKeySource m)(decKey key := None)\<rparr>"

definition MemDb_GetKeySource :: "MemDb \<Rightarrow> NodeKey \<Rightarrow> byte list result" where
  "MemDb_GetKeySource m key =
     (case DbKeySource m (decKey key) of None \<Rightarrow> Inl ErrNotFound | Some s \<Rightarrow> Inr s)"

definition MemDb_InsertHashKey :: "MemDb \<Rightarrow> NodeKey \<Rightarrow> NodeKey \<Rightarrow> MemDb result" where
  "MemDb_InsertHashKey m key v =
     Inr (m\<lparr>DbHashKey := (DbHashKey m)(hexKey key \<mapsto> big_Bytes (nat (ArrayToScalar (nk_list v))))\<rparr>)"

definition MemDb_DeleteHashKey :: "MemDb \<Rightarrow> NodeKey \<Rightarrow> MemDb" where
  "MemDb_DeleteHashKey m key = m\<lparr>DbHashKey := (DbHashKey m)(hexKey key := None)\<rparr>"

definition MemDb_GetHashKey :: "MemDb \<Rightarrow> NodeKey \<Rightarrow> NodeKey result" where
  "MemDb_GetHashKey m key =
     (case DbHashKey m (hexKey key) of
        None \<Rightarrow> Inl ErrNotFound
      | Some s \<Rightarrow> Inr (nk_of (ScalarToArray (int (SetBytes s)))))"

definition MemDb_IsEmpty :: "MemDb \<Rightarrow> bool" where
  "MemDb_IsEmpty m \<longleftrightarrow> Db m = Map.empty"

text \<open>The method table of \<open>*MemDb\<close> as a \<open>DB\<close>.\<close>

definition MemDb_DB :: "MemDb DB" where
  "MemDb_DB = \<lparr>DB_Get = MemDb_Get, DB_Insert = MemDb_Insert, DB_InsertHashKey = MemDb_InsertHashKey,
     DB_InsertKeySource = MemDb_InsertKeySource, DB_GetLastRoot = MemDb_GetLastRoot,
     DB_SetLastRoot = MemDb_SetLastRoot, DB_GetDepth = MemDb_GetDepth, DB_SetDepth = MemDb_SetDepth\<rparr>"

section \<open>The contract of the node database\<close>

text \<open>A node value that can be stored: twelve non-negative numbers.\<close>

definition proper :: "NodeValue12 \<Rightarrow> bool" where
  "proper v \<longleftrightarrow> length v = 12 \<and> (\<forall>x\<in>set v. \<exists>n. x = Some n \<and> 0 \<le> n)"

locale node_db =
  fixes D :: "'a DB"
    and ok :: "'a \<Rightarrow> bool"
    and nodes :: "'a \<Rightarrow> NodeKey \<rightharpoonup> NodeValue12"
    and last_root :: "'a \<Rightarrow> int"
  assumes Get: "ok db \<Longrightarrow> DB_Get D db k = Inr (case nodes db k of None \<Rightarrow> replicate 12 None | Some v \<Rightarrow> v)"
    and Insert: "ok db \<Longrightarrow> proper v \<Longrightarrow> \<exists>db'. DB_Insert D db k v = Inr db' \<and> ok db' \<and>
      nodes db' = (nodes db)(k \<mapsto> v) \<and> last_root db' = last_root db"
    and InsertHashKey: "ok db \<Longrightarrow> \<exists>db'. DB_InsertHashKey D db k hk = Inr db' \<and> ok db' \<and>
      nodes db' = nodes db \<and> last_root db' = last_root db"
    and InsertKeySource: "ok db \<Longrightarrow> \<exists>db'. DB_InsertKeySource D db k ks = Inr db' \<and> ok db' \<and>
      nodes db' = nodes db \<and> last_root db' = last_root db"
    and GetDepth: "ok db \<Longrightarrow> \<exists>d. DB_GetDepth D db = Inr d"
    and SetDepth: "ok db \<Longrightarrow> \<exists>db'. DB_SetDepth D db d = Inr db' \<and> ok db' \<and>
      nodes db' = nodes db \<and> last_root db' = last_root db"
    and GetLastRoot: "ok db \<Longrightarrow> DB_GetLastRoot D db = Inr (last_root db)"
    and SetLastRoot: "ok db \<Longrightarrow> \<exists>db'. DB_SetLastRoot D db r = Inr db' \<and> ok db' \<and>
      nodes db' = nodes db \<and> last_root db' = r"

section \<open>The in-memory database keeps the contract\<close>

lemma hexKey_inject [simp]: "hexKey k = hexKey k' \<longleftrightarrow> k = k'"
proof
  assume "hexKey k = hexKey k'"
  then have "ConvertHexToBigInt (hexKey k) = ConvertHexToBigInt (hexKey k')" by simp
  then have "NodeKey_ToBigInt k = NodeKey_ToBigInt k'"
    by (simp add: hexKey_def ConvertHexToBigInt_ConvertBigIntToHex ArrayToScalar_def NodeKey_ToBigInt_def)
  then show "k = k'" by simp
qed simp

lemma write_values_proper:
  "\<forall>x\<in>set vs. \<exists>n. x = Some n \<and> 0 \<le> n \<Longrightarrow>
   \<exists>ss. write_values vs = Inr ss \<and> length ss = length vs \<and> map (\<lambda>v. Some (ConvertHexToBigInt v)) ss = vs"
proof (induction vs)
  case (Cons v vs)
  then obtain n ss where "v = Some n" "0 \<le> n" "write_values vs = Inr ss" "length ss = length vs"
    "map (\<lambda>v. Some (ConvertHexToBigInt v)) ss = vs" by auto
  then show ?case by (simp add: ConvertHexToBigInt_ConvertBigIntToHex)
qed simp

definition MemDb_ok :: "MemDb \<Rightarrow> bool" where
  "MemDb_ok m \<longleftrightarrow> (\<forall>k ss. Db m k = Some ss \<longrightarrow> length ss = 12)"

definition MemDb_nodes :: "MemDb \<Rightarrow> NodeKey \<rightharpoonup> NodeValue12" where
  "MemDb_nodes m k = map_option (map (\<lambda>v. Some (ConvertHexToBigInt v))) (Db m (hexKey k))"

lemma MemDb_Get_ok:
  "MemDb_ok m \<Longrightarrow> MemDb_Get m k = Inr (case MemDb_nodes m k of None \<Rightarrow> replicate 12 None | Some v \<Rightarrow> v)"
  by (auto simp: MemDb_Get_def read_values_def MemDb_nodes_def MemDb_ok_def split: option.splits)

lemma MemDb_Insert_ok:
  assumes "MemDb_ok m" "proper v"
  shows "\<exists>m'. MemDb_Insert m k v = Inr m' \<and> MemDb_ok m' \<and> MemDb_nodes m' = (MemDb_nodes m)(k \<mapsto> v) \<and>
    LastRoot m' = LastRoot m"
proof -
  obtain ss where ss: "write_values v = Inr ss" "length ss = length v" "map (\<lambda>v. Some (ConvertHexToBigInt v)) ss = v"
    using write_values_proper [of v] assms(2) by (auto simp: proper_def)
  let ?m = "m\<lparr>Db := (Db m)(hexKey k \<mapsto> ss)\<rparr>"
  have "MemDb_nodes ?m = (MemDb_nodes m)(k \<mapsto> v)" using ss(3) by (auto simp: MemDb_nodes_def)
  moreover have "MemDb_ok ?m" using assms ss(2) by (simp add: MemDb_ok_def proper_def)
  ultimately show ?thesis using ss(1) by (simp add: MemDb_Insert_def)
qed

interpretation memdb: node_db MemDb_DB MemDb_ok MemDb_nodes LastRoot
proof
  fix db k v assume "MemDb_ok db" "proper v"
  then show "\<exists>db'. DB_Insert MemDb_DB db k v = Inr db' \<and> MemDb_ok db' \<and> MemDb_nodes db' = (MemDb_nodes db)(k \<mapsto> v) \<and>
      LastRoot db' = LastRoot db"
    using MemDb_Insert_ok by (simp add: MemDb_DB_def)
qed (simp_all add: MemDb_DB_def MemDb_Get_ok MemDb_InsertHashKey_def MemDb_InsertKeySource_def MemDb_GetDepth_def MemDb_SetDepth_def
    MemDb_GetLastRoot_def MemDb_SetLastRoot_def MemDb_ok_def MemDb_nodes_def fun_eq_iff)

lemma decKey_inject [simp]: "decKey k = decKey k' \<longleftrightarrow> k = k'"
proof
  assume "decKey k = decKey k'"
  then have "nat (NodeKey_ToBigInt k) = nat (NodeKey_ToBigInt k')"
    unfolding decKey_def NodeKey_ToBigInt_def by (rule dec_nat_inject)
  then show "k = k'" by (simp add: eq_nat_nat_iff)
qed simp

lemma read_write_values:
  assumes "\<forall>x\<in>set vs. \<exists>n. x = Some n \<and> 0 \<le> n"
  shows "\<exists>ss. write_values vs = Inr ss \<and> read_values (length vs) (Some ss) = Inr vs"
  using write_values_proper [OF assms] by (auto simp: read_values_def)

section \<open>Properties\<close>

text \<open>
  C37. The in-memory database returns what was inserted: after inserting a node of twelve numbers, an
  account value of eight, a key source and a hash key under a key, each table returns it under that
  key and what it had before under every other key, though the tables are keyed by strings.
\<close>

theorem MemDb_reads_what_was_inserted:
  assumes "proper v" "length av = 8" "\<forall>x\<in>set av. \<exists>n. x = Some n \<and> 0 \<le> n"
  shows "\<exists>m1 m2 m3 m4. MemDb_Insert m k v = Inr m1 \<and> MemDb_InsertAccountValue m1 k av = Inr m2 \<and>
    MemDb_InsertKeySource m2 k ks = Inr m3 \<and> MemDb_InsertHashKey m3 k hk = Inr m4 \<and>
    MemDb_Get m4 k' = (if k' = k then Inr v else MemDb_Get m k') \<and>
    MemDb_GetAccountValue m4 k' = (if k' = k then Inr av else MemDb_GetAccountValue m k') \<and>
    MemDb_GetKeySource m4 k' = (if k' = k then Inr ks else MemDb_GetKeySource m k') \<and>
    MemDb_GetHashKey m4 k' = (if k' = k then Inr hk else MemDb_GetHashKey m k')"
proof -
  obtain ss where ss: "write_values v = Inr ss" "read_values 12 (Some ss) = Inr v"
    using read_write_values [of v] assms(1) by (auto simp: proper_def)
  obtain ts where ts: "write_values av = Inr ts" "read_values 8 (Some ts) = Inr av"
    using read_write_values [OF assms(3)] assms(2) by auto
  show ?thesis
    using ss ts ScalarToArray_ToBigInt [of hk] ToBigInt_nonneg [of hk] by (simp add: MemDb_Insert_def MemDb_InsertAccountValue_def
      MemDb_InsertKeySource_def MemDb_InsertHashKey_def MemDb_Get_def MemDb_GetAccountValue_def
      MemDb_GetKeySource_def MemDb_GetHashKey_def NodeKey_ToBigInt_def)
qed

theorem MemDb_reads_what_was_inserted_witness:
  "\<exists>m1 m2 m3 m4. MemDb_Insert NewMemDb (NodeKey 1 2 3 4) (replicate 12 (Some 5)) = Inr m1 \<and>
    MemDb_InsertAccountValue m1 (NodeKey 1 2 3 4) (replicate 8 (Some 6)) = Inr m2 \<and>
    MemDb_InsertKeySource m2 (NodeKey 1 2 3 4) [7] = Inr m3 \<and>
    MemDb_InsertHashKey m3 (NodeKey 1 2 3 4) (NodeKey 5 6 7 8) = Inr m4 \<and>
    MemDb_Get m4 (NodeKey 1 2 3 4) = Inr (replicate 12 (Some 5)) \<and>
    MemDb_GetHashKey m4 (NodeKey 1 2 3 4) = Inr (NodeKey 5 6 7 8)"
proof -
  have "proper (replicate 12 (Some 5))" by (simp add: proper_def)
  from MemDb_reads_what_was_inserted [OF this, of "replicate 8 (Some 6)" NewMemDb "NodeKey 1 2 3 4" "[7]"
      "NodeKey 5 6 7 8" "NodeKey 1 2 3 4"] show ?thesis by auto
qed

end
