(* ===== verification/Smt.thy ===== *)
theory Smt
  imports SmtDb
begin

text \<open>
  The sparse Merkle tree of \<open>smt/pkg/smt/smt.go\<close> over a database that is given by its methods
  (\<open>D\<close>) and its state, with the hash as the parameter \<open>hashFunc\<close>. \<open>insert\<close> is split along its
  comments: the search from the root, the update and insertion modes, the deletion modes, and the
  loop that hashes the path back to the root. The map \<open>siblings\<close> always has the levels from 0 as
  its keys and is the list of its nodes; \<open>level\<close> is an integer that is -1 above the root. The
  counter \<open>proofHashCounter\<close> is never read and is left out, as are the mutex and the periodic
  clean-up goroutine.
\<close>

section \<open>The tree and its helpers\<close>

record 'a SMT =
  noSaveOnInsert :: bool
  smt_Db :: 'a

record SMTResponse =
  NewRootScalar :: NodeKey
  Mode :: string

definition NewSMT :: "'a \<Rightarrow> bool \<Rightarrow> 'a SMT" where
  "NewSMT database noSave = \<lparr>noSaveOnInsert = noSave, smt_Db = database\<rparr>"

definition hashSave :: "'a DB \<Rightarrow> 'a SMT \<Rightarrow> uint64 list \<Rightarrow> NodeKey \<Rightarrow> NodeKey \<Rightarrow> 'a SMT result" where
  "hashSave D s input capacity h =
     (if noSaveOnInsert s then Inr s
      else rbind (DB_Insert D (smt_Db s) h (ConcatArrays8AndCapacityByPointers input capacity))
             (\<lambda>db. Inr (s\<lparr>smt_Db := db\<rparr>)))"

definition hashcalcAndSave ::
  "hash \<Rightarrow> 'a DB \<Rightarrow> 'a SMT \<Rightarrow> uint64 list \<Rightarrow> NodeKey \<Rightarrow> (NodeKey \<times> 'a SMT) result" where
  "hashcalcAndSave hashFunc D s input capacity =
     (let h = Hash hashFunc input capacity
      in rbind (hashSave D s input capacity h) (\<lambda>s. Inr (h, s)))"

definition getLastRoot :: "'a DB \<Rightarrow> 'a SMT \<Rightarrow> NodeKey result" where
  "getLastRoot D s = rbind (DB_GetLastRoot D (smt_Db s)) (\<lambda>root. Inr (ScalarToRoot root))"

definition setLastRoot :: "'a DB \<Rightarrow> 'a SMT \<Rightarrow> NodeKey \<Rightarrow> 'a SMT result" where
  "setLastRoot D s newRoot =
     rbind (DB_SetLastRoot D (smt_Db s) (NodeKey_ToBigInt newRoot)) (\<lambda>db. Inr (s\<lparr>smt_Db := db\<rparr>))"

definition updateDepth :: "'a DB \<Rightarrow> 'a SMT \<Rightarrow> nat \<Rightarrow> 'a SMT result" where
  "updateDepth D s newDepth =
     rbind (case DB_GetDepth D (smt_Db s) of Inl (Err _) \<Rightarrow> Inr 0 | r \<Rightarrow> r) (\<lambda>oldDepth.
     let newDepthAsByte = of_nat (min newDepth 255) :: uint8 in
     if oldDepth < newDepthAsByte
     then (case DB_SetDepth D (smt_Db s) newDepthAsByte of
             Inl (Err e) \<Rightarrow> Inl (Err (''s.Db.SetDepth: '' @ e))
           | Inl (Panic e) \<Rightarrow> Inl (Panic e)
           | Inr db \<Rightarrow> Inr (s\<lparr>smt_Db := db\<rparr>))
     else Inr s)"

text \<open>A call of \<open>InsertHashKey\<close>, and one whose error is discarded.\<close>

definition insertHashKey :: "'a DB \<Rightarrow> 'a SMT \<Rightarrow> NodeKey \<Rightarrow> NodeKey \<Rightarrow> 'a SMT result" where
  "insertHashKey D s h k = rbind (DB_InsertHashKey D (smt_Db s) h k) (\<lambda>db. Inr (s\<lparr>smt_Db := db\<rparr>))"

definition tryInsertHashKey :: "'a DB \<Rightarrow> 'a SMT \<Rightarrow> NodeKey \<Rightarrow> NodeKey \<Rightarrow> 'a SMT result" where
  "tryInsertHashKey D s h k = (case insertHashKey D s h k of Inl (Err _) \<Rightarrow> Inr s | r \<Rightarrow> r)"

section \<open>The search\<close>

text \<open>
  The loop from the root: the path taken, the nodes on it and, when it ends in a leaf, the key of
  the leaf, the rest of the key and the hash of its value.
\<close>

fun search_loop ::
  "'a DB \<Rightarrow> 'a \<Rightarrow> nat list \<Rightarrow> nat list \<Rightarrow> NodeKey \<Rightarrow> NodeValue12 list \<Rightarrow>
   (nat list \<times> NodeValue12 list \<times> (NodeKey \<times> NodeKey \<times> NodeKey) option) result" where
  "search_loop D db keys usedKey oldRoot siblings =
     (if NodeKey_IsZero oldRoot then Inr (usedKey, siblings, None)
      else rbind (DB_Get D db oldRoot) (\<lambda>sl.
        if IsFinalNode sl then
          rbind (NodeKeyFromBigIntArray (take 4 (drop 4 sl))) (\<lambda>foundOldValHash.
          rbind (DB_Get D db foundOldValHash) (\<lambda>fva.
          rbind (NodeKeyFromBigIntArray (take 4 sl)) (\<lambda>foundRKey.
          Inr (usedKey, siblings @ [sl], Some (JoinKey usedKey foundRKey, foundRKey, foundOldValHash)))))
        else
          (case keys of
             [] \<Rightarrow> Inl (Panic ''index out of range'')
           | b # ks \<Rightarrow>
               rbind (NodeKeyFromBigIntArray (take 4 (drop (b * 4) sl))) (\<lambda>oldRoot.
               search_loop D db ks (usedKey @ [b]) oldRoot (siblings @ [sl])))))"

declare search_loop.simps [simp del]

section \<open>Updating the path\<close>

text \<open>\<open>siblings[level][keys[level]*4+j] = h[j]\<close> for \<open>j\<close> from 0 to 3, and the same on an array of words.\<close>

definition set_child :: "NodeValue12 \<Rightarrow> nat \<Rightarrow> NodeKey \<Rightarrow> NodeValue12" where
  "set_child nv b h = take (b * 4) nv @ map (\<lambda>w. Some (uint w)) (nk_list h) @ drop (b * 4 + 4) nv"

definition set_words :: "uint64 list \<Rightarrow> nat \<Rightarrow> NodeKey \<Rightarrow> uint64 list" where
  "set_words node b h = take (b * 4) node @ nk_list h @ drop (b * 4 + 4) node"

text \<open>Below the root the hash becomes the child of the parent, at the root it is the new root.\<close>

definition link :: "nat list \<Rightarrow> int \<Rightarrow> NodeKey \<Rightarrow> NodeValue12 list \<Rightarrow> NodeKey \<Rightarrow> NodeValue12 list \<times> NodeKey" where
  "link keys level h siblings newRoot =
     (if level \<ge> 0 then
        (siblings[nat level := set_child (siblings ! nat level) (keys ! nat level) h], newRoot)
      else (siblings, h))"

definition saveValue ::
  "hash \<Rightarrow> 'a DB \<Rightarrow> 'a SMT \<Rightarrow> NodeValue8 \<Rightarrow> NodeKey \<Rightarrow> (NodeKey \<times> 'a SMT) result" where
  "saveValue hashFunc D s v newValH =
     (if newValH = NodeKey 0 0 0 0 then hashcalcAndSave hashFunc D s (ToUintArray (Some v)) BranchCapacity
      else rbind (hashSave D s (ToUintArray (Some v)) BranchCapacity newValH) (\<lambda>s. Inr (newValH, s)))"

text \<open>The new value of a key that is in the tree.\<close>

definition insert_update ::
  "hash \<Rightarrow> 'a DB \<Rightarrow> 'a SMT \<Rightarrow> NodeKey \<Rightarrow> NodeValue8 \<Rightarrow> NodeKey \<Rightarrow> NodeKey \<Rightarrow> (NodeKey \<times> 'a SMT) result" where
  "insert_update hashFunc D s k v newValH foundRKey =
     rbind (saveValue hashFunc D s v newValH) (\<lambda>(newValH, s).
     rbind (hashcalcAndSave hashFunc D s (ConcatArrays4 foundRKey newValH) LeafCapacity) (\<lambda>(newLeafHash, s).
     rbind (insertHashKey D s newLeafHash k) (\<lambda>s.
     Inr (newLeafHash, s))))"

text \<open>The first level at which two paths differ.\<close>

function common_level :: "nat list \<Rightarrow> nat list \<Rightarrow> nat \<Rightarrow> nat" where
  "common_level keys foundKeys level2 =
     (if level2 \<ge> length keys \<or> level2 \<ge> length foundKeys then level2
      else if keys ! level2 \<noteq> foundKeys ! level2 then level2
      else common_level keys foundKeys (level2 + 1))"
  by pat_completeness auto
termination by (relation "measure (\<lambda>(keys, _, level2). length keys - level2)") auto

declare common_level.simps [simp del]

text \<open>The nodes with one child between the new branch and the level of the leaf that was found.\<close>

primrec chain_loop ::
  "hash \<Rightarrow> 'a DB \<Rightarrow> nat list \<Rightarrow> nat \<Rightarrow> nat \<Rightarrow> NodeKey \<Rightarrow> 'a SMT \<Rightarrow> (NodeKey \<times> 'a SMT) result" where
  "chain_loop hashFunc D keys base 0 r2 s = Inr (r2, s)"
| "chain_loop hashFunc D keys base (Suc n) r2 s =
     rbind (idx keys (base + n)) (\<lambda>b.
     rbind (hashcalcAndSave hashFunc D s (set_words (replicate 8 0) b r2) BranchCapacity) (\<lambda>(r2, s).
     chain_loop hashFunc D keys base n r2 s))"

definition insert_found ::
  "hash \<Rightarrow> 'a DB \<Rightarrow> 'a SMT \<Rightarrow> NodeKey \<Rightarrow> NodeValue8 \<Rightarrow> NodeKey \<Rightarrow> int \<Rightarrow> NodeKey \<Rightarrow> NodeKey \<Rightarrow>
   (NodeKey \<times> 'a SMT) result" where
  "insert_found hashFunc D s k v newValH level foundKey foundOldValHash =
     (let keys = GetPath k;
          foundKeys = GetPath foundKey;
          level2 = common_level keys foundKeys (nat (level + 1));
          oldKey = RemoveKeyBits foundKey (level2 + 1) in
      rbind (hashcalcAndSave hashFunc D s (ConcatArrays4 oldKey foundOldValHash) LeafCapacity) (\<lambda>(oldLeafHash, s).
      rbind (tryInsertHashKey D s oldLeafHash foundKey) (\<lambda>s.
      let newKey = RemoveKeyBits k (level2 + 1) in
      rbind (saveValue hashFunc D s v newValH) (\<lambda>(newValH, s).
      rbind (hashcalcAndSave hashFunc D s (ConcatArrays4 newKey newValH) LeafCapacity) (\<lambda>(newLeafHash, s).
      rbind (tryInsertHashKey D s newLeafHash k) (\<lambda>s.
      rbind (idx keys level2) (\<lambda>b.
      rbind (idx foundKeys level2) (\<lambda>b'.
      let node = set_words (set_words (replicate 8 0) b newLeafHash) b' oldLeafHash in
      rbind (hashcalcAndSave hashFunc D s node BranchCapacity) (\<lambda>(r2, s).
      chain_loop hashFunc D keys (nat (level + 1)) (level2 - nat (level + 1)) r2 s)))))))))"

definition insert_notFound ::
  "hash \<Rightarrow> 'a DB \<Rightarrow> 'a SMT \<Rightarrow> NodeKey \<Rightarrow> NodeValue8 \<Rightarrow> NodeKey \<Rightarrow> int \<Rightarrow> (NodeKey \<times> 'a SMT) result" where
  "insert_notFound hashFunc D s k v newValH level =
     (let newKey = RemoveKeyBits k (nat (level + 1)) in
      rbind (saveValue hashFunc D s v newValH) (\<lambda>(newValH, s).
      rbind (hashcalcAndSave hashFunc D s (ConcatArrays4 newKey newValH) LeafCapacity) (\<lambda>(newLeafHash, s).
      rbind (tryInsertHashKey D s newLeafHash k) (\<lambda>s.
      Inr (newLeafHash, s)))))"

section \<open>Deleting\<close>

text \<open>A leaf that lost its sibling moves up past the nodes whose only child it would be.\<close>

function lift_loop :: "NodeValue12 list \<Rightarrow> int \<Rightarrow> int \<Rightarrow> int result" where
  "lift_loop siblings uKey level =
     (if uKey \<ge> 0 \<and> level \<ge> 0 then
        (if level - 1 \<ge> 0 then
           rbind (IsUniqueSibling (siblings ! nat (level - 1))) (\<lambda>uKey. lift_loop siblings uKey (level - 1))
         else lift_loop siblings uKey (level - 1))
      else Inr level)"
  by pat_completeness auto
termination by (relation "measure (\<lambda>(_, _, level). nat (level + 1))") auto

declare lift_loop.simps [simp del]

text \<open>The deletion modes: the new level, the nodes on the path, the root and the name of the mode.\<close>

definition insert_delete ::
  "hash \<Rightarrow> 'a DB \<Rightarrow> 'a SMT \<Rightarrow> nat list \<Rightarrow> int \<Rightarrow> nat list \<Rightarrow> NodeValue12 list \<Rightarrow> NodeKey \<Rightarrow>
   (int \<times> NodeValue12 list \<times> NodeKey \<times> string \<times> 'a SMT) result" where
  "insert_delete hashFunc D s keys level usedKey siblings newRoot =
     (if level \<ge> 0 then
        let siblings = siblings[nat level := set_child (siblings ! nat level) (keys ! nat level) (NodeKey 0 0 0 0)] in
        rbind (IsUniqueSibling (siblings ! nat level)) (\<lambda>uKey.
        if uKey \<ge> 0 then
          rbind (NodeKeyFromBigIntArray (take 4 (drop (nat uKey * 4) (siblings ! nat level)))) (\<lambda>dk.
          rbind (DB_Get D (smt_Db s) dk) (\<lambda>sl.
          let siblings = siblings[nat (level + 1) := sl] in
          if IsFinalNode sl then
            rbind (Get4to8 sl) (\<lambda>valH.
            rbind (Get0to4 sl) (\<lambda>rKey.
            let insKey = JoinKey (usedKey @ [nat uKey]) rKey in
            rbind (lift_loop siblings uKey level) (\<lambda>level.
            let oldKey = RemoveKeyBits insKey (nat (level + 1)) in
            rbind (hashcalcAndSave hashFunc D s (ConcatArrays4 oldKey valH) LeafCapacity) (\<lambda>(oldLeafHash, s).
            rbind (tryInsertHashKey D s oldLeafHash insKey) (\<lambda>s.
            let (siblings, newRoot) = link keys level oldLeafHash siblings newRoot in
            Inr (level, siblings, newRoot, ''deleteFound'', s))))))
          else Inr (level, siblings, newRoot, ''deleteNotFound'', s)))
        else Inr (level, siblings, newRoot, ''deleteNotFound'', s))
      else Inr (level, siblings, NodeKey 0 0 0 0, ''deleteLast'', s))"

section \<open>Hashing the path\<close>

primrec climb_loop ::
  "hash \<Rightarrow> 'a DB \<Rightarrow> nat list \<Rightarrow> nat \<Rightarrow> NodeValue12 list \<Rightarrow> NodeKey \<Rightarrow> 'a SMT \<Rightarrow> (NodeKey \<times> 'a SMT) result" where
  "climb_loop hashFunc D keys 0 siblings newRoot s = Inr (newRoot, s)"
| "climb_loop hashFunc D keys (Suc level) siblings newRoot s =
     rbind (NodeValue8FromBigIntArray (take 8 (siblings ! level))) (\<lambda>hashValueIn.
     rbind (NodeKeyFromBigIntArray (drop 8 (siblings ! level))) (\<lambda>hashCapIn.
     rbind (hashcalcAndSave hashFunc D s (ToUintArray (Some hashValueIn)) hashCapIn) (\<lambda>(newRoot, s).
     climb_loop hashFunc D keys level (fst (link keys (int level - 1) newRoot siblings newRoot)) newRoot s)))"

section \<open>The insertion\<close>

definition RemoveOver :: "'b list \<Rightarrow> nat \<Rightarrow> 'b list" where
  "RemoveOver m level = take level m"

definition insert_modes ::
  "hash \<Rightarrow> 'a DB \<Rightarrow> 'a SMT \<Rightarrow> NodeKey \<Rightarrow> NodeValue8 \<Rightarrow> NodeKey \<Rightarrow> NodeKey \<Rightarrow> nat list \<Rightarrow> NodeValue12 list \<Rightarrow>
   (NodeKey \<times> NodeKey \<times> NodeKey) option \<Rightarrow> (int \<times> NodeValue12 list \<times> NodeKey \<times> string \<times> 'a SMT) result" where
  "insert_modes hashFunc D s k v newValH newRoot usedKey siblings found =
     (let keys = GetPath k;
          level = int (length usedKey) - 1;
          linked = (\<lambda>mode (h, s). let (siblings, newRoot) = link keys level h siblings newRoot
                                 in Inr (level, siblings, newRoot, mode, s)) in
      if \<not> NodeValue8_IsZero (Some v) then
        (case found of
           Some (foundKey, foundRKey, foundOldValHash) \<Rightarrow>
             if IsEqualTo foundKey k
             then rbind (insert_update hashFunc D s k v newValH foundRKey) (linked ''update'')
             else rbind (insert_found hashFunc D s k v newValH level foundKey foundOldValHash) (linked ''insertFound'')
         | None \<Rightarrow> rbind (insert_notFound hashFunc D s k v newValH level) (linked ''insertNotFound''))
      else
        (case found of
           Some (foundKey, foundRKey, foundOldValHash) \<Rightarrow>
             if IsEqualTo foundKey k
             then insert_delete hashFunc D s keys level (butlast usedKey) siblings newRoot
             else Inr (level, siblings, newRoot, ''zeroToZero'', s)
         | None \<Rightarrow> Inr (level, siblings, newRoot, ''zeroToZero'', s)))"

definition smt_insert ::
  "hash \<Rightarrow> 'a DB \<Rightarrow> 'a SMT \<Rightarrow> NodeKey \<Rightarrow> NodeValue8 \<Rightarrow> NodeKey \<Rightarrow> NodeKey \<Rightarrow> (SMTResponse \<times> 'a SMT) result" where
  "smt_insert hashFunc D s k v newValH oldRoot =
     (let keys = GetPath k in
      rbind (search_loop D (smt_Db s) keys [] oldRoot []) (\<lambda>(usedKey, siblings, found).
      rbind (insert_modes hashFunc D s k v newValH oldRoot usedKey siblings found) (\<lambda>(level, siblings, newRoot, mode, s).
      let siblings = RemoveOver siblings (nat (level + 1)) in
      rbind (case updateDepth D s (length siblings) of Inl (Err e) \<Rightarrow> Inl (Err (''updateDepth: '' @ e)) | r \<Rightarrow> r) (\<lambda>s.
      rbind (climb_loop hashFunc D keys (nat (level + 1)) siblings newRoot s) (\<lambda>(newRoot, s).
      Inr (\<lparr>NewRootScalar = newRoot, Mode = mode\<rparr>, s))))))"

definition insertSingle ::
  "hash \<Rightarrow> 'a DB \<Rightarrow> 'a SMT \<Rightarrow> NodeKey \<Rightarrow> NodeValue8 \<Rightarrow> NodeKey \<Rightarrow> (SMTResponse \<times> 'a SMT) result" where
  "insertSingle hashFunc D s k v newValH =
     rbind (getLastRoot D s) (\<lambda>root.
     rbind (smt_insert hashFunc D s k v newValH root) (\<lambda>(smtr, s).
     rbind (setLastRoot D s (NewRootScalar smtr)) (\<lambda>s.
     Inr (smtr, s))))"

definition SMT_Insert ::
  "hash \<Rightarrow> 'a DB \<Rightarrow> 'a SMT \<Rightarrow> NodeKey \<Rightarrow> NodeValue8 \<Rightarrow> (SMTResponse \<times> 'a SMT) result" where
  "SMT_Insert hashFunc D s key v = insertSingle hashFunc D s key v (NodeKey 0 0 0 0)"

definition InsertKA ::
  "hash \<Rightarrow> 'a DB \<Rightarrow> 'a SMT \<Rightarrow> NodeKey \<Rightarrow> int \<Rightarrow> (SMTResponse \<times> 'a SMT) result" where
  "InsertKA hashFunc D s key v =
     (let x = ScalarToArrayBig v in
      rbind (NodeValue8FromBigIntArray x) (\<lambda>v. insertSingle hashFunc D s key v (NodeKey 0 0 0 0)))"

text \<open>\<open>None\<close>: the conversion of a negative key does not end.\<close>

definition InsertBI ::
  "hash \<Rightarrow> 'a DB \<Rightarrow> 'a SMT \<Rightarrow> int \<Rightarrow> int \<Rightarrow> (SMTResponse \<times> 'a SMT) result option" where
  "InsertBI hashFunc D s key v =
     map_option (\<lambda>k. insertSingle hashFunc D s k (ScalarToNodeValue8 v) (NodeKey 0 0 0 0)) (ScalarToNodeKey key)"

end
