(* ===== verification/SmtTree.thy ===== *)
theory SmtTree
  imports SmtDb
begin

text \<open>
  The specification of the sparse Merkle tree: the tree of a list of entries. A single entry is
  a leaf at any depth, two or more entries are split by the next bit of their path. The hash of
  the tree and the preimages of all its nodes follow the tree. The tree depends only on the set of
  entries, and the lemmas describe the subtrees along the path of a key before and after the entry
  of that key changes.
\<close>

section \<open>The tree of a list of entries\<close>

type_synonym entry = "NodeKey \<times> uint64 list"

datatype tree = Empty | Leaf NodeKey "uint64 list" | Branch tree tree

definition side :: "nat \<Rightarrow> bool \<Rightarrow> entry list \<Rightarrow> entry list" where
  "side d b es = filter (\<lambda>e. path_bit (fst e) d = b) es"

function smt_tree :: "nat \<Rightarrow> entry list \<Rightarrow> tree" where
  "smt_tree d es =
     (if es = [] then Empty
      else if tl es = [] then Leaf (fst (hd es)) (snd (hd es))
      else if d < 256 then Branch (smt_tree (Suc d) (side d False es)) (smt_tree (Suc d) (side d True es))
      else Empty)"
  by pat_completeness auto
termination by (relation "measure (\<lambda>(d, _). 256 - d)") auto

declare smt_tree.simps [simp del]

definition leaf_input :: "hash \<Rightarrow> nat \<Rightarrow> NodeKey \<Rightarrow> uint64 list \<Rightarrow> uint64 list" where
  "leaf_input H d k v = nk_list (RemoveKeyBits k d) @ nk_list (H v BranchCapacity)"

primrec root_hash :: "hash \<Rightarrow> tree \<Rightarrow> nat \<Rightarrow> NodeKey" where
  "root_hash H Empty d = NodeKey 0 0 0 0"
| "root_hash H (Leaf k v) d = H (leaf_input H d k v) LeafCapacity"
| "root_hash H (Branch l r) d =
     H (nk_list (root_hash H l (Suc d)) @ nk_list (root_hash H r (Suc d))) BranchCapacity"

text \<open>The inputs of the hash in a tree, with their capacities.\<close>

primrec tree_nodes :: "hash \<Rightarrow> tree \<Rightarrow> nat \<Rightarrow> (uint64 list \<times> NodeKey) list" where
  "tree_nodes H Empty d = []"
| "tree_nodes H (Leaf k v) d = [(leaf_input H d k v, LeafCapacity), (v, BranchCapacity)]"
| "tree_nodes H (Branch l r) d =
     (nk_list (root_hash H l (Suc d)) @ nk_list (root_hash H r (Suc d)), BranchCapacity) #
     tree_nodes H l (Suc d) @ tree_nodes H r (Suc d)"

text \<open>The entries after the value of a key changed; zeroes remove the key.\<close>

definition update_entry :: "NodeKey \<Rightarrow> uint64 list \<Rightarrow> entry list \<Rightarrow> entry list" where
  "update_entry k v es =
     (let others = filter (\<lambda>e. fst e \<noteq> k) es
      in if v = replicate 8 0 then others else (k, v) # others)"

section \<open>Basic facts\<close>

lemma smt_tree_Nil [simp]: "smt_tree d [] = Empty"
  by (simp add: smt_tree.simps)

lemma smt_tree_one [simp]: "smt_tree d [e] = Leaf (fst e) (snd e)"
  by (simp add: smt_tree.simps)

lemma smt_tree_branch:
  "2 \<le> length es \<Longrightarrow> d < 256 \<Longrightarrow>
   smt_tree d es = Branch (smt_tree (Suc d) (side d False es)) (smt_tree (Suc d) (side d True es))"
  by (subst smt_tree.simps) (cases es; cases "tl es"; auto)

lemma side_Nil [simp]: "side d b [] = []"
  by (simp add: side_def)

lemma side_Cons: "side d b (e # es) = (if path_bit (fst e) d = b then e # side d b es else side d b es)"
  by (simp add: side_def)

lemma set_side: "set (side d b es) = {e \<in> set es. path_bit (fst e) d = b}"
  by (auto simp: side_def)

lemma length_sides: "length (side d b es) + length (side d (\<not> b) es) = length es"
  by (induction es) (auto simp: side_Cons)

lemma distinct_side [simp]: "distinct (map fst es) \<Longrightarrow> distinct (map fst (side d b es))"
  unfolding side_def by (rule distinct_map_filter)

text \<open>The entries whose path starts with the first \<open>i\<close> bits of the path of \<open>k\<close>.\<close>

definition agree :: "NodeKey \<Rightarrow> nat \<Rightarrow> NodeKey \<Rightarrow> bool" where
  "agree k i k' \<longleftrightarrow> (\<forall>j<i. path_bit k' j = path_bit k j)"

definition sub :: "NodeKey \<Rightarrow> nat \<Rightarrow> entry list \<Rightarrow> entry list" where
  "sub k i es = filter (\<lambda>e. agree k i (fst e)) es"

definition other :: "NodeKey \<Rightarrow> nat \<Rightarrow> entry list \<Rightarrow> entry list" where
  "other k i es = side i (\<not> path_bit k i) (sub k i es)"

lemma agree_self [simp]: "agree k i k"
  by (simp add: agree_def)

lemma agree_Suc: "agree k (Suc i) k' \<longleftrightarrow> agree k i k' \<and> path_bit k' i = path_bit k i"
  by (auto simp: agree_def less_Suc_eq)

lemma agree_all: "agree k 256 k' \<longleftrightarrow> k' = k"
  using path_bit_eqI [of k' k] by (auto simp: agree_def)

lemma agree_mono: "agree k j k' \<Longrightarrow> i \<le> j \<Longrightarrow> agree k i k'"
  by (auto simp: agree_def)

lemma sub_0 [simp]: "sub k 0 es = es"
  by (simp add: sub_def agree_def)

lemma sub_Suc: "sub k (Suc i) es = side i (path_bit k i) (sub k i es)"
  by (simp add: sub_def side_def agree_Suc conj_commute)

lemma distinct_sub [simp]: "distinct (map fst es) \<Longrightarrow> distinct (map fst (sub k i es))"
  unfolding sub_def by (rule distinct_map_filter)

lemma length_sub_Suc: "length (sub k (Suc i) es) + length (other k i es) = length (sub k i es)"
  unfolding sub_Suc other_def by (rule length_sides)

lemma sub_256:
  assumes "distinct (map fst es)" shows "length (sub k 256 es) \<le> 1"
proof -
  have "distinct (map fst (sub k 256 es))" using assms by simp
  then have "length (sub k 256 es) = card (set (map fst (sub k 256 es)))" by (metis distinct_card length_map)
  also have "\<dots> \<le> card {k}" by (intro card_mono) (auto simp: sub_def agree_all)
  finally show ?thesis by simp
qed

lemma sub_branch_depth: "distinct (map fst es) \<Longrightarrow> i \<le> 256 \<Longrightarrow> 2 \<le> length (sub k i es) \<Longrightarrow> i < 256"
  using sub_256 [of es k] by (cases "i = 256") auto

lemma sub_mono: "i \<le> j \<Longrightarrow> length (sub k j es) \<le> length (sub k i es)"
proof (induction j rule: dec_induct)
  case (step n)
  then show ?case using length_sub_Suc [of k n es] by linarith
qed simp

text \<open>Changing the entry of \<open>k\<close> changes nothing beside the path of \<open>k\<close>.\<close>

lemma sub_update:
  "sub k i (update_entry k v es) = update_entry k v (sub k i es)"
  by (auto simp: update_entry_def sub_def Let_def conj_commute)

lemma other_update: "other k i (update_entry k v es) = other k i es"
proof -
  have "side i (\<not> path_bit k i) (filter (\<lambda>e. fst e \<noteq> k) xs) = side i (\<not> path_bit k i) xs" for xs
    unfolding side_def by (induction xs) auto
  then show ?thesis unfolding other_def sub_update by (simp add: update_entry_def Let_def side_Cons)
qed

lemma distinct_update: "distinct (map fst es) \<Longrightarrow> distinct (map fst (update_entry k v es))"
  by (auto simp: update_entry_def Let_def distinct_map_filter)

lemma map_of_update:
  "map_of (update_entry k v es) = (map_of es)(k := if v = replicate 8 0 then None else Some v)"
proof -
  have "map_of (filter (\<lambda>e. fst e \<noteq> k) es) = (map_of es)(k := None)"
    by (induction es) (auto simp: fun_eq_iff)
  then show ?thesis by (simp add: update_entry_def Let_def)
qed

lemma length_update:
  assumes "distinct (map fst es)" "v \<noteq> replicate 8 0" shows "length es \<le> length (update_entry k v es)"
proof -
  have "length es \<le> Suc (length (filter (\<lambda>e. fst e \<noteq> k) es))"
    using assms(1)
  proof (induction es)
    case (Cons e es)
    show ?case
    proof (cases "fst e = k")
      case True
      then have "filter (\<lambda>e. fst e \<noteq> k) es = es" using Cons.prems by (auto simp: filter_id_conv image_iff)
      then show ?thesis by simp
    qed (use Cons in simp)
  qed simp
  then show ?thesis using assms(2) by (simp add: update_entry_def Let_def)
qed

lemma update_absent:
  "k \<notin> fst ` set es \<Longrightarrow> update_entry k v es = (if v = replicate 8 0 then es else (k, v) # es)"
proof -
  assume "k \<notin> fst ` set es"
  then have "filter (\<lambda>e. fst e \<noteq> k) es = es" by (auto simp: filter_id_conv)
  then show ?thesis by (simp add: update_entry_def Let_def)
qed

lemma sub_self: "k \<in> fst ` set es \<longleftrightarrow> k \<in> fst ` set (sub k i es)"
  by (force simp: sub_def)

lemma sub_skip: "other k i es = [] \<Longrightarrow> sub k (Suc i) es = sub k i es"
  unfolding other_def sub_Suc side_def by (auto simp: filter_empty_conv filter_id_conv)

lemma other_sub:
  assumes "(k', v') \<in> set (other k i es)"
  shows "other k i es = sub k' (Suc i) es"
proof -
  have "agree k i k'" "path_bit k' i \<noteq> path_bit k i" using assms by (auto simp: other_def set_side sub_def)
  then have "agree k i x \<and> path_bit x i = (\<not> path_bit k i) \<longleftrightarrow> agree k' (Suc i) x" for x
    by (auto simp: agree_def less_Suc_eq)
  then show ?thesis by (simp add: other_def side_def sub_def conj_commute)
qed

section \<open>The tree depends on the set of entries only\<close>

lemma smt_tree_cong:
  "set es = set es' \<Longrightarrow> distinct (map fst es) \<Longrightarrow> distinct (map fst es') \<Longrightarrow> smt_tree d es = smt_tree d es'"
proof (induction d es arbitrary: es' rule: smt_tree.induct)
  case (1 d es)
  have len: "length es = length es'"
    using 1 by (metis distinct_card distinct_map)
  consider "es = []" | e where "es = [e]" | "2 \<le> length es" by (cases es; cases "tl es") auto
  then show ?case
  proof cases
    case 1 then show ?thesis using len by simp
  next
    case (2 e)
    then have "es' = [e]" using len 1 by (cases es') auto
    then show ?thesis using 2 by simp
  next
    case 3
    show ?thesis
    proof (cases "d < 256")
      case True
      have s: "smt_tree (Suc d) (side d b es) = smt_tree (Suc d) (side d b es')" for b
        using 1 3 True by (cases b; cases es; cases "tl es") (auto simp: set_side)
      show ?thesis using smt_tree_branch [OF 3 True] smt_tree_branch [of es' d] 3 True len s by simp
    next
      case False
      then show ?thesis using 3 len by (simp add: smt_tree.simps [of d es] smt_tree.simps [of d es'])
        (cases es; cases es'; auto)
    qed
  qed
qed

section \<open>Hashes and nodes along a path\<close>

definition hash_of :: "hash \<Rightarrow> nat \<Rightarrow> entry list \<Rightarrow> NodeKey" where
  "hash_of H d es = root_hash H (smt_tree d es) d"

definition nodes_of :: "hash \<Rightarrow> nat \<Rightarrow> entry list \<Rightarrow> (uint64 list \<times> NodeKey) set" where
  "nodes_of H d es = set (tree_nodes H (smt_tree d es) d)"

definition branch_input :: "hash \<Rightarrow> nat \<Rightarrow> entry list \<Rightarrow> uint64 list" where
  "branch_input H d es = nk_list (hash_of H (Suc d) (side d False es)) @ nk_list (hash_of H (Suc d) (side d True es))"

lemma hash_of_Nil [simp]: "hash_of H d [] = NodeKey 0 0 0 0"
  by (simp add: hash_of_def)

lemma hash_of_one [simp]: "hash_of H d [(k, v)] = H (leaf_input H d k v) LeafCapacity"
  by (simp add: hash_of_def)

lemma hash_of_branch: "2 \<le> length es \<Longrightarrow> d < 256 \<Longrightarrow> hash_of H d es = H (branch_input H d es) BranchCapacity"
  by (simp add: hash_of_def smt_tree_branch branch_input_def)

lemma nodes_of_Nil [simp]: "nodes_of H d [] = {}"
  by (simp add: nodes_of_def)

lemma nodes_of_one [simp]:
  "nodes_of H d [(k, v)] = {(leaf_input H d k v, LeafCapacity), (v, BranchCapacity)}"
  by (simp add: nodes_of_def)

lemma nodes_of_branch:
  "2 \<le> length es \<Longrightarrow> d < 256 \<Longrightarrow>
   nodes_of H d es = insert (branch_input H d es, BranchCapacity)
     (nodes_of H (Suc d) (side d False es) \<union> nodes_of H (Suc d) (side d True es))"
  by (simp add: nodes_of_def smt_tree_branch branch_input_def hash_of_def)

lemma branch_input_path:
  "branch_input H i (sub k i es) =
     (if path_bit k i
      then nk_list (hash_of H (Suc i) (other k i es)) @ nk_list (hash_of H (Suc i) (sub k (Suc i) es))
      else nk_list (hash_of H (Suc i) (sub k (Suc i) es)) @ nk_list (hash_of H (Suc i) (other k i es)))"
  by (simp add: branch_input_def sub_Suc other_def)

lemma nodes_of_path:
  assumes "2 \<le> length (sub k i es)" "i < 256"
  shows "nodes_of H i (sub k i es) = insert (branch_input H i (sub k i es), BranchCapacity)
    (nodes_of H (Suc i) (sub k (Suc i) es) \<union> nodes_of H (Suc i) (other k i es))"
  unfolding nodes_of_branch [OF assms] sub_Suc other_def by (cases "path_bit k i") auto

lemma nodes_of_sub:
  assumes "\<forall>j<i. 2 \<le> length (sub k j es)" "i \<le> 256"
  shows "nodes_of H i (sub k i es) \<subseteq> nodes_of H 0 es"
  using assms
proof (induction i)
  case (Suc i)
  then have "nodes_of H (Suc i) (sub k (Suc i) es) \<subseteq> nodes_of H i (sub k i es)"
    using nodes_of_path [of k i es H] by auto
  then show ?case using Suc by auto
qed simp

lemma nodes_of_other:
  assumes "\<forall>j\<le>i. 2 \<le> length (sub k j es)" "i < 256"
  shows "nodes_of H (Suc i) (other k i es) \<subseteq> nodes_of H 0 es"
  using nodes_of_path [of k i es H] nodes_of_sub [of i k es H] assms by auto

text \<open>The empty subtree is the only one whose hash is zero, when no node of the tree hashes to zero.\<close>

definition nonzero_nodes :: "hash \<Rightarrow> (uint64 list \<times> NodeKey) set \<Rightarrow> bool" where
  "nonzero_nodes H A \<longleftrightarrow> (\<forall>(x, c)\<in>A. H x c \<noteq> NodeKey 0 0 0 0)"

lemma hash_of_nonzero:
  assumes "nonzero_nodes H (nodes_of H d es)" "es \<noteq> []" "length es \<le> 1 \<or> d < 256"
  shows "hash_of H d es \<noteq> NodeKey 0 0 0 0"
proof (cases "2 \<le> length es")
  case True
  then show ?thesis using assms by (simp add: hash_of_branch nodes_of_branch nonzero_nodes_def)
next
  case False
  then obtain k v where "es = [(k, v)]" using assms(2) by (cases es; cases "tl es") auto
  then show ?thesis using assms(1) by (simp add: nonzero_nodes_def)
qed

lemma nonzero_nodes_subset: "nonzero_nodes H A \<Longrightarrow> B \<subseteq> A \<Longrightarrow> nonzero_nodes H B"
  by (auto simp: nonzero_nodes_def)

end
