(* ===== verification/SmtInsert.thy ===== *)
theory SmtInsert
  imports Smt SmtTree
begin

text \<open>
  The insertion of \<open>Smt\<close> refines the trees of \<open>SmtTree\<close>. The proofs are made in the locale
  \<open>node_db\<close>, for any database that keeps its contract: the search walks down the tree, each mode
  saves the nodes of the new subtree, and the loop over the path rebuilds the root. No two nodes of
  the new tree may have the same hash and none may hash to zero; nothing is assumed of the hash
  elsewhere.
\<close>

section \<open>Node values of hash inputs\<close>

abbreviation node12 :: "uint64 list \<Rightarrow> NodeKey \<Rightarrow> NodeValue12" where
  "node12 \<equiv> ConcatArrays8AndCapacityByPointers"

named_theorems node_simps \<open>reading the parts of a stored node\<close>

lemma nk_list_expand: "nk_list k = [nk0 k, nk1 k, nk2 k, nk3 k]"
  by (rule nk_list_def)

lemma NodeKeyFromBigIntArray_uints:
  "NodeKeyFromBigIntArray (map (\<lambda>w. Some (uint w)) (nk_list k)) = Inr k"
  by (cases k) (simp add: NodeKeyFromBigIntArray_def nk_list_def nk_of_def)

lemma take_drop_node [node_simps]:
  "take 4 (node12 (nk_list a @ nk_list b) c) = map (\<lambda>w. Some (uint w)) (nk_list a)"
  "take 4 (drop 4 (node12 (nk_list a @ nk_list b) c)) = map (\<lambda>w. Some (uint w)) (nk_list b)"
  "length x = 8 \<Longrightarrow> take 8 (node12 x c) = map (\<lambda>w. Some (uint w)) x"
  "length x = 8 \<Longrightarrow> drop 8 (node12 x c) = map (\<lambda>w. Some (uint w)) (nk_list c)"
  by (simp_all add: ConcatArrays8AndCapacityByPointers_def)

lemma child_at [node_simps]:
  "NodeKeyFromBigIntArray (take 4 (drop (of_bool p * 4) (node12 (nk_list a @ nk_list b) c))) = Inr (if p then b else a)"
  by (cases p) (simp_all add: node_simps NodeKeyFromBigIntArray_uints)

lemma IsFinalNode_node [node_simps]:
  "length x = 8 \<Longrightarrow> IsFinalNode (node12 x LeafCapacity)"
  "length x = 8 \<Longrightarrow> \<not> IsFinalNode (node12 x BranchCapacity)"
  by (simp_all add: IsFinalNode_def ConcatArrays8AndCapacityByPointers_def nth_append LeafCapacity_def
      BranchCapacity_def nk_list_def)

lemma proper_node [node_simps]: "length x = 8 \<Longrightarrow> proper (node12 x c)"
  by (auto simp: proper_def ConcatArrays8AndCapacityByPointers_def)

lemma set_child_node [node_simps]:
  "set_child (node12 (nk_list a @ nk_list b) c) (of_bool p) h =
     (if p then node12 (nk_list a @ nk_list h) c else node12 (nk_list h @ nk_list b) c)"
  by (cases p) (simp_all add: set_child_def ConcatArrays8AndCapacityByPointers_def)

lemma NodeValue8FromBigIntArray_8 [node_simps]: "length xs = 8 \<Longrightarrow> NodeValue8FromBigIntArray xs = Inr xs"
  by (simp add: NodeValue8FromBigIntArray_def copy_array_def)

lemma ToUintArray_uints [node_simps]: "ToUintArray (Some (map (\<lambda>w. Some (uint w)) x)) = x"
  by (simp add: ToUintArray_def o_def)

lemma uint64s_uints: "uint64s (map (\<lambda>w. Some (uint w)) x) = Inr x"
  by (induction x) simp_all

lemma Get_halves [node_simps]:
  "Get0to4 (node12 (nk_list a @ nk_list b) c) = Inr a"
  "Get4to8 (node12 (nk_list a @ nk_list b) c) = Inr b"
  by (simp_all add: Get0to4_def Get4to8_def node_simps uint64s_uints)

lemma IsUniqueSibling_node [node_simps]:
  "IsUniqueSibling (node12 (nk_list a @ nk_list b) BranchCapacity) =
     Inr (if a \<noteq> NodeKey 0 0 0 0 \<and> b = NodeKey 0 0 0 0 then 0
          else if a = NodeKey 0 0 0 0 \<and> b \<noteq> NodeKey 0 0 0 0 then 1 else -1)"
  by (simp add: IsUniqueSibling_def node_simps NodeKeyFromBigIntArray_uints NodeKey_IsZero_iff BranchCapacity_def)

lemma length_leaf_input [simp]: "length (leaf_input H d k v) = 8"
  by (simp add: leaf_input_def)

lemma length_branch_input [simp]: "length (branch_input H d es) = 8"
  by (simp add: branch_input_def)

text \<open>A set of hash inputs whose nodes are in the database.\<close>

definition stored :: "hash \<Rightarrow> (NodeKey \<rightharpoonup> NodeValue12) \<Rightarrow> (uint64 list \<times> NodeKey) set \<Rightarrow> bool" where
  "stored H M A \<longleftrightarrow> (\<forall>(x, c)\<in>A. M (H x c) = Some (node12 x c))"

lemma storedD: "stored H M A \<Longrightarrow> (x, c) \<in> A \<Longrightarrow> M (H x c) = Some (node12 x c)"
  by (auto simp: stored_def)

lemma stored_subset: "stored H M A \<Longrightarrow> B \<subseteq> A \<Longrightarrow> stored H M B"
  by (auto simp: stored_def)

lemma stored_Un: "stored H M (A \<union> B) \<longleftrightarrow> stored H M A \<and> stored H M B"
  by (auto simp: stored_def)

text \<open>Saving a node of a set without collisions keeps the other nodes of the set.\<close>

lemma stored_insert:
  assumes "stored H M A" "inj_on (\<lambda>(x, c). H x c) N" "A \<subseteq> N" "(x, c) \<in> N"
  shows "stored H (M(H x c \<mapsto> node12 x c)) (Set.insert (x, c) A)"
  unfolding stored_def
proof (clarify, goal_cases)
  case (1 y d)
  then have "H y d = H x c \<Longrightarrow> (y, d) = (x, c)"
    using inj_onD [OF assms(2), of "(y, d)" "(x, c)"] assms(3,4) by auto
  then show ?case using 1 storedD [OF assms(1), of y d] by auto
qed

section \<open>The search\<close>

lemma take_path_agree: "agree k L k' \<Longrightarrow> L \<le> 256 \<Longrightarrow> take L (GetPath k') = take L (GetPath k)"
  by (intro nth_equalityI) (simp_all add: GetPath_nth agree_def)

definition path_node :: "hash \<Rightarrow> NodeKey \<Rightarrow> entry list \<Rightarrow> nat \<Rightarrow> NodeValue12" where
  "path_node H k es i = node12 (branch_input H i (sub k i es)) BranchCapacity"

text \<open>What the search returns when it stops at level \<open>L\<close>.\<close>

definition found_at :: "hash \<Rightarrow> NodeKey \<Rightarrow> entry list \<Rightarrow> nat \<Rightarrow>
  NodeValue12 list \<times> (NodeKey \<times> NodeKey \<times> NodeKey) option" where
  "found_at H k es L =
     (case sub k L es of
        [] \<Rightarrow> ([], None)
      | (k', v') # _ \<Rightarrow> ([node12 (leaf_input H L k' v') LeafCapacity],
                         Some (k', RemoveKeyBits k' L, H v' BranchCapacity)))"

context node_db
begin

lemma search_stops_empty: "search_loop D db keys usedKey (NodeKey 0 0 0 0) siblings = Inr (usedKey, siblings, None)"
  by (subst search_loop.simps) (simp add: NodeKey_IsZero_iff)

lemma search_stops_leaf:
  assumes "ok db" "H (leaf_input H L k' v') LeafCapacity \<noteq> NodeKey 0 0 0 0"
    "nodes db (H (leaf_input H L k' v') LeafCapacity) = Some (node12 (leaf_input H L k' v') LeafCapacity)"
    "agree k L k'" "L \<le> 256"
  shows "search_loop D db keys (take L (GetPath k)) (H (leaf_input H L k' v') LeafCapacity) siblings =
    Inr (take L (GetPath k), siblings @ [node12 (leaf_input H L k' v') LeafCapacity],
         Some (k', RemoveKeyBits k' L, H v' BranchCapacity))"
proof -
  have "JoinKey (take L (GetPath k)) (RemoveKeyBits k' L) = k'"
    using JoinKey_RemoveKeyBits [OF assms(5), of k'] take_path_agree [OF assms(4,5)] by simp
  then show ?thesis
    using assms(1-3)
    by (subst search_loop.simps)
      (simp add: NodeKey_IsZero_iff Get IsFinalNode_node leaf_input_def take_drop_node NodeKeyFromBigIntArray_uints)
qed

lemma search_descends:
  assumes "ok db" "hash_of H i (sub k i es) \<noteq> NodeKey 0 0 0 0"
    "nodes db (hash_of H i (sub k i es)) = Some (path_node H k es i)" "i < 256"
  shows "search_loop D db (drop i (GetPath k)) (take i (GetPath k)) (hash_of H i (sub k i es)) siblings =
    search_loop D db (drop (Suc i) (GetPath k)) (take (Suc i) (GetPath k)) (hash_of H (Suc i) (sub k (Suc i) es))
      (siblings @ [path_node H k es i])"
proof -
  have keys: "drop i (GetPath k) = of_bool (path_bit k i) # drop (Suc i) (GetPath k)"
    "take (Suc i) (GetPath k) = take i (GetPath k) @ [of_bool (path_bit k i)]"
    using assms(4) by (simp_all add: Cons_nth_drop_Suc [symmetric] take_Suc_conv_app_nth GetPath_nth)
  have "NodeKeyFromBigIntArray (take 4 (drop (of_bool (path_bit k i) * 4) (path_node H k es i))) =
      Inr (hash_of H (Suc i) (sub k (Suc i) es))"
    unfolding path_node_def branch_input_path by (cases "path_bit k i") (simp_all only: if_True if_False child_at)
  then show ?thesis
    using assms(1-3)
    by (subst search_loop.simps)
      (simp add: NodeKey_IsZero_iff Get keys IsFinalNode_node path_node_def [of H k es i] del: search_loop.simps)
qed

lemma search_loop_path:
  assumes ok: "ok db" and st: "stored H (nodes db) (nodes_of H 0 es)" and nz: "nonzero_nodes H (nodes_of H 0 es)"
    and dist: "distinct (map fst es)"
  shows "i \<le> 256 \<Longrightarrow> \<forall>j<i. 2 \<le> length (sub k j es) \<Longrightarrow>
    \<exists>L. i \<le> L \<and> L \<le> 256 \<and> (\<forall>j<L. 2 \<le> length (sub k j es)) \<and> length (sub k L es) \<le> 1 \<and>
      search_loop D db (drop i (GetPath k)) (take i (GetPath k)) (hash_of H i (sub k i es)) siblings =
        Inr (take L (GetPath k), siblings @ map (path_node H k es) [i..<L] @ fst (found_at H k es L), snd (found_at H k es L))"
proof (induction "256 - i" arbitrary: i siblings rule: less_induct)
  case less
  have sub: "nodes_of H i (sub k i es) \<subseteq> nodes_of H 0 es" using less.prems by (intro nodes_of_sub)
  consider (empty) "sub k i es = []" | (leaf) k' v' where "sub k i es = [(k', v')]" | (branch) "2 \<le> length (sub k i es)"
    by (cases "sub k i es"; cases "tl (sub k i es)") auto
  then show ?case
  proof cases
    case empty
    then show ?thesis using less.prems by (intro exI [of _ i]) (simp add: search_stops_empty found_at_def)
  next
    case (leaf k' v')
    then have in0: "(leaf_input H i k' v', LeafCapacity) \<in> nodes_of H 0 es" using sub by auto
    have "(k', v') \<in> set (sub k i es)" using leaf by simp
    then have "agree k i k'" by (simp add: sub_def)
    then have "search_loop D db (drop i (GetPath k)) (take i (GetPath k)) (hash_of H i (sub k i es)) siblings =
        Inr (take i (GetPath k), siblings @ [node12 (leaf_input H i k' v') LeafCapacity],
             Some (k', RemoveKeyBits k' i, H v' BranchCapacity))"
      using search_stops_leaf [of db H i k' v' k] ok storedD [OF st in0] nz in0 less.prems(1)
      by (auto simp: leaf nonzero_nodes_def)
    then show ?thesis using less.prems leaf by (intro exI [of _ i]) (simp add: found_at_def)
  next
    case branch
    have i: "i < 256" using sub_branch_depth [OF dist less.prems(1) branch] .
    have "(branch_input H i (sub k i es), BranchCapacity) \<in> nodes_of H 0 es"
      using sub nodes_of_path [OF branch i, of H] by auto
    then have "nodes db (hash_of H i (sub k i es)) = Some (path_node H k es i)"
      using storedD [OF st] by (simp add: hash_of_branch [OF branch i] path_node_def)
    moreover have "sub k i es \<noteq> []" using branch by (cases "sub k i es") simp_all
    then have "hash_of H i (sub k i es) \<noteq> NodeKey 0 0 0 0"
      using hash_of_nonzero [OF nonzero_nodes_subset [OF nz sub]] i by simp
    ultimately have step: "search_loop D db (drop i (GetPath k)) (take i (GetPath k)) (hash_of H i (sub k i es)) siblings =
        search_loop D db (drop (Suc i) (GetPath k)) (take (Suc i) (GetPath k)) (hash_of H (Suc i) (sub k (Suc i) es))
          (siblings @ [path_node H k es i])"
      using ok i by (intro search_descends)
    have "\<exists>L. Suc i \<le> L \<and> L \<le> 256 \<and> (\<forall>j<L. 2 \<le> length (sub k j es)) \<and> length (sub k L es) \<le> 1 \<and>
        search_loop D db (drop (Suc i) (GetPath k)) (take (Suc i) (GetPath k)) (hash_of H (Suc i) (sub k (Suc i) es))
          (siblings @ [path_node H k es i]) =
        Inr (take L (GetPath k), (siblings @ [path_node H k es i]) @ map (path_node H k es) [Suc i..<L] @ fst (found_at H k es L),
             snd (found_at H k es L))"
      using i branch less.prems by (intro less.hyps) (auto simp: less_Suc_eq)
    then obtain L where L: "Suc i \<le> L" "L \<le> 256" "\<forall>j<L. 2 \<le> length (sub k j es)" "length (sub k L es) \<le> 1"
      and found: "search_loop D db (drop (Suc i) (GetPath k)) (take (Suc i) (GetPath k)) (hash_of H (Suc i) (sub k (Suc i) es))
          (siblings @ [path_node H k es i]) =
        Inr (take L (GetPath k), (siblings @ [path_node H k es i]) @ map (path_node H k es) [Suc i..<L] @ fst (found_at H k es L),
             snd (found_at H k es L))" by blast
    then have "[i..<L] = i # [Suc i..<L]" by (simp add: upt_conv_Cons)
    then show ?thesis using L found unfolding step by (intro exI [of _ L]) simp
  qed
qed

end

section \<open>Saving nodes\<close>

text \<open>A tree in which the nodes \<open>A\<close>, all of them among \<open>N\<close>, are saved.\<close>

definition saved_state ::
  "('a \<Rightarrow> bool) \<Rightarrow> ('a \<Rightarrow> NodeKey \<rightharpoonup> NodeValue12) \<Rightarrow> ('a \<Rightarrow> int) \<Rightarrow> hash \<Rightarrow> int \<Rightarrow>
   (uint64 list \<times> NodeKey) set \<Rightarrow> (uint64 list \<times> NodeKey) set \<Rightarrow> 'a SMT \<Rightarrow> bool" where
  "saved_state ok nodes last_root H r N A s \<longleftrightarrow>
     \<not> noSaveOnInsert s \<and> ok (smt_Db s) \<and> last_root (smt_Db s) = r \<and>
     stored H (nodes (smt_Db s)) A \<and> A \<subseteq> N \<and> inj_on (\<lambda>(x, c). H x c) N"

context node_db
begin

abbreviation saved :: "hash \<Rightarrow> int \<Rightarrow> (uint64 list \<times> NodeKey) set \<Rightarrow> (uint64 list \<times> NodeKey) set \<Rightarrow> 'a SMT \<Rightarrow> bool" where
  "saved \<equiv> saved_state ok nodes last_root"

lemma saved_hashSave:
  assumes "saved H r N A s" "(x, c) \<in> N" "length x = 8"
  shows "\<exists>s'. hashSave D s x c (H x c) = Inr s' \<and> saved H r N (Set.insert (x, c) A) s'"
proof -
  have s: "\<not> noSaveOnInsert s" "ok (smt_Db s)" "last_root (smt_Db s) = r" "stored H (nodes (smt_Db s)) A"
    "A \<subseteq> N" "inj_on (\<lambda>(x, c). H x c) N"
    using assms(1) by (simp_all add: saved_state_def)
  obtain db' where db': "DB_Insert D (smt_Db s) (H x c) (node12 x c) = Inr db'" "ok db'"
    "nodes db' = (nodes (smt_Db s))(H x c \<mapsto> node12 x c)" "last_root db' = last_root (smt_Db s)"
    using Insert [OF s(2) proper_node [OF assms(3)]] by blast
  have "stored H (nodes db') (Set.insert (x, c) A)"
    unfolding db'(3) using s(4,6,5) assms(2) by (rule stored_insert)
  then show ?thesis
    using s db' assms(2) by (auto simp: hashSave_def saved_state_def)
qed

lemma saved_hash:
  assumes "saved H r N A s" "(x, c) \<in> N" "length x = 8"
  shows "\<exists>s'. hashcalcAndSave H D s x c = Inr (H x c, s') \<and> saved H r N (Set.insert (x, c) A) s'"
  using saved_hashSave [OF assms] by (auto simp: hashcalcAndSave_def Hash_def Let_def)

lemma saved_insertHashKey:
  assumes "saved H r N A s"
  shows "\<exists>s'. insertHashKey D s h k = Inr s' \<and> saved H r N A s'"
proof -
  have "ok (smt_Db s)" using assms by (simp add: saved_state_def)
  from InsertHashKey [OF this, of h k] obtain db' where "DB_InsertHashKey D (smt_Db s) h k = Inr db'" "ok db'"
    "nodes db' = nodes (smt_Db s)" "last_root db' = last_root (smt_Db s)" by blast
  then show ?thesis using assms by (auto simp: insertHashKey_def saved_state_def)
qed

lemma saved_tryInsertHashKey:
  assumes "saved H r N A s"
  shows "\<exists>s'. tryInsertHashKey D s h k = Inr s' \<and> saved H r N A s'"
  using saved_insertHashKey [OF assms, of h k] by (auto simp: tryInsertHashKey_def)

lemma saved_value:
  assumes "saved H r N A s" "x = ToUintArray (Some v)" "(x, BranchCapacity) \<in> N" "length v = 8"
    "newValH = NodeKey 0 0 0 0 \<or> newValH = H x BranchCapacity"
  shows "\<exists>s'. saveValue H D s v newValH = Inr (H x BranchCapacity, s') \<and> saved H r N (Set.insert (x, BranchCapacity) A) s'"
proof -
  have "length x = 8" using assms(2,4) by (simp add: ToUintArray_def)
  with saved_hash [OF assms(1,3)] saved_hashSave [OF assms(1,3)] show ?thesis
    using assms(5) unfolding saveValue_def assms(2) [symmetric] by auto
qed

lemma saved_updateDepth:
  assumes "saved H r N A s"
  shows "\<exists>s'. updateDepth D s n = Inr s' \<and> saved H r N A s'"
proof -
  have k: "ok (smt_Db s)" using assms by (simp add: saved_state_def)
  obtain d where d: "DB_GetDepth D (smt_Db s) = Inr d" using GetDepth [OF k] by blast
  obtain db' where "DB_SetDepth D (smt_Db s) (of_nat (min n 255)) = Inr db'" "ok db'"
    "nodes db' = nodes (smt_Db s)" "last_root db' = last_root (smt_Db s)"
    using SetDepth [OF k, of "of_nat (min n 255)"] by blast
  then show ?thesis using assms d by (auto simp: updateDepth_def Let_def saved_state_def)
qed

text \<open>The leaf of a value.\<close>

lemma saved_leaf:
  assumes "saved H r N A s" "x = ToUintArray (Some v)" "nodes_of H L [(k, x)] \<subseteq> N" "length v = 8"
    "newValH = NodeKey 0 0 0 0 \<or> newValH = H x BranchCapacity"
  obtains s1 s2 where "saveValue H D s v newValH = Inr (H x BranchCapacity, s1)"
    "hashcalcAndSave H D s1 (ConcatArrays4 (RemoveKeyBits k L) (H x BranchCapacity)) LeafCapacity = Inr (hash_of H L [(k, x)], s2)"
    "saved H r N (A \<union> nodes_of H L [(k, x)]) s2"
proof -
  obtain s1 where s1: "saveValue H D s v newValH = Inr (H x BranchCapacity, s1)"
    "saved H r N (Set.insert (x, BranchCapacity) A) s1"
    using saved_value [OF assms(1,2) _ assms(4,5)] assms(3) by auto
  obtain s2 where "hashcalcAndSave H D s1 (leaf_input H L k x) LeafCapacity = Inr (hash_of H L [(k, x)], s2)"
    "saved H r N (Set.insert (leaf_input H L k x, LeafCapacity) (Set.insert (x, BranchCapacity) A)) s2"
    using saved_hash [OF s1(2), of "leaf_input H L k x" LeafCapacity] assms(3) by auto
  moreover have "Set.insert (leaf_input H L k x, LeafCapacity) (Set.insert (x, BranchCapacity) A) = A \<union> nodes_of H L [(k, x)]"
    by auto
  ultimately show ?thesis using that s1(1) by (simp add: leaf_input_def ConcatArrays4_def)
qed

lemma saved_update:
  assumes "saved H r N A s" "x = ToUintArray (Some v)" "nodes_of H L [(k, x)] \<subseteq> N" "length v = 8"
    "newValH = NodeKey 0 0 0 0 \<or> newValH = H x BranchCapacity"
  shows "\<exists>s'. insert_update H D s k v newValH (RemoveKeyBits k L) = Inr (hash_of H L [(k, x)], s') \<and>
    saved H r N (A \<union> nodes_of H L [(k, x)]) s'"
proof -
  obtain s1 s2 where s: "saveValue H D s v newValH = Inr (H x BranchCapacity, s1)"
    "hashcalcAndSave H D s1 (ConcatArrays4 (RemoveKeyBits k L) (H x BranchCapacity)) LeafCapacity = Inr (hash_of H L [(k, x)], s2)"
    "saved H r N (A \<union> nodes_of H L [(k, x)]) s2"
    using assms by (rule saved_leaf)
  show ?thesis
    using saved_insertHashKey [OF s(3), of "hash_of H L [(k, x)]" k] s(1,2) by (auto simp: insert_update_def)
qed

lemma saved_notFound:
  assumes "saved H r N A s" "x = ToUintArray (Some v)" "nodes_of H L [(k, x)] \<subseteq> N" "length v = 8"
    "newValH = NodeKey 0 0 0 0 \<or> newValH = H x BranchCapacity"
  shows "\<exists>s'. insert_notFound H D s k v newValH (int L - 1) = Inr (hash_of H L [(k, x)], s') \<and>
    saved H r N (A \<union> nodes_of H L [(k, x)]) s'"
proof -
  obtain s1 s2 where s: "saveValue H D s v newValH = Inr (H x BranchCapacity, s1)"
    "hashcalcAndSave H D s1 (ConcatArrays4 (RemoveKeyBits k L) (H x BranchCapacity)) LeafCapacity = Inr (hash_of H L [(k, x)], s2)"
    "saved H r N (A \<union> nodes_of H L [(k, x)]) s2"
    using assms by (rule saved_leaf)
  show ?thesis
    using saved_tryInsertHashKey [OF s(3), of "hash_of H L [(k, x)]" k] s(1,2) by (auto simp: insert_notFound_def)
qed

end

section \<open>Two leaves that share a prefix\<close>

lemma common_level_spec:
  assumes "k \<noteq> k'"
  shows "agree k i k' \<Longrightarrow> i \<le> 256 \<Longrightarrow>
    i \<le> common_level (GetPath k) (GetPath k') i \<and> common_level (GetPath k) (GetPath k') i < 256 \<and>
    agree k (common_level (GetPath k) (GetPath k') i) k' \<and>
    path_bit k' (common_level (GetPath k) (GetPath k') i) \<noteq> path_bit k (common_level (GetPath k) (GetPath k') i)"
proof (induction "256 - i" arbitrary: i rule: less_induct)
  case less
  have i: "i < 256" using less.prems assms agree_all [of k k'] by (cases "i = 256") auto
  show ?case
  proof (cases "path_bit k' i = path_bit k i")
    case True
    then have "agree k (Suc i) k'" using less.prems by (simp add: agree_Suc)
    then have IH: "Suc i \<le> common_level (GetPath k) (GetPath k') (Suc i) \<and> common_level (GetPath k) (GetPath k') (Suc i) < 256 \<and>
      agree k (common_level (GetPath k) (GetPath k') (Suc i)) k' \<and>
      path_bit k' (common_level (GetPath k) (GetPath k') (Suc i)) \<noteq> path_bit k (common_level (GetPath k) (GetPath k') (Suc i))"
      using i by (intro less.hyps) simp_all
    have "common_level (GetPath k) (GetPath k') i = common_level (GetPath k) (GetPath k') (Suc i)"
      using i True by (subst common_level.simps) (simp add: GetPath_nth)
    then show ?thesis using IH by simp
  next
    case False
    then have "common_level (GetPath k) (GetPath k') i = i"
      using i by (subst common_level.simps) (simp add: GetPath_nth)
    then show ?thesis using False less.prems i by simp
  qed
qed

lemma set_words_one: "set_words (replicate 8 0) (of_bool p) h =
    (if p then nk_list (NodeKey 0 0 0 0) @ nk_list h else nk_list h @ nk_list (NodeKey 0 0 0 0))"
  by (cases p) (simp_all add: set_words_def nk_list_def eval_nat_numeral)

lemma set_words_two:
  "q \<noteq> p \<Longrightarrow> set_words (set_words (replicate 8 0) (of_bool p) h) (of_bool q) g =
    (if p then nk_list g @ nk_list h else nk_list h @ nk_list g)"
  by (cases p; cases q) (simp_all add: set_words_def nk_list_def eval_nat_numeral)

text \<open>The subtree of two entries above and at the level where their paths part.\<close>

lemma two_shared:
  assumes "path_bit k' j = path_bit k j" "j < 256"
  shows "hash_of H j [(k, x), (k', y)] =
      H (set_words (replicate 8 0) (of_bool (path_bit k j)) (hash_of H (Suc j) [(k, x), (k', y)])) BranchCapacity"
    and "nodes_of H j [(k, x), (k', y)] =
      Set.insert (set_words (replicate 8 0) (of_bool (path_bit k j)) (hash_of H (Suc j) [(k, x), (k', y)]), BranchCapacity)
        (nodes_of H (Suc j) [(k, x), (k', y)])"
  using assms by (auto simp: hash_of_branch nodes_of_branch branch_input_def side_Cons set_words_one)

lemma two_split:
  assumes "path_bit k' j \<noteq> path_bit k j" "j < 256"
  shows "hash_of H j [(k, x), (k', y)] =
      H (set_words (set_words (replicate 8 0) (of_bool (path_bit k j)) (hash_of H (Suc j) [(k, x)]))
          (of_bool (path_bit k' j)) (hash_of H (Suc j) [(k', y)])) BranchCapacity"
    and "nodes_of H j [(k, x), (k', y)] =
      Set.insert (set_words (set_words (replicate 8 0) (of_bool (path_bit k j)) (hash_of H (Suc j) [(k, x)]))
          (of_bool (path_bit k' j)) (hash_of H (Suc j) [(k', y)]), BranchCapacity)
        (nodes_of H (Suc j) [(k, x)] \<union> nodes_of H (Suc j) [(k', y)])"
  using assms by (auto simp: hash_of_branch nodes_of_branch branch_input_def side_Cons set_words_two)

lemma two_nodes_mono:
  assumes "agree k m k'" "m \<le> 256" "L \<le> m"
  shows "nodes_of H m [(k, x), (k', y)] \<subseteq> nodes_of H L [(k, x), (k', y)]"
  using assms
proof (induction m)
  case (Suc m)
  show ?case
  proof (cases "L = Suc m")
    case False
    then have "nodes_of H m [(k, x), (k', y)] \<subseteq> nodes_of H L [(k, x), (k', y)]" using Suc by (auto simp: agree_Suc)
    then show ?thesis using two_shared(2) [of k' m k H x y] Suc.prems by (auto simp: agree_Suc)
  qed simp
qed simp

lemma length_set_words [simp]: "b < 2 \<Longrightarrow> length w = 8 \<Longrightarrow> length (set_words w b h) = 8"
  by (simp add: set_words_def)

context node_db
begin

lemma saved_chain:
  assumes "agree k (L + n) k'" "L + n \<le> 256" "nodes_of H L [(k, x), (k', y)] \<subseteq> N"
  shows "saved H r N A s \<Longrightarrow> nodes_of H (L + n) [(k, x), (k', y)] \<subseteq> A \<Longrightarrow>
    \<exists>s'. chain_loop H D (GetPath k) L n (hash_of H (L + n) [(k, x), (k', y)]) s = Inr (hash_of H L [(k, x), (k', y)], s') \<and>
      saved H r N (A \<union> nodes_of H L [(k, x), (k', y)]) s'"
  using assms(1,2)
proof (induction n arbitrary: s A)
  case 0
  then show ?case by (auto simp: Un_absorb2)
next
  case (Suc n)
  let ?j = "L + n" and ?es = "[(k, x), (k', y)]"
  let ?w = "set_words (replicate 8 0) (of_bool (path_bit k ?j)) (hash_of H (Suc ?j) ?es)"
  have j: "path_bit k' ?j = path_bit k ?j" "?j < 256" "agree k ?j k'" using Suc.prems by (auto simp: agree_Suc)
  note sh = two_shared [OF j(1,2), of H x y]
  have "(?w, BranchCapacity) \<in> N"
    using sh(2) two_nodes_mono [OF j(3), of L H x y] j(2) assms(3) by auto
  then obtain s1 where s1: "hashcalcAndSave H D s ?w BranchCapacity = Inr (hash_of H ?j ?es, s1)"
    "saved H r N (Set.insert (?w, BranchCapacity) A) s1"
    using saved_hash [OF Suc.prems(1), of ?w BranchCapacity] unfolding sh(1) by auto
  have "nodes_of H ?j ?es \<subseteq> Set.insert (?w, BranchCapacity) A" using sh(2) Suc.prems(2) by auto
  from Suc.IH [OF s1(2) this j(3)] j(2) obtain s2 where s2:
    "chain_loop H D (GetPath k) L n (hash_of H ?j ?es) s1 = Inr (hash_of H L ?es, s2)"
    "saved H r N (Set.insert (?w, BranchCapacity) A \<union> nodes_of H L ?es) s2" by auto
  moreover have "(?w, BranchCapacity) \<in> nodes_of H L ?es"
    using sh(2) two_nodes_mono [OF j(3), of L H x y] j(2) by auto
  ultimately show ?case
    using s1(1) j(2) by (auto simp: idx_in GetPath_nth insert_absorb)
qed

lemma saved_found:
  assumes sv: "saved H r N A s" and x: "x = ToUintArray (Some v)" and N: "nodes_of H L [(k, x), (k', y)] \<subseteq> N"
    and v: "length v = 8" "newValH = NodeKey 0 0 0 0 \<or> newValH = H x BranchCapacity"
    and k: "k \<noteq> k'" "agree k L k'" "L \<le> 256" and y: "(y, BranchCapacity) \<in> A"
  shows "\<exists>s'. insert_found H D s k v newValH (int L - 1) k' (H y BranchCapacity) =
      Inr (hash_of H L [(k, x), (k', y)], s') \<and> saved H r N (A \<union> nodes_of H L [(k, x), (k', y)]) s'"
proof -
  let ?es = "[(k, x), (k', y)]"
  define M where "M = common_level (GetPath k) (GetPath k') L"
  have M: "L \<le> M" "M < 256" "agree k M k'" "path_bit k' M \<noteq> path_bit k M"
    using common_level_spec [OF k] by (simp_all add: M_def)
  note sp = two_split [OF M(4,2), of H x y]
  have NM: "nodes_of H M ?es \<subseteq> nodes_of H L ?es" using two_nodes_mono [OF M(3) _ M(1)] M(2) by simp
  have "(leaf_input H (Suc M) k' y, LeafCapacity) \<in> N" using NM N sp(2) by auto
  then obtain s1 where s1: "hashcalcAndSave H D s (leaf_input H (Suc M) k' y) LeafCapacity = Inr (hash_of H (Suc M) [(k', y)], s1)"
    "saved H r N (Set.insert (leaf_input H (Suc M) k' y, LeafCapacity) A) s1"
    using saved_hash [OF sv, of "leaf_input H (Suc M) k' y" LeafCapacity] by auto
  obtain s2 where s2: "tryInsertHashKey D s1 (hash_of H (Suc M) [(k', y)]) k' = Inr s2"
    "saved H r N (Set.insert (leaf_input H (Suc M) k' y, LeafCapacity) A) s2"
    using saved_tryInsertHashKey [OF s1(2)] by blast
  have "nodes_of H (Suc M) [(k, x)] \<subseteq> N" using NM N sp(2) by auto
  from saved_leaf [OF s2(2) x this v] obtain s3 s4 where s34: "saveValue H D s2 v newValH = Inr (H x BranchCapacity, s3)"
    "hashcalcAndSave H D s3 (ConcatArrays4 (RemoveKeyBits k (Suc M)) (H x BranchCapacity)) LeafCapacity = Inr (hash_of H (Suc M) [(k, x)], s4)"
    "saved H r N (Set.insert (leaf_input H (Suc M) k' y, LeafCapacity) A \<union> nodes_of H (Suc M) [(k, x)]) s4" by metis
  obtain s5 where s5: "tryInsertHashKey D s4 (hash_of H (Suc M) [(k, x)]) k = Inr s5"
    "saved H r N (Set.insert (leaf_input H (Suc M) k' y, LeafCapacity) A \<union> nodes_of H (Suc M) [(k, x)]) s5"
    using saved_tryInsertHashKey [OF s34(3)] by blast
  define w where "w = set_words (set_words (replicate 8 0) (of_bool (path_bit k M)) (hash_of H (Suc M) [(k, x)]))
      (of_bool (path_bit k' M)) (hash_of H (Suc M) [(k', y)])"
  have "(w, BranchCapacity) \<in> N" "length w = 8" using NM N sp(2) by (auto simp: w_def)
  then obtain s6 where s6: "hashcalcAndSave H D s5 w BranchCapacity = Inr (hash_of H M ?es, s6)"
    "saved H r N (Set.insert (w, BranchCapacity)
       (Set.insert (leaf_input H (Suc M) k' y, LeafCapacity) A \<union> nodes_of H (Suc M) [(k, x)])) s6"
    using saved_hash [OF s5(2)] unfolding sp(1) w_def [symmetric] by blast
  let ?A = "Set.insert (w, BranchCapacity) (Set.insert (leaf_input H (Suc M) k' y, LeafCapacity) A \<union> nodes_of H (Suc M) [(k, x)])"
  have A: "nodes_of H M ?es \<subseteq> ?A" "?A \<subseteq> A \<union> nodes_of H L ?es" using sp(2) NM y by (auto simp: w_def)
  obtain s7 where s7: "chain_loop H D (GetPath k) L (M - L) (hash_of H M ?es) s6 = Inr (hash_of H L ?es, s7)"
    "saved H r N (?A \<union> nodes_of H L ?es) s7"
    using saved_chain [of k L "M - L" k' H x y N r ?A s6] M(1,2,3) N s6(2) A(1) by auto
  have "?A \<union> nodes_of H L ?es = A \<union> nodes_of H L ?es" using A(2) by auto
  then show ?thesis
    using s1(1) s2(1) s34(1,2) s5(1) s6(1) s7 M(2)
    by (auto simp: insert_found_def Let_def M_def [symmetric] leaf_input_def ConcatArrays4_def idx_in GetPath_nth w_def)
qed

end

section \<open>The way back to the root\<close>

lemma set_child_path:
  assumes "other k i es' = other k i es" "i < 256"
  shows "set_child (path_node H k es i) (GetPath k ! i) (hash_of H (Suc i) (sub k (Suc i) es')) = path_node H k es' i"
  unfolding path_node_def branch_input_path GetPath_nth [OF assms(2)] assms(1)
  by (cases "path_bit k i") (simp_all only: if_True if_False set_child_node)

context node_db
begin

lemma saved_climb:
  assumes oth: "\<And>j. other k j es' = other k j es" and N: "N = nodes_of H 0 es'"
  shows "saved H r N A s \<Longrightarrow> n \<le> 256 \<Longrightarrow> n \<le> length siblings \<Longrightarrow> \<forall>j<n. 2 \<le> length (sub k j es') \<Longrightarrow>
    (\<forall>j. Suc j < n \<longrightarrow> siblings ! j = path_node H k es j) \<Longrightarrow>
    (n \<noteq> 0 \<longrightarrow> siblings ! (n - 1) = path_node H k es' (n - 1)) \<Longrightarrow> (n = 0 \<longrightarrow> newRoot = hash_of H 0 es') \<Longrightarrow>
    nodes_of H n (sub k n es') \<subseteq> A \<Longrightarrow> \<forall>j<n. nodes_of H (Suc j) (other k j es') \<subseteq> A \<Longrightarrow>
    \<exists>s'. climb_loop H D (GetPath k) n siblings newRoot s = Inr (hash_of H 0 es', s') \<and> saved H r N N s'"
proof (induction n arbitrary: siblings newRoot s A)
  case 0
  then have "A = N" using N by (auto simp: saved_state_def)
  then show ?case using 0 by simp
next
  case (Suc m)
  let ?x = "branch_input H m (sub k m es')" and ?h = "hash_of H m (sub k m es')"
  have m: "m < 256" "2 \<le> length (sub k m es')" using Suc.prems by auto
  have node: "siblings ! m = node12 ?x BranchCapacity" using Suc.prems(6) by (simp add: path_node_def)
  have h: "?h = H ?x BranchCapacity" using m by (simp add: hash_of_branch)
  have new: "(?x, BranchCapacity) \<in> N"
    using nodes_of_sub [of m k es' H] nodes_of_path [OF m(2,1), of H] Suc.prems(4) m(1) N by auto
  obtain s1 where s1: "hashcalcAndSave H D s ?x BranchCapacity = Inr (?h, s1)"
    "saved H r N (Set.insert (?x, BranchCapacity) A) s1"
    using saved_hash [OF Suc.prems(1) new] unfolding h by auto
  define sib' where "sib' = fst (link (GetPath k) (int m - 1) ?h siblings ?h)"
  have sib: "sib' = (if m = 0 then siblings
      else siblings[m - 1 := set_child (siblings ! (m - 1)) (GetPath k ! (m - 1)) ?h])"
    by (auto simp: sib'_def link_def nat_diff_distrib)
  have len: "m \<le> length sib'" using Suc.prems(3) by (simp add: sib)
  have low: "\<forall>j. Suc j < m \<longrightarrow> sib' ! j = path_node H k es j" using Suc.prems(5) by (auto simp: sib)
  have top: "m \<noteq> 0 \<longrightarrow> sib' ! (m - 1) = path_node H k es' (m - 1)"
  proof
    assume "m \<noteq> 0"
    then obtain l where l: "m = Suc l" by (cases m) auto
    have "sib' ! l = set_child (path_node H k es l) (GetPath k ! l) ?h"
      using Suc.prems(3,5) by (simp add: sib l)
    also have "\<dots> = path_node H k es' l" using set_child_path [OF oth, of l H] m(1) l by simp
    finally show "sib' ! (m - 1) = path_node H k es' (m - 1)" by (simp add: l)
  qed
  have below: "nodes_of H m (sub k m es') \<subseteq> Set.insert (?x, BranchCapacity) A"
    using nodes_of_path [OF m(2,1), of H] Suc.prems(8,9) by auto
  have others: "\<forall>j<m. nodes_of H (Suc j) (other k j es') \<subseteq> Set.insert (?x, BranchCapacity) A"
    using Suc.prems(9) by (meson less_SucI subset_insertI2)
  have "\<exists>s'. climb_loop H D (GetPath k) m sib' ?h s1 = Inr (hash_of H 0 es', s') \<and> saved H r N N s'"
    using Suc.prems(2,4) by (intro Suc.IH [OF s1(2) _ len _ low top _ below others]) auto
  then show ?case
    using s1(1) by (auto simp: node node_simps NodeKeyFromBigIntArray_uints sib'_def)
qed

end

text \<open>What the loop needs of the level, the nodes and the root that a mode leaves behind.\<close>

definition ready ::
  "hash \<Rightarrow> NodeKey \<Rightarrow> entry list \<Rightarrow> entry list \<Rightarrow> (uint64 list \<times> NodeKey) set \<Rightarrow> nat \<Rightarrow> NodeValue12 list \<Rightarrow> NodeKey \<Rightarrow> bool" where
  "ready H k es es' A n siblings newRoot \<longleftrightarrow>
     n \<le> 256 \<and> n \<le> length siblings \<and> (\<forall>j<n. 2 \<le> length (sub k j es')) \<and>
     (\<forall>j. Suc j < n \<longrightarrow> siblings ! j = path_node H k es j) \<and>
     (n \<noteq> 0 \<longrightarrow> siblings ! (n - 1) = path_node H k es' (n - 1)) \<and> (n = 0 \<longrightarrow> newRoot = hash_of H 0 es') \<and>
     nodes_of H n (sub k n es') \<subseteq> A \<and> (\<forall>j<n. nodes_of H (Suc j) (other k j es') \<subseteq> A)"

lemma ready_link:
  assumes "n \<le> 256" "n \<le> length siblings" "\<forall>j<n. 2 \<le> length (sub k j es')" "\<forall>j<n. siblings ! j = path_node H k es j"
    "nodes_of H n (sub k n es') \<subseteq> A" "\<forall>j<n. nodes_of H (Suc j) (other k j es') \<subseteq> A"
    "\<And>j. other k j es' = other k j es"
    "link (GetPath k) (int n - 1) (hash_of H n (sub k n es')) siblings newRoot = (siblings', newRoot')"
  shows "ready H k es es' A n siblings' newRoot'"
proof (cases n)
  case 0
  then show ?thesis using assms by (auto simp: ready_def link_def)
next
  case (Suc m)
  then have "siblings' = siblings[m := path_node H k es' m]"
    using assms(1,4,8) set_child_path [OF assms(7), of m H] by (auto simp: link_def)
  then show ?thesis using Suc assms(1-6) by (auto simp: ready_def)
qed

context node_db
begin

lemma saved_climb_ready:
  assumes "\<And>j. other k j es' = other k j es" "N = nodes_of H 0 es'" "saved H r N A s" "ready H k es es' A n siblings newRoot"
  shows "\<exists>s'. climb_loop H D (GetPath k) n (take n siblings) newRoot s = Inr (hash_of H 0 es', s') \<and> saved H r N N s'"
  using assms(4) unfolding ready_def
  by (intro saved_climb [OF assms(1,2,3)]) auto

end

section \<open>Deleting\<close>

lemma hash_of_other_nonzero:
  assumes "nonzero_nodes H (nodes_of H 0 es)" "distinct (map fst es)" "\<forall>j\<le>i. 2 \<le> length (sub k j es)" "i < 256"
  shows "hash_of H (Suc i) (other k i es) = NodeKey 0 0 0 0 \<longleftrightarrow> other k i es = []"
proof (cases "other k i es")
  case (Cons e xs)
  obtain k' v' where e: "e = (k', v')" by (cases e)
  have "other k i es = sub k' (Suc i) es" using Cons e by (intro other_sub [of k' v']) simp
  then have "length (other k i es) \<le> 1 \<or> Suc i < 256"
    using sub_branch_depth [OF assms(2), of "Suc i" k'] assms(4) by (cases "2 \<le> length (sub k' (Suc i) es)") auto
  moreover have "nonzero_nodes H (nodes_of H (Suc i) (other k i es))"
    using assms(1) nodes_of_other [OF assms(3,4)] by (rule nonzero_nodes_subset)
  ultimately show ?thesis using hash_of_nonzero [of H "Suc i" "other k i es"] Cons by auto
qed simp

lemma hash_of_sub_nonzero:
  assumes "nonzero_nodes H (nodes_of H 0 es)" "distinct (map fst es)" "\<forall>j<i. 2 \<le> length (sub k j es)" "i \<le> 256"
    "sub k i es \<noteq> []"
  shows "hash_of H i (sub k i es) \<noteq> NodeKey 0 0 0 0"
proof -
  have "length (sub k i es) \<le> 1 \<or> i < 256" using sub_branch_depth [OF assms(2,4), of k] by linarith
  then show ?thesis
    using hash_of_nonzero [OF nonzero_nodes_subset [OF assms(1) nodes_of_sub [OF assms(3,4)]] assms(5)] by simp
qed

lemma IsUniqueSibling_path:
  "IsUniqueSibling (path_node H k es i) =
     (let a = hash_of H (Suc i) (sub k (Suc i) es) = NodeKey 0 0 0 0;
          b = hash_of H (Suc i) (other k i es) = NodeKey 0 0 0 0
      in Inr (if \<not> a \<and> b then of_bool (path_bit k i) else if a \<and> \<not> b then of_bool (\<not> path_bit k i) else -1))"
  unfolding path_node_def branch_input_path by (cases "path_bit k i") (simp_all add: IsUniqueSibling_node Let_def)

lemma lift_loop_path:
  assumes "nonzero_nodes H (nodes_of H 0 es)" "distinct (map fst es)"
  shows "0 \<le> uKey \<Longrightarrow> l \<le> 255 \<Longrightarrow> \<forall>j\<le>l. 2 \<le> length (sub k j es) \<Longrightarrow> \<forall>j<l. siblings ! j = path_node H k es j \<Longrightarrow>
    \<exists>n\<le>l. lift_loop siblings uKey (int l) = Inr (int n - 1) \<and> (\<forall>j. n \<le> j \<and> j < l \<longrightarrow> other k j es = []) \<and>
      (n \<noteq> 0 \<longrightarrow> other k (n - 1) es \<noteq> [])"
proof (induction l arbitrary: uKey)
  case 0
  then have "lift_loop siblings uKey (int 0) = Inr (- 1)"
    by (subst lift_loop.simps, simp, subst lift_loop.simps, simp)
  then show ?case by auto
next
  case (Suc i)
  have step: "lift_loop siblings uKey (int (Suc i)) =
      rbind (IsUniqueSibling (siblings ! i)) (\<lambda>uKey. lift_loop siblings uKey (int i))"
    using Suc.prems(1) by (subst lift_loop.simps) simp
  have lens: "\<forall>j\<le>i. 2 \<le> length (sub k j es)" "2 \<le> length (sub k (Suc i) es)" using Suc.prems(3) by auto
  have "sub k (Suc i) es \<noteq> []" using lens(2) by (cases "sub k (Suc i) es") simp_all
  then have a: "hash_of H (Suc i) (sub k (Suc i) es) \<noteq> NodeKey 0 0 0 0"
    using Suc.prems(2,3) by (intro hash_of_sub_nonzero [OF assms]) auto
  have b: "hash_of H (Suc i) (other k i es) = NodeKey 0 0 0 0 \<longleftrightarrow> other k i es = []"
    using Suc.prems(2) by (intro hash_of_other_nonzero [OF assms lens(1)]) simp
  have u: "IsUniqueSibling (siblings ! i) = Inr (if other k i es = [] then of_bool (path_bit k i) else -1)"
    using Suc.prems(4) a b by (simp add: IsUniqueSibling_path)
  show ?case
  proof (cases "other k i es = []")
    case True
    from Suc.IH [of "of_bool (path_bit k i)"] Suc.prems(2,4) lens(1) obtain n where
      "n \<le> i" "lift_loop siblings (of_bool (path_bit k i)) (int i) = Inr (int n - 1)"
      "\<forall>j. n \<le> j \<and> j < i \<longrightarrow> other k j es = []" "n \<noteq> 0 \<longrightarrow> other k (n - 1) es \<noteq> []" by auto
    then show ?thesis using True unfolding step u by (intro exI [of _ n]) (auto simp: less_Suc_eq)
  next
    case False
    have "lift_loop siblings (-1) (int i) = Inr (int i)" by (subst lift_loop.simps) simp
    then show ?thesis using False unfolding step u by (intro exI [of _ "Suc i"]) auto
  qed
qed

text \<open>Below the levels without other entries the subtree does not change.\<close>

lemma sub_lifted:
  assumes "\<forall>j. n \<le> j \<and> j < l \<longrightarrow> other k j es = []" "n \<le> l"
  shows "sub k n es = sub k l es"
  using assms(2,1)
proof (induction l rule: dec_induct)
  case (step i)
  then show ?case using sub_skip [of k i es] by auto
qed simp

lemma sub_after_delete:
  assumes "sub k (Suc l) es' = []" shows "sub k l es' = other k l es'"
proof -
  have "filter (\<lambda>e. path_bit (fst e) l = path_bit k l) (sub k l es') = []"
    using assms by (simp add: sub_Suc side_def)
  then have "\<forall>e\<in>set (sub k l es'). path_bit (fst e) l = (\<not> path_bit k l)" by (auto simp: filter_empty_conv)
  then show ?thesis unfolding other_def side_def by (simp add: filter_id_conv [THEN iffD2])
qed

context node_db
begin

text \<open>The sibling is a leaf: it moves up to the level below the next node with two children.\<close>

lemma saved_delete_leaf:
  assumes sv: "saved H r N A s" and N: "N = nodes_of H 0 es'"
    and old: "nonzero_nodes H (nodes_of H 0 es)" "distinct (map fst es)" "\<forall>j\<le>l. 2 \<le> length (sub k j es)" "l < 256"
    and oth: "\<And>j. other k j es' = other k j es" and gone: "sub k (Suc l) es' = []"
    and one: "other k l es = [(k', v')]" and v': "(v', BranchCapacity) \<in> nodes_of H 0 es"
    and A: "A = nodes_of H 0 es \<inter> N"
    and sib: "l < length siblings" "\<forall>j<l. siblings ! j = path_node H k es j" and u: "0 \<le> uKey"
  shows "\<exists>n s' siblings' newRoot' A'.
    rbind (lift_loop siblings uKey (int l)) (\<lambda>level.
      rbind (hashcalcAndSave H D s (ConcatArrays4 (RemoveKeyBits k' (nat (level + 1))) (H v' BranchCapacity)) LeafCapacity) (\<lambda>(oldLeafHash, s).
      rbind (tryInsertHashKey D s oldLeafHash k') (\<lambda>s.
      let (siblings, newRoot) = link (GetPath k) level oldLeafHash siblings newRoot in
      Inr (level, siblings, newRoot, mode, s)))) = Inr (int n - 1, siblings', newRoot', mode, s') \<and>
    saved H r N A' s' \<and> ready H k es es' A' n siblings' newRoot'"
proof -
  obtain n where n: "n \<le> l" "lift_loop siblings uKey (int l) = Inr (int n - 1)"
    "\<forall>j. n \<le> j \<and> j < l \<longrightarrow> other k j es = []" "n \<noteq> 0 \<longrightarrow> other k (n - 1) es \<noteq> []"
    using lift_loop_path [OF old(1,2) u, of l k siblings] old(3,4) sib(2) by auto
  have subn: "sub k n es' = [(k', v')]"
    using sub_lifted [of n l k es'] n(1,3) sub_after_delete [OF gone] one by (simp add: oth)
  have two: "2 \<le> length (sub k j es')" if j: "j < n" for j
  proof -
    obtain m where m: "n = Suc m" "j \<le> m" using j by (cases n) auto
    have "length (other k m es') \<ge> 1" using n(4) m by (cases "other k m es'") (auto simp: oth)
    then have "2 \<le> length (sub k m es')" using length_sub_Suc [of k m es'] subn m(1) by simp
    then show ?thesis using sub_mono [OF m(2), of k es'] by linarith
  qed
  have nN: "nodes_of H n (sub k n es') \<subseteq> N" using nodes_of_sub [of n k es' H] two n(1) old(4) N by simp
  then have "(leaf_input H n k' v', LeafCapacity) \<in> N" "(v', BranchCapacity) \<in> A"
    using v' by (auto simp: subn A)
  from saved_hash [OF sv this(1)] obtain s1 where
    s1: "hashcalcAndSave H D s (leaf_input H n k' v') LeafCapacity = Inr (hash_of H n (sub k n es'), s1)"
    "saved H r N (Set.insert (leaf_input H n k' v', LeafCapacity) A) s1" by (auto simp: subn)
  let ?A = "Set.insert (leaf_input H n k' v', LeafCapacity) A"
  obtain s2 where s2: "tryInsertHashKey D s1 (hash_of H n (sub k n es')) k' = Inr s2" "saved H r N ?A s2"
    using saved_tryInsertHashKey [OF s1(2)] by blast
  obtain siblings' newRoot' where lk:
    "link (GetPath k) (int n - 1) (hash_of H n (sub k n es')) siblings newRoot = (siblings', newRoot')" by fastforce
  have others: "\<forall>j<n. nodes_of H (Suc j) (other k j es') \<subseteq> ?A"
  proof (intro allI impI)
    fix j assume j: "j < n"
    then have "nodes_of H (Suc j) (other k j es') \<subseteq> N" using nodes_of_other [of j k es' H] two n(1) old(4) N by simp
    moreover have "nodes_of H (Suc j) (other k j es') \<subseteq> nodes_of H 0 es"
      using nodes_of_other [of j k es H] old(3,4) n(1) j by (simp add: oth)
    ultimately show "nodes_of H (Suc j) (other k j es') \<subseteq> ?A" by (auto simp: A)
  qed
  have "ready H k es es' ?A n siblings' newRoot'"
    using n(1) old(4) sib two others \<open>(v', BranchCapacity) \<in> A\<close>
    by (intro ready_link [OF _ _ _ _ _ _ oth lk]) (auto simp: subn)
  then show ?thesis
    using n(2) s1(1) s2 lk by (auto simp: leaf_input_def ConcatArrays4_def intro!: exI [of _ n])
qed

lemma saved_delete:
  assumes sv: "saved H r N A s" and N: "N = nodes_of H 0 es'" and es': "es' = update_entry k (replicate 8 0) es"
    and st: "stored H (nodes (smt_Db s)) (nodes_of H 0 es)"
    and old: "nonzero_nodes H (nodes_of H 0 es)" "distinct (map fst es)" "\<forall>j<L. 2 \<le> length (sub k j es)" "L \<le> 256"
    and here: "sub k L es = [(k, y)]" and A: "A = nodes_of H 0 es \<inter> N"
    and sib: "L < length siblings" "\<forall>j<L. siblings ! j = path_node H k es j"
  shows "\<exists>n s' siblings' newRoot' mode A'.
    insert_delete H D s (GetPath k) (int L - 1) (butlast (take L (GetPath k))) siblings newRoot =
      Inr (int n - 1, siblings', newRoot', mode, s') \<and>
    saved H r N A' s' \<and> ready H k es es' A' n siblings' newRoot'"
proof (cases L)
  case 0
  then have "es' = []" using here by (simp add: es' update_entry_def)
  moreover have "insert_delete H D s (GetPath k) (int L - 1) (butlast (take L (GetPath k))) siblings newRoot =
      Inr (int 0 - 1, siblings, NodeKey 0 0 0 0, ''deleteLast'', s)"
    using 0 by (simp add: insert_delete_def)
  ultimately show ?thesis using sv by (intro exI [of _ 0] exI conjI) (auto simp: ready_def)
next
  case (Suc l)
  have oth: "other k j es' = other k j es" for j by (simp add: es' other_update)
  have gone: "sub k (Suc l) es' = []"
    unfolding es' sub_update using here Suc by (simp add: update_entry_def)
  have lens: "\<forall>j\<le>l. 2 \<le> length (sub k j es)" "l < 256" using old(3,4) Suc by auto
  have len1: "1 \<le> length (other k l es)" using length_sub_Suc [of k l es] lens here Suc by fastforce
  then have ne: "other k l es \<noteq> []" by auto
  let ?o = "hash_of H (Suc l) (other k l es)" and ?u = "of_bool (\<not> path_bit k l) :: int"
  have onz: "?o \<noteq> NodeKey 0 0 0 0" using hash_of_other_nonzero [OF old(1,2) lens] ne by simp
  let ?sib = "siblings[l := path_node H k es' l]"
  have child: "set_child (siblings ! l) (GetPath k ! l) (NodeKey 0 0 0 0) = path_node H k es' l"
    using set_child_path [OF oth lens(2), of H] gone sib(2) Suc by simp
  have uniq: "IsUniqueSibling (path_node H k es' l) = Inr ?u"
    using onz gone by (simp add: IsUniqueSibling_path oth)
  have dk: "NodeKeyFromBigIntArray (take 4 (drop (of_bool (\<not> path_bit k l) * 4) (path_node H k es' l))) = Inr ?o"
    unfolding path_node_def branch_input_path oth by (cases "path_bit k l") (simp_all only: if_True if_False child_at simp_thms)
  have oN: "nodes_of H (Suc l) (other k l es) \<subseteq> nodes_of H 0 es" by (rule nodes_of_other [OF lens])
  have k0: "ok (smt_Db s)" using sv by (simp add: saved_state_def)
  show ?thesis
  proof (cases "2 \<le> length (other k l es)")
    case True
    obtain k' v' where "(k', v') \<in> set (other k l es)" using ne by (cases "other k l es") auto
    then have "other k l es = sub k' (Suc l) es" by (rule other_sub)
    then have l: "Suc l < 256" using sub_branch_depth [OF old(2), of "Suc l" k'] True lens(2) by simp
    have "nodes (smt_Db s) ?o = Some (node12 (branch_input H (Suc l) (other k l es)) BranchCapacity)"
      using storedD [OF st] oN hash_of_branch [OF True l] nodes_of_branch [OF True l] by auto
    then have run: "insert_delete H D s (GetPath k) (int L - 1) (butlast (take L (GetPath k))) siblings newRoot =
        Inr (int L - 1, ?sib[L := node12 (branch_input H (Suc l) (other k l es)) BranchCapacity], newRoot, ''deleteNotFound'', s)"
      using sib(1) uniq dk Get [OF k0] Suc child by (simp add: insert_delete_def Let_def IsFinalNode_node nat_add_distrib)
    have two: "2 \<le> length (sub k j es')" if j: "j \<le> l" for j
      using sub_mono [OF j, of k es'] length_sub_Suc [of k l es'] True by (simp add: oth)
    have "nodes_of H (Suc j) (other k j es') \<subseteq> A" if j: "j \<le> l" for j
      using nodes_of_other [of j k es' H] nodes_of_other [of j k es H] two lens j unfolding oth A N by auto
    then have "ready H k es es' A L (?sib[L := node12 (branch_input H (Suc l) (other k l es)) BranchCapacity]) newRoot"
      using sib two gone Suc old(4) by (auto simp: ready_def nth_list_update)
    then show ?thesis using run sv by blast
  next
    case False
    then obtain k' v' where one: "other k l es = [(k', v')]"
      using ne by (cases "other k l es"; cases "tl (other k l es)") auto
    have mem: "(leaf_input H (Suc l) k' v', LeafCapacity) \<in> nodes_of H 0 es" "(v', BranchCapacity) \<in> nodes_of H 0 es"
      using oN by (auto simp: one)
    have "(k', v') \<in> set (other k l es)" using one by simp
    then have ag: "agree k l k'" "path_bit k' l = (\<not> path_bit k l)" by (auto simp: other_def set_side sub_def)
    then have "take (Suc l) (GetPath k') = butlast (take L (GetPath k)) @ [of_bool (\<not> path_bit k l)]"
      using take_path_agree [OF ag(1)] lens(2) by (simp add: Suc take_Suc_conv_app_nth GetPath_nth)
    then have join: "JoinKey (butlast (take L (GetPath k)) @ [of_bool (\<not> path_bit k l)]) (RemoveKeyBits k' (Suc l)) = k'"
      using JoinKey_RemoveKeyBits [of "Suc l" k'] lens(2) by simp
    let ?n = "node12 (leaf_input H (Suc l) k' v') LeafCapacity"
    have get: "nodes (smt_Db s) ?o = Some ?n" using storedD [OF st mem(1)] by (simp add: one)
    have run: "insert_delete H D s (GetPath k) (int L - 1) (butlast (take L (GetPath k))) siblings newRoot =
        rbind (lift_loop (?sib[L := ?n]) ?u (int l)) (\<lambda>level.
          rbind (hashcalcAndSave H D s (ConcatArrays4 (RemoveKeyBits k' (nat (level + 1))) (H v' BranchCapacity)) LeafCapacity) (\<lambda>(oldLeafHash, s).
          rbind (tryInsertHashKey D s oldLeafHash k') (\<lambda>s.
          let (siblings, newRoot) = link (GetPath k) level oldLeafHash (?sib[L := ?n]) newRoot in
          Inr (level, siblings, newRoot, ''deleteFound'', s))))"
      using sib(1) uniq dk Get [OF k0] Suc child get join
      by (simp add: insert_delete_def Let_def IsFinalNode_node nat_add_distrib leaf_input_def Get_halves)
    show ?thesis
      using saved_delete_leaf [OF sv N old(1,2) lens oth gone one mem(2) A, of "?sib[L := ?n]" ?u newRoot "''deleteFound''"]
        sib Suc unfolding run by (auto simp: nth_list_update)
  qed
qed

end

section \<open>The insertion\<close>

lemma IsZero_ToUintArray:
  assumes "length v = 8" "None \<notin> set v"
  shows "NodeValue8_IsZero (Some v) \<longleftrightarrow> ToUintArray (Some v) = replicate 8 0"
proof -
  have len: "length (ToUintArray (Some v)) = 8" using assms(1) by (simp add: ToUintArray_def)
  have "list_all (\<lambda>v. case v of None \<Rightarrow> False | Some x \<Rightarrow> big_Uint64 x = 0) v \<longleftrightarrow>
      (\<forall>w\<in>set (ToUintArray (Some v)). w = 0)"
    using assms(2)
  proof (induction v)
    case (Cons a v)
    then show ?case by (cases a) (simp_all add: ToUintArray_def)
  qed (simp add: ToUintArray_def)
  also have "\<dots> \<longleftrightarrow> ToUintArray (Some v) = replicate 8 0"
    by (auto simp: len intro: replicate_eqI)
  finally show ?thesis by (simp add: NodeValue8_IsZero_def)
qed

lemma update_entry_leaf:
  "v \<noteq> replicate 8 0 \<Longrightarrow> update_entry k v [] = [(k, v)]"
  "v \<noteq> replicate 8 0 \<Longrightarrow> update_entry k v [(k, y)] = [(k, v)]"
  "v \<noteq> replicate 8 0 \<Longrightarrow> k' \<noteq> k \<Longrightarrow> update_entry k v [(k', y)] = [(k, v), (k', y)]"
  by (simp_all add: update_entry_def)

context node_db
begin

text \<open>Writing a value: the three modes give the hash of the new subtree at the level of the leaf.\<close>

lemma saved_write:
  assumes sv: "saved H r N A s" and N: "N = nodes_of H 0 es'" and es': "es' = update_entry k x es"
    and x: "x = ToUintArray (Some v)" "x \<noteq> replicate 8 0" "\<not> NodeValue8_IsZero (Some v)"
    and v: "length v = 8" "newValH = NodeKey 0 0 0 0 \<or> newValH = H x BranchCapacity"
    and old: "distinct (map fst es)" "\<forall>j<L. 2 \<le> length (sub k j es)" "L \<le> 256" "length (sub k L es) \<le> 1"
    and A: "A = nodes_of H 0 es \<inter> N"
    and sib: "L \<le> length siblings" "\<forall>j<L. siblings ! j = path_node H k es j"
  shows "\<exists>n s' siblings' newRoot' mode A'.
    insert_modes H D s k v newValH newRoot (take L (GetPath k)) siblings (snd (found_at H k es L)) =
      Inr (int n - 1, siblings', newRoot', mode, s') \<and>
    saved H r N A' s' \<and> ready H k es es' A' n siblings' newRoot'"
proof -
  have oth: "other k j es' = other k j es" for j by (simp add: es' other_update)
  have two: "2 \<le> length (sub k j es')" if j: "j < L" for j
    using length_update [OF distinct_sub [OF old(1)] x(2), of k j k] old(2) j unfolding es' sub_update by fastforce
  have subN: "nodes_of H L (sub k L es') \<subseteq> N" using nodes_of_sub [of L k es' H] two old(3) N by simp
  have oA: "nodes_of H (Suc j) (other k j es') \<subseteq> A" if j: "j < L" for j
    using nodes_of_other [of j k es' H] nodes_of_other [of j k es H] two old(2,3) j unfolding oth A N by auto
  have finish: "\<exists>n s'' siblings' newRoot' mode' A'.
      (case link (GetPath k) (int L - 1) (hash_of H L (sub k L es')) siblings newRoot of (siblings, newRoot) \<Rightarrow>
        Inr (int L - 1, siblings, newRoot, mode, s')) = Inr (int n - 1, siblings', newRoot', mode', s'') \<and>
      saved H r N A' s'' \<and> ready H k es es' A' n siblings' newRoot'"
    if s': "saved H r N (A \<union> nodes_of H L (sub k L es')) s'" for s' and mode :: string
  proof -
    obtain siblings' newRoot' where lk:
      "link (GetPath k) (int L - 1) (hash_of H L (sub k L es')) siblings newRoot = (siblings', newRoot')" by fastforce
    have "ready H k es es' (A \<union> nodes_of H L (sub k L es')) L siblings' newRoot'"
      using old(3) sib two oA by (intro ready_link [OF _ _ _ _ _ _ oth lk]) auto
    then show ?thesis using lk s' by auto
  qed
  consider "sub k L es = []" | y where "sub k L es = [(k, y)]" | k' y where "sub k L es = [(k', y)]" "k' \<noteq> k"
    using old(4) by (cases "sub k L es") auto
  then show ?thesis
  proof cases
    case 1
    then have e: "sub k L es' = [(k, x)]" unfolding es' sub_update using x(2) by (simp add: update_entry_leaf)
    obtain s' where s': "insert_notFound H D s k v newValH (int L - 1) = Inr (hash_of H L (sub k L es'), s')"
      "saved H r N (A \<union> nodes_of H L (sub k L es')) s'"
      using saved_notFound [OF sv x(1) subN [unfolded e] v] e by auto
    then show ?thesis using finish [OF s'(2)] 1 x(3) old(3) by (simp add: insert_modes_def found_at_def Let_def min_absorb2)
  next
    case (2 y)
    then have e: "sub k L es' = [(k, x)]" unfolding es' sub_update using x(2) by (simp add: update_entry_leaf)
    obtain s' where s': "insert_update H D s k v newValH (RemoveKeyBits k L) = Inr (hash_of H L (sub k L es'), s')"
      "saved H r N (A \<union> nodes_of H L (sub k L es')) s'"
      using saved_update [OF sv x(1) subN [unfolded e] v] e by auto
    then show ?thesis using finish [OF s'(2)] 2 x(3) old(3) by (simp add: insert_modes_def found_at_def Let_def min_absorb2)
  next
    case (3 k' y)
    then have e: "sub k L es' = [(k, x), (k', y)]" unfolding es' sub_update using x(2) by (simp add: update_entry_leaf)
    have "(k', y) \<in> set (sub k L es)" using 3 by simp
    then have ag: "agree k L k'" by (simp add: sub_def)
    have "(y, BranchCapacity) \<in> nodes_of H L (sub k L es)" using 3 by simp
    then have y0: "(y, BranchCapacity) \<in> nodes_of H 0 es" using nodes_of_sub [OF old(2,3), of H] by blast
    obtain M where M: "common_level (GetPath k) (GetPath k') L = M" "L \<le> M" "M < 256" "agree k M k'" "path_bit k' M \<noteq> path_bit k M"
      using common_level_spec [OF not_sym [OF 3(2)] ag old(3)] by blast
    have "(y, BranchCapacity) \<in> nodes_of H M [(k, x), (k', y)]" using two_split(2) [OF M(5,3), of H x y] by simp
    then have "(y, BranchCapacity) \<in> N" using two_nodes_mono [OF M(4) _ M(2), of H x y] M(3) subN e by auto
    then have yA: "(y, BranchCapacity) \<in> A" using y0 A by simp
    obtain s' where s': "insert_found H D s k v newValH (int L - 1) k' (H y BranchCapacity) = Inr (hash_of H L (sub k L es'), s')"
      "saved H r N (A \<union> nodes_of H L (sub k L es')) s'"
      using saved_found [OF sv x(1) subN [unfolded e] v not_sym [OF 3(2)] ag old(3) yA] e by auto
    then show ?thesis using finish [OF s'(2)] 3 x(3) old(3) by (simp add: insert_modes_def found_at_def Let_def min_absorb2)
  qed
qed

text \<open>Writing zeroes: the key is deleted, or nothing changes.\<close>

lemma saved_clear:
  assumes sv: "saved H r N A s" and N: "N = nodes_of H 0 es'" and es': "es' = update_entry k (replicate 8 0) es"
    and st: "stored H (nodes (smt_Db s)) (nodes_of H 0 es)" and z: "NodeValue8_IsZero (Some v)"
    and old: "nonzero_nodes H (nodes_of H 0 es)" "distinct (map fst es)" "\<forall>j<L. 2 \<le> length (sub k j es)" "L \<le> 256"
      "length (sub k L es) \<le> 1"
    and A: "A = nodes_of H 0 es \<inter> N"
    and sib: "siblings = map (path_node H k es) [0..<L] @ fst (found_at H k es L)"
    and root: "newRoot = hash_of H 0 es"
  shows "\<exists>n s' siblings' newRoot' mode A'.
    insert_modes H D s k v newValH newRoot (take L (GetPath k)) siblings (snd (found_at H k es L)) =
      Inr (int n - 1, siblings', newRoot', mode, s') \<and>
    saved H r N A' s' \<and> ready H k es es' A' n siblings' newRoot'"
proof (cases "k \<in> fst ` set es")
  case True
  then have "k \<in> fst ` set (sub k L es)" using sub_self by blast
  then obtain y where here: "sub k L es = [(k, y)]" using old(5) by (cases "sub k L es") auto
  have "\<exists>n s' siblings' newRoot' mode A'.
      insert_delete H D s (GetPath k) (int L - 1) (butlast (take L (GetPath k))) siblings newRoot =
        Inr (int n - 1, siblings', newRoot', mode, s') \<and>
      saved H r N A' s' \<and> ready H k es es' A' n siblings' newRoot'"
    by (rule saved_delete [OF sv N es' st old(1-4) here A]) (simp_all add: sib found_at_def here nth_append)
  then show ?thesis using here z old(4) by (simp add: insert_modes_def found_at_def Let_def min_absorb2)
next
  case False
  then have eq: "es' = es" by (simp add: es' update_absent)
  have "k \<notin> fst ` set (sub k L es)" using False sub_self by blast
  then have "insert_modes H D s k v newValH newRoot (take L (GetPath k)) siblings (snd (found_at H k es L)) =
      Inr (int L - 1, siblings, newRoot, ''zeroToZero'', s)"
    using old(4) z by (auto simp: insert_modes_def found_at_def Let_def min_absorb2 split: list.splits)
  moreover have "A = nodes_of H 0 es" by (simp add: A N eq)
  moreover have "ready H k es es (nodes_of H 0 es) L siblings newRoot"
    using old nodes_of_sub [OF old(3,4), of H] nodes_of_other [of _ k es H]
    by (auto simp: ready_def sib root nth_append)
  ultimately show ?thesis using sv eq by blast
qed

lemma insert_refines:
  assumes s: "\<not> noSaveOnInsert s" "ok (smt_Db s)" "stored H (nodes (smt_Db s)) (nodes_of H 0 es)"
    and old: "nonzero_nodes H (nodes_of H 0 es)" "distinct (map fst es)"
    and v: "length v = 8" "None \<notin> set v" "newValH = NodeKey 0 0 0 0 \<or> newValH = H (ToUintArray (Some v)) BranchCapacity"
    and new: "es' = update_entry k (ToUintArray (Some v)) es" "inj_on (\<lambda>(x, c). H x c) (nodes_of H 0 es')"
  shows "\<exists>mode s'. smt_insert H D s k v newValH (hash_of H 0 es) =
      Inr (\<lparr>NewRootScalar = hash_of H 0 es', Mode = mode\<rparr>, s') \<and>
    saved H (last_root (smt_Db s)) (nodes_of H 0 es') (nodes_of H 0 es') s'"
proof -
  let ?p = "GetPath k" and ?x = "ToUintArray (Some v)" and ?N = "nodes_of H 0 es'" and ?r = "last_root (smt_Db s)"
  let ?A = "nodes_of H 0 es \<inter> ?N"
  from search_loop_path [OF s(2,3) old, of 0 k "[]"] obtain L where
    L: "L \<le> 256" "\<forall>j<L. 2 \<le> length (sub k j es)" "length (sub k L es) \<le> 1" and
    search: "search_loop D (smt_Db s) ?p [] (hash_of H 0 es) [] =
      Inr (take L ?p, map (path_node H k es) [0..<L] @ fst (found_at H k es L), snd (found_at H k es L))" by auto
  let ?sib = "map (path_node H k es) [0..<L] @ fst (found_at H k es L)"
  have sv: "saved H ?r ?N ?A s" using s new(2) by (auto simp: saved_state_def intro: stored_subset)
  have "\<exists>n s' siblings' newRoot' mode A'.
      insert_modes H D s k v newValH (hash_of H 0 es) (take L ?p) ?sib (snd (found_at H k es L)) =
        Inr (int n - 1, siblings', newRoot', mode, s') \<and>
      saved H ?r ?N A' s' \<and> ready H k es es' A' n siblings' newRoot'"
  proof (cases "?x = replicate 8 0")
    case True
    then have es0: "es' = update_entry k (replicate 8 0) es" and z: "NodeValue8_IsZero (Some v)"
      using new(1) IsZero_ToUintArray [OF v(1,2)] by simp_all
    show ?thesis by (rule saved_clear [OF sv refl es0 s(3) z old L(2,1,3) refl refl refl])
  next
    case False
    then have z: "\<not> NodeValue8_IsZero (Some v)" using IsZero_ToUintArray [OF v(1,2)] by simp
    show ?thesis
      by (rule saved_write [OF sv refl new(1) refl False z v(1,3) old(2) L(2,1,3) refl]) (simp_all add: nth_append)
  qed
  then obtain n s1 sib1 root1 mode A1 where m:
    "insert_modes H D s k v newValH (hash_of H 0 es) (take L ?p) ?sib (snd (found_at H k es L)) =
      Inr (int n - 1, sib1, root1, mode, s1)" "saved H ?r ?N A1 s1" "ready H k es es' A1 n sib1 root1" by blast
  obtain s2 where s2: "updateDepth D s1 (length (take n sib1)) = Inr s2" "saved H ?r ?N A1 s2"
    using saved_updateDepth [OF m(2)] by blast
  have oth: "other k j es' = other k j es" for j by (simp add: new(1) other_update)
  obtain s3 where "climb_loop H D ?p n (take n sib1) root1 s2 = Inr (hash_of H 0 es', s3)" "saved H ?r ?N ?N s3"
    using saved_climb_ready [OF oth refl s2(2) m(3)] by blast
  then show ?thesis
    using search m(1) s2(1) by (simp add: smt_insert_def Let_def RemoveOver_def)
qed

end

section \<open>The tree as a map\<close>

text \<open>
  A tree holds a list of entries: it saves on insertion, its last root is the hash of the tree of
  the entries, and the database has all nodes of that tree.
\<close>

definition holds_state ::
  "('a \<Rightarrow> bool) \<Rightarrow> ('a \<Rightarrow> NodeKey \<rightharpoonup> NodeValue12) \<Rightarrow> ('a \<Rightarrow> int) \<Rightarrow> hash \<Rightarrow> 'a SMT \<Rightarrow> entry list \<Rightarrow> bool" where
  "holds_state ok nodes last_root H s es \<longleftrightarrow>
     \<not> noSaveOnInsert s \<and> ok (smt_Db s) \<and> distinct (map fst es) \<and>
     last_root (smt_Db s) = NodeKey_ToBigInt (hash_of H 0 es) \<and> stored H (nodes (smt_Db s)) (nodes_of H 0 es)"

definition collision_free :: "hash \<Rightarrow> entry list \<Rightarrow> bool" where
  "collision_free H es \<longleftrightarrow> inj_on (\<lambda>(x, c). H x c) (nodes_of H 0 es) \<and> nonzero_nodes H (nodes_of H 0 es)"

context node_db
begin

lemma insertSingle_refines:
  assumes s: "holds_state ok nodes last_root H s es" and old: "nonzero_nodes H (nodes_of H 0 es)"
    and v: "length v = 8" "None \<notin> set v" "newValH = NodeKey 0 0 0 0 \<or> newValH = H (ToUintArray (Some v)) BranchCapacity"
    and new: "es' = update_entry k (ToUintArray (Some v)) es" "inj_on (\<lambda>(x, c). H x c) (nodes_of H 0 es')"
  shows "\<exists>mode s'. insertSingle H D s k v newValH = Inr (\<lparr>NewRootScalar = hash_of H 0 es', Mode = mode\<rparr>, s') \<and>
    holds_state ok nodes last_root H s' es'"
proof -
  have s0: "\<not> noSaveOnInsert s" "ok (smt_Db s)" "distinct (map fst es)"
    "last_root (smt_Db s) = NodeKey_ToBigInt (hash_of H 0 es)" "stored H (nodes (smt_Db s)) (nodes_of H 0 es)"
    using s by (simp_all add: holds_state_def)
  have root: "getLastRoot D s = Inr (hash_of H 0 es)"
    using GetLastRoot [OF s0(2)] s0(4) by (simp add: getLastRoot_def ScalarToRoot_ToBigInt)
  obtain mode s1 where ins: "smt_insert H D s k v newValH (hash_of H 0 es) =
      Inr (\<lparr>NewRootScalar = hash_of H 0 es', Mode = mode\<rparr>, s1)"
    "saved H (last_root (smt_Db s)) (nodes_of H 0 es') (nodes_of H 0 es') s1"
    using insert_refines [OF s0(1,2,5) old s0(3) v new] by blast
  have k: "ok (smt_Db s1)" using ins(2) by (simp add: saved_state_def)
  obtain db where db: "DB_SetLastRoot D (smt_Db s1) (NodeKey_ToBigInt (hash_of H 0 es')) = Inr db" "ok db"
    "nodes db = nodes (smt_Db s1)" "last_root db = NodeKey_ToBigInt (hash_of H 0 es')"
    using SetLastRoot [OF k] by blast
  have "distinct (map fst es')" using distinct_update [OF s0(3)] by (simp add: new(1))
  then have "holds_state ok nodes last_root H (s1\<lparr>smt_Db := db\<rparr>) es'"
    using ins(2) db by (simp add: holds_state_def saved_state_def)
  then show ?thesis using root ins(1) db(1) by (simp add: insertSingle_def setLastRoot_def)
qed

end

abbreviation holds :: "hash \<Rightarrow> MemDb SMT \<Rightarrow> entry list \<Rightarrow> bool" where
  "holds \<equiv> holds_state MemDb_ok MemDb_nodes LastRoot"

lemma holds_empty: "holds H (NewSMT NewMemDb False) []"
  by (simp add: holds_state_def NewSMT_def NewMemDb_def MemDb_ok_def stored_def NodeKey_ToBigInt_def
      ArrayToScalar_def nk_list_def)

lemma SMT_Insert_holds:
  assumes "holds H s es" "collision_free H es" "length v = 8" "None \<notin> set v"
    and "es' = update_entry k (ToUintArray (Some v)) es" "collision_free H es'"
  shows "\<exists>mode s'. SMT_Insert H MemDb_DB s k v = Inr (\<lparr>NewRootScalar = hash_of H 0 es', Mode = mode\<rparr>, s') \<and> holds H s' es'"
  using memdb.insertSingle_refines [OF assms(1) _ assms(3,4), of "NodeKey 0 0 0 0" es' k] assms(2,5,6)
  by (simp add: SMT_Insert_def collision_free_def)

text \<open>
  C1. Insertion refines the update of a map: on a tree that holds the entries \<open>es\<close>, \<open>Insert\<close> with any
  key and value returns, and the tree then holds the entries with that key set to the value (or
  removed, when the value is zero); the root it reports is the hash of the tree of those entries.
  This covers every mode (update, both insertions, the three deletions, zero to zero). The
  hypothesis is that the hash has no collision and no zero on the nodes of the old and the new tree.
\<close>

theorem Insert_refines_map_update:
  assumes "holds H s es" "collision_free H es"
    and "collision_free H (update_entry k (ToUintArray (Some v)) es)" "length v = 8" "None \<notin> set v"
  shows "\<exists>mode s'. SMT_Insert H MemDb_DB s k v =
      Inr (\<lparr>NewRootScalar = hash_of H 0 (update_entry k (ToUintArray (Some v)) es), Mode = mode\<rparr>, s') \<and>
    holds H s' (update_entry k (ToUintArray (Some v)) es) \<and>
    map_of (update_entry k (ToUintArray (Some v)) es) =
      (map_of es)(k := if ToUintArray (Some v) = replicate 8 0 then None else Some (ToUintArray (Some v)))"
  using SMT_Insert_holds [OF assms(1,2,4,5) refl assms(3)] by (simp add: map_of_update)

definition toy_hash :: hash where
  "toy_hash x c = NodeKey (nk0 c + 1) (x ! 0) (x ! 5) 0"

definition toy_value :: "int \<Rightarrow> NodeValue8" where
  "toy_value n = Some n # replicate 7 (Some 0)"

lemma replicate_78: "replicate 7 x = [x, x, x, x, x, x, x]" "replicate 8 x = [x, x, x, x, x, x, x, x]"
  by (simp_all add: eval_nat_numeral)

lemma toy_update:
  "update_entry (NodeKey 0 0 0 0) (ToUintArray (Some (toy_value 5))) [] = [(NodeKey 0 0 0 0, [5, 0, 0, 0, 0, 0, 0, 0])]"
  "update_entry (NodeKey 1 0 0 0) (ToUintArray (Some (toy_value 7))) [(NodeKey 0 0 0 0, [5, 0, 0, 0, 0, 0, 0, 0])] =
    [(NodeKey 1 0 0 0, [7, 0, 0, 0, 0, 0, 0, 0]), (NodeKey 0 0 0 0, [5, 0, 0, 0, 0, 0, 0, 0])]"
  by (simp_all add: update_entry_def toy_value_def ToUintArray_def big_Uint64_def Let_def replicate_78)

lemma toy_collision_free:
  "collision_free toy_hash []"
  "collision_free toy_hash [(NodeKey 0 0 0 0, [5, 0, 0, 0, 0, 0, 0, 0])]"
  "collision_free toy_hash [(NodeKey 1 0 0 0, [7, 0, 0, 0, 0, 0, 0, 0]), (NodeKey 0 0 0 0, [5, 0, 0, 0, 0, 0, 0, 0])]"
  by (simp_all add: collision_free_def nonzero_nodes_def nodes_of_branch branch_input_def side_Cons path_bit_def
      leaf_input_def toy_hash_def nk_list_def LeafCapacity_def BranchCapacity_def)

theorem Insert_refines_map_update_witness:
  "\<exists>r1 s1 r2 s2. SMT_Insert toy_hash MemDb_DB (NewSMT NewMemDb False) (NodeKey 0 0 0 0) (toy_value 5) = Inr (r1, s1) \<and>
    SMT_Insert toy_hash MemDb_DB s1 (NodeKey 1 0 0 0) (toy_value 7) = Inr (r2, s2) \<and>
    holds toy_hash s2 [(NodeKey 1 0 0 0, [7, 0, 0, 0, 0, 0, 0, 0]), (NodeKey 0 0 0 0, [5, 0, 0, 0, 0, 0, 0, 0])]"
proof -
  have v: "length (toy_value n) = 8" "None \<notin> set (toy_value n)" for n by (simp_all add: toy_value_def)
  obtain mode s1 where s1: "SMT_Insert toy_hash MemDb_DB (NewSMT NewMemDb False) (NodeKey 0 0 0 0) (toy_value 5) =
      Inr (\<lparr>NewRootScalar = hash_of toy_hash 0 [(NodeKey 0 0 0 0, [5, 0, 0, 0, 0, 0, 0, 0])], Mode = mode\<rparr>, s1)"
    "holds toy_hash s1 [(NodeKey 0 0 0 0, [5, 0, 0, 0, 0, 0, 0, 0])]"
    using Insert_refines_map_update [OF holds_empty toy_collision_free(1) _ v, of "NodeKey 0 0 0 0" 5]
      toy_collision_free(2) unfolding toy_update by blast
  show ?thesis
    using Insert_refines_map_update [OF s1(2) toy_collision_free(2) _ v, of "NodeKey 1 0 0 0" 7]
      toy_collision_free(3) s1(1) unfolding toy_update by blast
qed

section \<open>The root depends on the contents only\<close>

text \<open>
  The states reached from the empty tree by insertions, with the map they hold. Every map on the
  way must be free of collisions; the tree of a map does not depend on the order of its entries.
\<close>

inductive smt_run :: "hash \<Rightarrow> MemDb SMT \<Rightarrow> (NodeKey \<rightharpoonup> uint64 list) \<Rightarrow> bool" for H where
  start: "smt_run H (NewSMT NewMemDb False) Map.empty"
| insert: "smt_run H s m \<Longrightarrow> length v = 8 \<Longrightarrow> None \<notin> set v \<Longrightarrow> x = ToUintArray (Some v) \<Longrightarrow>
    m' = m(k := if x = replicate 8 0 then None else Some x) \<Longrightarrow>
    (\<And>es. distinct (map fst es) \<Longrightarrow> map_of es = m' \<Longrightarrow> collision_free H es) \<Longrightarrow>
    SMT_Insert H MemDb_DB s k v = Inr (resp, s') \<Longrightarrow> smt_run H s' m'"

lemma map_of_eq_set: "distinct (map fst es) \<Longrightarrow> distinct (map fst es') \<Longrightarrow> map_of es = map_of es' \<Longrightarrow> set es = set es'"
  by (simp add: map_of_inject_set)

lemma same_tree:
  assumes "distinct (map fst es)" "distinct (map fst es')" "map_of es = map_of es'"
  shows "hash_of H d es = hash_of H d es'" "nodes_of H d es = nodes_of H d es'"
  using smt_tree_cong [OF map_of_eq_set [OF assms] assms(1,2)] by (simp_all add: hash_of_def nodes_of_def)

lemma collision_free_cong:
  "distinct (map fst es) \<Longrightarrow> distinct (map fst es') \<Longrightarrow> map_of es = map_of es' \<Longrightarrow>
   collision_free H es \<longleftrightarrow> collision_free H es'"
  using same_tree(2) [of es es' H 0] by (simp add: collision_free_def)

lemma smt_run_holds: "smt_run H s m \<Longrightarrow> \<exists>es. holds H s es \<and> map_of es = m \<and> collision_free H es"
proof (induction rule: smt_run.induct)
  case start
  show ?case using holds_empty by (intro exI [of _ "[]"]) (simp add: collision_free_def nonzero_nodes_def)
next
  case (insert s m v x m' k resp s')
  then obtain es where es: "holds H s es" "map_of es = m" "collision_free H es" by blast
  let ?es = "update_entry k x es"
  have "distinct (map fst es)" using es(1) by (simp add: holds_state_def)
  then have "distinct (map fst ?es)" by (rule distinct_update)
  moreover have m: "map_of ?es = m'" using es(2) insert by (simp add: map_of_update)
  ultimately have cf: "collision_free H ?es" using insert by blast
  have "\<exists>mode s'. SMT_Insert H MemDb_DB s k v = Inr (\<lparr>NewRootScalar = hash_of H 0 ?es, Mode = mode\<rparr>, s') \<and> holds H s' ?es"
    using insert cf by (intro SMT_Insert_holds [OF es(1,3)]) simp_all
  then show ?case using insert m cf by auto
qed

text \<open>
  C4. History independence: any two sequences of insertions, updates and deletions that start from
  the empty tree and lead to the same map from keys to values end with the same root.
\<close>

theorem root_depends_on_contents:
  assumes "smt_run H s m" "smt_run H s' m"
  shows "LastRoot (smt_Db s) = LastRoot (smt_Db s')"
proof -
  obtain es es' where "holds H s es" "map_of es = m" "holds H s' es'" "map_of es' = m"
    using smt_run_holds [OF assms(1)] smt_run_holds [OF assms(2)] by blast
  then show ?thesis using same_tree(1) [of es es' H 0] by (simp add: holds_state_def)
qed

text \<open>The step of a run, for the map of a list of entries.\<close>

lemma smt_run_insert:
  assumes "smt_run H s (map_of es)" "distinct (map fst es)" "length v = 8" "None \<notin> set v"
    "es' = update_entry k (ToUintArray (Some v)) es" "collision_free H es'"
  shows "\<exists>resp s'. SMT_Insert H MemDb_DB s k v = Inr (resp, s') \<and> smt_run H s' (map_of es')"
proof -
  obtain fs where fs: "holds H s fs" "map_of fs = map_of es" "collision_free H fs" using smt_run_holds [OF assms(1)] by blast
  have d: "distinct (map fst fs)" using fs(1) by (simp add: holds_state_def)
  let ?x = "ToUintArray (Some v)"
  have m: "map_of es' = (map_of es)(k := if ?x = replicate 8 0 then None else Some ?x)"
    "map_of (update_entry k ?x fs) = map_of es'" using fs(2) by (simp_all add: assms(5) map_of_update)
  have d': "distinct (map fst es')" using distinct_update [OF assms(2)] by (simp add: assms(5))
  have cf: "collision_free H gs" if "distinct (map fst gs)" "map_of gs = map_of es'" for gs
    using collision_free_cong [OF that(1) d' that(2)] assms(6) by simp
  obtain mode s' where s': "SMT_Insert H MemDb_DB s k v =
      Inr (\<lparr>NewRootScalar = hash_of H 0 (update_entry k ?x fs), Mode = mode\<rparr>, s')"
    using SMT_Insert_holds [OF fs(1,3) assms(3,4) refl, of k] cf [OF distinct_update [OF d] m(2)] by blast
  have "smt_run H s' (map_of es')"
    by (rule smt_run.insert [OF assms(1,3,4) refl m(1) cf s'])
  then show ?thesis using s' by blast
qed

lemma toy_update_swapped:
  "update_entry (NodeKey 1 0 0 0) (ToUintArray (Some (toy_value 7))) [] = [(NodeKey 1 0 0 0, [7, 0, 0, 0, 0, 0, 0, 0])]"
  "update_entry (NodeKey 0 0 0 0) (ToUintArray (Some (toy_value 5))) [(NodeKey 1 0 0 0, [7, 0, 0, 0, 0, 0, 0, 0])] =
    [(NodeKey 0 0 0 0, [5, 0, 0, 0, 0, 0, 0, 0]), (NodeKey 1 0 0 0, [7, 0, 0, 0, 0, 0, 0, 0])]"
  by (simp_all add: update_entry_def toy_value_def ToUintArray_def big_Uint64_def Let_def replicate_78)

lemma toy_collision_free_swapped:
  "collision_free toy_hash [(NodeKey 1 0 0 0, [7, 0, 0, 0, 0, 0, 0, 0])]"
  "collision_free toy_hash [(NodeKey 0 0 0 0, [5, 0, 0, 0, 0, 0, 0, 0]), (NodeKey 1 0 0 0, [7, 0, 0, 0, 0, 0, 0, 0])]"
  by (simp_all add: collision_free_def nonzero_nodes_def nodes_of_branch branch_input_def side_Cons path_bit_def
      leaf_input_def toy_hash_def nk_list_def LeafCapacity_def BranchCapacity_def)

lemma toy_runs:
  "\<exists>s. smt_run toy_hash s (map_of [(NodeKey 1 0 0 0, [7, 0, 0, 0, 0, 0, 0, 0]), (NodeKey 0 0 0 0, [5, 0, 0, 0, 0, 0, 0, 0])]) \<and>
    (\<exists>r1 s1 r2. SMT_Insert toy_hash MemDb_DB (NewSMT NewMemDb False) (NodeKey 0 0 0 0) (toy_value 5) = Inr (r1, s1) \<and>
      SMT_Insert toy_hash MemDb_DB s1 (NodeKey 1 0 0 0) (toy_value 7) = Inr (r2, s))" (is ?one)
  "\<exists>s. smt_run toy_hash s (map_of [(NodeKey 0 0 0 0, [5, 0, 0, 0, 0, 0, 0, 0]), (NodeKey 1 0 0 0, [7, 0, 0, 0, 0, 0, 0, 0])]) \<and>
    (\<exists>r1 s1 r2. SMT_Insert toy_hash MemDb_DB (NewSMT NewMemDb False) (NodeKey 1 0 0 0) (toy_value 7) = Inr (r1, s1) \<and>
      SMT_Insert toy_hash MemDb_DB s1 (NodeKey 0 0 0 0) (toy_value 5) = Inr (r2, s))" (is ?two)
proof -
  have v: "length (toy_value n) = 8" "None \<notin> set (toy_value n)" for n by (simp_all add: toy_value_def)
  have start: "smt_run toy_hash (NewSMT NewMemDb False) (map_of [])" using smt_run.start by simp
  note first = smt_run_insert [OF start _ v, simplified]
  obtain r1 s1 where s1: "SMT_Insert toy_hash MemDb_DB (NewSMT NewMemDb False) (NodeKey 0 0 0 0) (toy_value 5) = Inr (r1, s1)"
    "smt_run toy_hash s1 (map_of [(NodeKey 0 0 0 0, [5, 0, 0, 0, 0, 0, 0, 0])])"
    using first [OF toy_update(1) [symmetric] toy_collision_free(2)] by blast
  show ?one
    using smt_run_insert [OF s1(2) _ v toy_update(2) [symmetric] toy_collision_free(3)] s1(1) by auto
  obtain r1 s1 where s1: "SMT_Insert toy_hash MemDb_DB (NewSMT NewMemDb False) (NodeKey 1 0 0 0) (toy_value 7) = Inr (r1, s1)"
    "smt_run toy_hash s1 (map_of [(NodeKey 1 0 0 0, [7, 0, 0, 0, 0, 0, 0, 0])])"
    using first [OF toy_update_swapped(1) [symmetric] toy_collision_free_swapped(1)] by blast
  show ?two
    using smt_run_insert [OF s1(2) _ v toy_update_swapped(2) [symmetric] toy_collision_free_swapped(2)] s1(1) by auto
qed

theorem root_depends_on_contents_witness:
  "\<exists>r1 s1 r2 s2 r3 s3 r4 s4.
    SMT_Insert toy_hash MemDb_DB (NewSMT NewMemDb False) (NodeKey 0 0 0 0) (toy_value 5) = Inr (r1, s1) \<and>
    SMT_Insert toy_hash MemDb_DB s1 (NodeKey 1 0 0 0) (toy_value 7) = Inr (r2, s2) \<and>
    SMT_Insert toy_hash MemDb_DB (NewSMT NewMemDb False) (NodeKey 1 0 0 0) (toy_value 7) = Inr (r3, s3) \<and>
    SMT_Insert toy_hash MemDb_DB s3 (NodeKey 0 0 0 0) (toy_value 5) = Inr (r4, s4) \<and>
    LastRoot (smt_Db s2) = LastRoot (smt_Db s4)"
proof -
  have m: "map_of [(NodeKey 1 0 0 0, [7, 0, 0, 0, 0, 0, 0, 0]), (NodeKey 0 0 0 0, [5, 0, 0, 0, 0, 0, 0, 0])] =
      map_of [(NodeKey 0 0 0 0, [5, 0, 0, 0, 0, 0, 0, 0 :: uint64]), (NodeKey 1 0 0 0, [7, 0, 0, 0, 0, 0, 0, 0])]"
    by (simp add: fun_eq_iff)
  obtain s2 r1 s1 r2 where a: "smt_run toy_hash s2
      (map_of [(NodeKey 1 0 0 0, [7, 0, 0, 0, 0, 0, 0, 0]), (NodeKey 0 0 0 0, [5, 0, 0, 0, 0, 0, 0, 0])])"
    "SMT_Insert toy_hash MemDb_DB (NewSMT NewMemDb False) (NodeKey 0 0 0 0) (toy_value 5) = Inr (r1, s1)"
    "SMT_Insert toy_hash MemDb_DB s1 (NodeKey 1 0 0 0) (toy_value 7) = Inr (r2, s2)" using toy_runs(1) by blast
  obtain s4 r3 s3 r4 where b: "smt_run toy_hash s4
      (map_of [(NodeKey 0 0 0 0, [5, 0, 0, 0, 0, 0, 0, 0]), (NodeKey 1 0 0 0, [7, 0, 0, 0, 0, 0, 0, 0])])"
    "SMT_Insert toy_hash MemDb_DB (NewSMT NewMemDb False) (NodeKey 1 0 0 0) (toy_value 7) = Inr (r3, s3)"
    "SMT_Insert toy_hash MemDb_DB s3 (NodeKey 0 0 0 0) (toy_value 5) = Inr (r4, s4)" using toy_runs(2) by blast
  have "LastRoot (smt_Db s2) = LastRoot (smt_Db s4)"
    by (rule root_depends_on_contents [OF a(1) b(1) [folded m]])
  then show ?thesis using a(2,3) b(2,3) by blast
qed

end
