(* ===== verification/SmtRead.thy ===== *)
theory SmtRead
  imports SmtInsert
begin

text \<open>
  Reading the sparse Merkle tree: the depth-first traversal of \<open>smt/pkg/smt/smt.go\<close>, the lookup of a
  value by its path in \<open>smt_state_reader.go\<close> and \<open>GetNodeAtPath\<close> of \<open>smt_utils.go\<close>. The traversal is a
  loop over a stack of nodes; on the tree of a list of entries it ends and is the pre-order visit
  of that tree. The action of a traversal is a function on a state, for the variables the closure
  writes. The bytes of a prefix are bits and are kept as numbers; the context of a traversal is
  one that is never cancelled.
\<close>

section \<open>The traversal\<close>

type_synonym 'st action = "nat list \<Rightarrow> NodeKey \<Rightarrow> NodeValue12 \<Rightarrow> 'st \<Rightarrow> (bool \<times> 'st) result"

text \<open>The children of a node are pushed right to left, so the left one is on top of the stack.\<close>

definition child_entry :: "NodeValue12 \<Rightarrow> nat list \<Rightarrow> nat \<Rightarrow> (int \<times> nat list) list result" where
  "child_entry nodeValue prefix i =
     rbind (NodeKeyFromBigIntArray (take 4 (drop (i * 4) nodeValue))) (\<lambda>child.
     let childBigInt = NodeKey_ToBigInt child in
     Inr (if childBigInt \<noteq> 0 then [(childBigInt, prefix @ [i])] else []))"

definition push_children ::
  "NodeValue12 \<Rightarrow> nat list \<Rightarrow> (int \<times> nat list) list \<Rightarrow> (int \<times> nat list) list result" where
  "push_children nodeValue prefix stack =
     rbind (child_entry nodeValue prefix 1) (\<lambda>right.
     rbind (child_entry nodeValue prefix 0) (\<lambda>left.
     Inr (left @ right @ stack)))"

text \<open>One node: the action and the stack that is left.\<close>

definition traverse_node ::
  "'a DB \<Rightarrow> 'a \<Rightarrow> 'st action \<Rightarrow> int \<Rightarrow> nat list \<Rightarrow> (int \<times> nat list) list \<Rightarrow> 'st \<Rightarrow>
   ((int \<times> nat list) list \<times> 'st) result" where
  "traverse_node D db action node prefix stack st =
     (let ky = ScalarToRoot node in
      rbind (DB_Get D db ky) (\<lambda>nodeValue.
      rbind (action prefix ky nodeValue st) (\<lambda>(shouldContinue, st).
      if IsFinalNode nodeValue \<or> \<not> shouldContinue then Inr (stack, st)
      else rbind (push_children nodeValue prefix stack) (\<lambda>stack. Inr (stack, st)))))"

partial_function (option) traverse_loop ::
  "'a DB \<Rightarrow> 'a \<Rightarrow> 'st action \<Rightarrow> (int \<times> nat list) list \<Rightarrow> 'st \<Rightarrow> 'st result option" where
  "traverse_loop D db action stack st =
     (case stack of
        [] \<Rightarrow> Some (Inr st)
      | e # es \<Rightarrow>
          (case traverse_node D db action (fst e) (snd e) es st of
             Inl err \<Rightarrow> Some (Inl err)
           | Inr r \<Rightarrow> traverse_loop D db action (fst r) (snd r)))"

definition traverse ::
  "'a DB \<Rightarrow> 'a \<Rightarrow> int \<Rightarrow> 'st action \<Rightarrow> nat list \<Rightarrow> 'st \<Rightarrow> 'st result option" where
  "traverse D db node action prefix st =
     (if node = 0 then Some (Inr st) else traverse_loop D db action [(node, prefix)] st)"

definition Traverse :: "'a DB \<Rightarrow> 'a \<Rightarrow> int \<Rightarrow> 'st action \<Rightarrow> 'st \<Rightarrow> 'st result option" where
  "Traverse D db node action st = traverse D db node action [] st"

section \<open>Reading a value\<close>

definition HasPrefix :: "nat list \<Rightarrow> nat list \<Rightarrow> bool" where
  "HasPrefix s prefix \<longleftrightarrow> length prefix \<le> length s \<and> take (length prefix) s = prefix"

text \<open>The value under a hash as bytes: the limbs of 32 bits joined, without leading zeroes.\<close>

definition value_bytes :: "'a DB \<Rightarrow> 'a \<Rightarrow> NodeKey \<Rightarrow> byte list result" where
  "value_bytes D db valHash =
     rbind (DB_Get D db valHash) (\<lambda>v.
     rbind (BigIntArrayFromNodeValue8 (Some (GetNodeValue8 v))) (\<lambda>arr.
     rbind (ArrayBigToScalar arr) (\<lambda>x. Inr (big_Bytes (nat \<bar>x\<bar>)))))"

definition getValue_action :: "'a DB \<Rightarrow> 'a \<Rightarrow> nat list \<Rightarrow> byte list action" where
  "getValue_action D db keyPathBytes prefix ky v val =
     (if \<not> HasPrefix keyPathBytes prefix then Inr (False, val)
      else if IsFinalNode v then
        rbind (Get4to8 v) (\<lambda>valHash.
        rbind (value_bytes D db valHash) (\<lambda>vInBytes. Inr (False, vInBytes)))
      else Inr (True, val))"

definition getValueInBytes :: "'a DB \<Rightarrow> 'a SMT \<Rightarrow> NodeKey \<Rightarrow> byte list result option" where
  "getValueInBytes D s nodeKey =
     (case DB_GetLastRoot D (smt_Db s) of
        Inl e \<Rightarrow> Some (Inl e)
      | Inr root \<Rightarrow> Traverse D (smt_Db s) root (getValue_action D (smt_Db s) (GetPath nodeKey)) [])"

section \<open>The node at a path\<close>

definition ErrEmptySearchPath :: error where "ErrEmptySearchPath = Err ''search path is empty''"

fun nodeAtPath_loop :: "'a DB \<Rightarrow> 'a \<Rightarrow> nat list \<Rightarrow> NodeKey \<Rightarrow> NodeValue12 \<Rightarrow> NodeValue12 option result" where
  "nodeAtPath_loop D db [] oldRoot sl = Inr (Some sl)"
| "nodeAtPath_loop D db (pathByte # path) oldRoot _ =
     rbind (DB_Get D db oldRoot) (\<lambda>sl.
     if IsFinalNode sl then
       rbind (NodeKeyFromBigIntArray (take 4 sl)) (\<lambda>foundRKey.
       if path \<noteq> [] \<or> GetPath foundRKey ! 0 \<noteq> pathByte then Inr None else Inr (Some sl))
     else
       (if pathByte * 4 + 4 > 12 then Inl (Panic ''slice bounds out of range'') else
        rbind (NodeKeyFromBigIntArray (take 4 (drop (pathByte * 4) sl))) (\<lambda>oldRoot.
        if NodeKey_IsZero oldRoot then Inr None else nodeAtPath_loop D db path oldRoot sl)))"

definition GetNodeAtPath :: "'a DB \<Rightarrow> 'a SMT \<Rightarrow> nat list \<Rightarrow> NodeValue12 option result" where
  "GetNodeAtPath D s path =
     (if path = [] then Inl ErrEmptySearchPath
      else case getLastRoot D s of
             Inl (Err e) \<Rightarrow> Inl (Err (''getLastRoot: '' @ e))
           | Inl (Panic e) \<Rightarrow> Inl (Panic e)
           | Inr oldRoot \<Rightarrow> nodeAtPath_loop D (smt_Db s) path oldRoot (replicate 12 None))"

section \<open>The traversal is the visit of the tree\<close>

primrec visit :: "hash \<Rightarrow> 'st action \<Rightarrow> tree \<Rightarrow> nat \<Rightarrow> nat list \<Rightarrow> 'st \<Rightarrow> 'st result" where
  "visit H action Empty d prefix st = Inr st"
| "visit H action (Leaf k v) d prefix st =
     rbind (action prefix (root_hash H (Leaf k v) d) (node12 (leaf_input H d k v) LeafCapacity) st) (\<lambda>(_, st). Inr st)"
| "visit H action (Branch l r) d prefix st =
     rbind (action prefix (root_hash H (Branch l r) d)
        (node12 (nk_list (root_hash H l (Suc d)) @ nk_list (root_hash H r (Suc d))) BranchCapacity) st) (\<lambda>(cont, st).
     if cont then rbind (visit H action l (Suc d) (prefix @ [0]) st) (visit H action r (Suc d) (prefix @ [1]))
     else Inr st)"

lemma root_hash_zero:
  "nonzero_nodes H (set (tree_nodes H t d)) \<Longrightarrow> root_hash H t d = NodeKey 0 0 0 0 \<longleftrightarrow> t = Empty"
  by (cases t) (auto simp: nonzero_nodes_def)

lemma ToBigInt_zero: "NodeKey_ToBigInt k = 0 \<longleftrightarrow> k = NodeKey 0 0 0 0"
proof -
  have "NodeKey_ToBigInt (NodeKey 0 0 0 0) = 0" by (simp add: NodeKey_ToBigInt_def ArrayToScalar_def nk_list_def)
  then show ?thesis by (metis ToBigInt_inject)
qed

text \<open>The stack entry of a subtree, which an empty subtree does not have.\<close>

definition tree_entry :: "hash \<Rightarrow> tree \<Rightarrow> nat \<Rightarrow> nat list \<Rightarrow> (int \<times> nat list) list" where
  "tree_entry H t d prefix = (if t = Empty then [] else [(NodeKey_ToBigInt (root_hash H t d), prefix)])"

lemma push_children_tree:
  assumes "nonzero_nodes H (set (tree_nodes H l (Suc d)))" "nonzero_nodes H (set (tree_nodes H r (Suc d)))"
  shows "push_children (node12 (nk_list (root_hash H l (Suc d)) @ nk_list (root_hash H r (Suc d))) c) prefix stack =
    Inr (tree_entry H l (Suc d) (prefix @ [0]) @ tree_entry H r (Suc d) (prefix @ [1]) @ stack)"
  using root_hash_zero [OF assms(1)] root_hash_zero [OF assms(2)]
  by (simp add: push_children_def child_entry_def node_simps NodeKeyFromBigIntArray_uints ToBigInt_zero tree_entry_def)

context node_db
begin

lemma traverse_loop_tree:
  assumes "ok db"
  shows "stored H (nodes db) (set (tree_nodes H t d)) \<Longrightarrow> nonzero_nodes H (set (tree_nodes H t d)) \<Longrightarrow>
    traverse_loop D db action (tree_entry H t d prefix @ stack) st =
      (case visit H action t d prefix st of Inl e \<Rightarrow> Some (Inl e) | Inr st \<Rightarrow> traverse_loop D db action stack st)"
proof (induction t arbitrary: d prefix stack st)
  case Empty
  then show ?case by (simp add: tree_entry_def)
next
  case (Leaf k v)
  let ?h = "H (leaf_input H d k v) LeafCapacity" and ?n = "node12 (leaf_input H d k v) LeafCapacity"
  have "DB_Get D db ?h = Inr ?n" using Get [OF assms] Leaf by (simp add: stored_def)
  then have "traverse_node D db action (NodeKey_ToBigInt ?h) prefix stack st =
      rbind (action prefix ?h ?n st) (\<lambda>(_, st). Inr (stack, st))"
    by (simp add: traverse_node_def ScalarToRoot_ToBigInt IsFinalNode_node)
  then show ?case
    by (subst traverse_loop.simps) (auto simp: tree_entry_def rbind_def split: sum.splits)
next
  case (Branch l r)
  let ?x = "nk_list (root_hash H l (Suc d)) @ nk_list (root_hash H r (Suc d))"
  let ?h = "H ?x BranchCapacity" and ?n = "node12 ?x BranchCapacity"
  have st: "stored H (nodes db) (set (tree_nodes H l (Suc d)))" "stored H (nodes db) (set (tree_nodes H r (Suc d)))"
    and nz: "nonzero_nodes H (set (tree_nodes H l (Suc d)))" "nonzero_nodes H (set (tree_nodes H r (Suc d)))"
    using Branch.prems by (auto simp: stored_def nonzero_nodes_def)
  have "DB_Get D db ?h = Inr ?n" using Get [OF assms] Branch.prems by (simp add: stored_def)
  then have "traverse_node D db action (NodeKey_ToBigInt ?h) prefix stack st =
      rbind (action prefix ?h ?n st) (\<lambda>(cont, st).
        Inr (if cont then tree_entry H l (Suc d) (prefix @ [0]) @ tree_entry H r (Suc d) (prefix @ [1]) @ stack else stack, st))"
    by (simp add: traverse_node_def ScalarToRoot_ToBigInt IsFinalNode_node push_children_tree [OF nz] rbind_def
        split: sum.splits)
  then show ?case
    using Branch.IH(1) [OF st(1) nz(1)] Branch.IH(2) [OF st(2) nz(2)]
    by (subst traverse_loop.simps)
      (auto simp: tree_entry_def [of H "Branch l r"] rbind_def split: sum.splits)
qed

lemma Traverse_tree:
  assumes "ok db" "stored H (nodes db) (nodes_of H 0 es)" "nonzero_nodes H (nodes_of H 0 es)"
  shows "Traverse D db (NodeKey_ToBigInt (hash_of H 0 es)) action st = Some (visit H action (smt_tree 0 es) 0 [] st)"
proof -
  have z: "root_hash H (smt_tree 0 es) 0 = NodeKey 0 0 0 0 \<longleftrightarrow> smt_tree 0 es = Empty"
    using assms(3) by (intro root_hash_zero) (simp add: nodes_of_def)
  have "traverse_loop D db action (tree_entry H (smt_tree 0 es) 0 [] @ []) st =
      Some (visit H action (smt_tree 0 es) 0 [] st)"
    using traverse_loop_tree [OF assms(1), of H "smt_tree 0 es" 0 action "[]" "[]" st] assms(2,3)
    by (simp add: nodes_of_def traverse_loop.simps split: sum.splits)
  then show ?thesis
    using z by (auto simp: Traverse_def traverse_def hash_of_def ToBigInt_zero tree_entry_def traverse_loop.simps split: if_splits)
qed

end

section \<open>The leaf at the end of a path\<close>

primrec tree_leaf :: "tree \<Rightarrow> nat \<Rightarrow> NodeKey \<Rightarrow> entry option" where
  "tree_leaf Empty d k = None"
| "tree_leaf (Leaf k' v') d k = Some (k', v')"
| "tree_leaf (Branch l r) d k = (if path_bit k d then tree_leaf r (Suc d) k else tree_leaf l (Suc d) k)"

primrec height :: "tree \<Rightarrow> nat" where
  "height Empty = 0"
| "height (Leaf k v) = 0"
| "height (Branch l r) = Suc (max (height l) (height r))"

lemma height_smt_tree: "d \<le> 256 \<Longrightarrow> d + height (smt_tree d es) \<le> 256"
proof (induction d es rule: smt_tree.induct)
  case (1 d es)
  consider "es = []" | e where "es = [e]" | "2 \<le> length es" by (cases es; cases "tl es") auto
  then show ?case
  proof cases
    case 3
    show ?thesis
    proof (cases "d < 256")
      case True
      have "Suc d + height (smt_tree (Suc d) (side d b es)) \<le> 256" for b
        using 1 3 True by (cases b; cases es; cases "tl es") auto
      from this [of False] this [of True] show ?thesis by (simp add: smt_tree_branch [OF 3 True])
    next
      case False
      then have "smt_tree d es = Empty" using 3 by (subst smt_tree.simps) (cases es; auto)
      then show ?thesis using 1 by simp
    qed
  qed (use 1 in auto)
qed

lemma tree_leaf_sub:
  assumes "distinct (map fst es)" "(k, v) \<in> set es"
  shows "i \<le> 256 \<Longrightarrow> tree_leaf (smt_tree i (sub k i es)) i k = Some (k, v)"
proof (induction "256 - i" arbitrary: i rule: less_induct)
  case less
  have mem: "(k, v) \<in> set (sub k i es)" using assms(2) by (simp add: sub_def)
  show ?case
  proof (cases "2 \<le> length (sub k i es)")
    case True
    then have i: "i < 256" using sub_branch_depth [OF assms(1) less.prems] by blast
    have "tree_leaf (smt_tree (Suc i) (sub k (Suc i) es)) (Suc i) k = Some (k, v)"
      using i by (intro less.hyps) simp_all
    then show ?thesis unfolding smt_tree_branch [OF True i] by (cases "path_bit k i") (simp_all add: sub_Suc)
  next
    case False
    then have "sub k i es = [(k, v)]" using mem by (cases "sub k i es"; cases "tl (sub k i es)") auto
    then show ?thesis by simp
  qed
qed

lemma tree_leaf_mem: "tree_leaf (smt_tree d es) d k = Some e \<Longrightarrow> e \<in> set es"
proof (induction d es rule: smt_tree.induct)
  case (1 d es)
  consider "es = []" | x where "es = [x]" | "2 \<le> length es" by (cases es; cases "tl es") auto
  then show ?case
  proof cases
    case 3
    then have ne: "es \<noteq> []" "tl es \<noteq> []" by (cases es; auto)+
    have d: "d < 256"
    proof (rule ccontr)
      assume "\<not> d < 256"
      then have "smt_tree d es = Empty" using ne by (subst smt_tree.simps) simp
      then show False using 1(3) by simp
    qed
    show ?thesis
      using 1(1,2) [OF ne d] 1(3) unfolding smt_tree_branch [OF 3 d] by (auto simp: set_side split: if_splits)
  qed (use 1(3) in auto)
qed

section \<open>Reading returns the value at the end of the path\<close>

definition limb_value :: "uint64 list \<Rightarrow> int" where
  "limb_value v = foldr (\<lambda>w a. uint w + 2 ^ 32 * a) v 0"

lemma limb_value_nonneg: "0 \<le> limb_value v"
  by (induction v) (simp_all add: limb_value_def)

lemma ArrayBigToScalar_uints: "ArrayBigToScalar (map (\<lambda>w. Some (uint w)) v) = Inr (limb_value v)"
proof (induction v)
  case (Cons w v)
  then show ?case by (simp add: ArrayBigToScalar_Cons limb_value_def)
qed (simp add: ArrayBigToScalar_def limb_value_def)

lemma HasPrefix_take [simp]: "i \<le> 256 \<Longrightarrow> HasPrefix (GetPath k) (take i (GetPath k))"
  by (simp add: HasPrefix_def min_absorb2)

lemma HasPrefix_snoc:
  "i < 256 \<Longrightarrow> HasPrefix (GetPath k) (take i (GetPath k) @ [b]) \<longleftrightarrow> b = of_bool (path_bit k i)"
  by (auto simp: HasPrefix_def min_absorb2 take_Suc_conv_app_nth GetPath_nth)

lemma take_Suc_path: "i < 256 \<Longrightarrow> take (Suc i) (GetPath k) = take i (GetPath k) @ [of_bool (path_bit k i)]"
  by (simp add: take_Suc_conv_app_nth GetPath_nth)

context node_db
begin

lemma value_bytes_stored:
  assumes "ok db" "nodes db (H v BranchCapacity) = Some (node12 v BranchCapacity)" "length v = 8"
  shows "value_bytes D db (H v BranchCapacity) = Inr (big_Bytes (nat (limb_value v)))"
  using Get [OF assms(1)] assms(2,3) limb_value_nonneg [of v]
  by (simp add: value_bytes_def GetNodeValue8_def node_simps BigIntArrayFromNodeValue8_def copy_array_def
      ArrayBigToScalar_uints ConcatArrays8AndCapacityByPointers_def)

lemma visit_off_path:
  "\<not> HasPrefix p prefix \<Longrightarrow> visit H (getValue_action D db p) t d prefix val = Inr val"
  by (cases t) (simp_all add: getValue_action_def)

lemma getValue_visit:
  assumes "ok db"
  shows "d + height t \<le> 256 \<Longrightarrow> stored H (nodes db) (set (tree_nodes H t d)) \<Longrightarrow>
    (\<And>k' v'. tree_leaf t d k = Some (k', v') \<Longrightarrow> length v' = 8) \<Longrightarrow>
    visit H (getValue_action D db (GetPath k)) t d (take d (GetPath k)) val =
      Inr (case tree_leaf t d k of None \<Rightarrow> val | Some (k', v') \<Rightarrow> big_Bytes (nat (limb_value v')))"
proof (induction t arbitrary: d)
  case (Leaf k' v')
  then have "value_bytes D db (H v' BranchCapacity) = Inr (big_Bytes (nat (limb_value v')))"
    by (intro value_bytes_stored [OF assms]) (simp_all add: stored_def)
  then show ?case using Leaf by (simp add: getValue_action_def IsFinalNode_node) (simp add: leaf_input_def Get_halves)
next
  case (Branch l r)
  let ?a = "getValue_action D db (GetPath k)" and ?p = "take d (GetPath k)"
  have d: "d < 256" using Branch.prems(1) by simp
  have st: "stored H (nodes db) (set (tree_nodes H l (Suc d)))" "stored H (nodes db) (set (tree_nodes H r (Suc d)))"
    using Branch.prems(2) by (auto simp: stored_def)
  have "visit H ?a (Branch l r) d ?p val = rbind (visit H ?a l (Suc d) (?p @ [0]) val) (visit H ?a r (Suc d) (?p @ [1]))"
    using d by (simp add: getValue_action_def [of D db "GetPath k" ?p] IsFinalNode_node)
  moreover have "visit H ?a r (Suc d) (?p @ [1]) val' = Inr val'" if "\<not> path_bit k d" for val'
    using that d by (intro visit_off_path) (simp add: HasPrefix_snoc)
  moreover have "visit H ?a l (Suc d) (?p @ [0]) val = Inr val" if "path_bit k d"
    using that d by (intro visit_off_path) (simp add: HasPrefix_snoc)
  ultimately show ?case
    using Branch.IH(1) [OF _ st(1)] Branch.IH(2) [OF _ st(2)] Branch.prems(1,3) take_Suc_path [OF d, of k]
    by (cases "path_bit k d") simp_all
qed simp

lemma getValueInBytes_leaf:
  assumes "holds_state ok nodes last_root H s es" "nonzero_nodes H (nodes_of H 0 es)" "\<forall>e\<in>set es. length (snd e) = 8"
  shows "getValueInBytes D s k = Some (Inr (case tree_leaf (smt_tree 0 es) 0 k of
    None \<Rightarrow> [] | Some (k', v') \<Rightarrow> big_Bytes (nat (limb_value v'))))"
proof -
  have s: "ok (smt_Db s)" "last_root (smt_Db s) = NodeKey_ToBigInt (hash_of H 0 es)"
    "stored H (nodes (smt_Db s)) (nodes_of H 0 es)" using assms(1) by (simp_all add: holds_state_def)
  have "length v' = 8" if "tree_leaf (smt_tree 0 es) 0 k = Some (k', v')" for k' v'
    using tree_leaf_mem [OF that] assms(3) by auto
  then show ?thesis
    using getValue_visit [OF s(1), of 0 "smt_tree 0 es" H k "[]"] height_smt_tree [of 0 es] s(3)
      GetLastRoot [OF s(1)] Traverse_tree [OF s(1,3) assms(2), of "getValue_action D (smt_Db s) (GetPath k)" "[]"]
    by (simp add: getValueInBytes_def s(2) nodes_of_def)
qed

end

section \<open>Properties\<close>

text \<open>
  C32. The traversal ends: on a tree that holds entries the stack loop of \<open>traverse\<close> returns for every
  action, and its effect is the pre-order visit of the tree of the entries, cut below the nodes
  where the action says so and stopped by the first error.
\<close>

theorem Traverse_is_preorder_visit:
  assumes "holds H s es" "nonzero_nodes H (nodes_of H 0 es)"
  shows "Traverse MemDb_DB (smt_Db s) (LastRoot (smt_Db s)) action st = Some (visit H action (smt_tree 0 es) 0 [] st)"
  using memdb.Traverse_tree [of "smt_Db s" H es action st] assms by (simp add: holds_state_def)

lemma toy_state:
  "\<exists>s. holds toy_hash s [(NodeKey 1 0 0 0, [7, 0, 0, 0, 0, 0, 0, 0]), (NodeKey 0 0 0 0, [5, 0, 0, 0, 0, 0, 0, 0])]"
  "\<exists>s. holds toy_hash s [(NodeKey 0 0 0 0, [5, 0, 0, 0, 0, 0, 0, 0])]"
proof -
  have v: "length (toy_value n) = 8" "None \<notin> set (toy_value n)" for n by (simp_all add: toy_value_def)
  show one: "\<exists>s. holds toy_hash s [(NodeKey 0 0 0 0, [5, 0, 0, 0, 0, 0, 0, 0])]"
    using SMT_Insert_holds [OF holds_empty toy_collision_free(1) v toy_update(1) [symmetric] toy_collision_free(2)] by blast
  then show "\<exists>s. holds toy_hash s [(NodeKey 1 0 0 0, [7, 0, 0, 0, 0, 0, 0, 0]), (NodeKey 0 0 0 0, [5, 0, 0, 0, 0, 0, 0, 0])]"
    using SMT_Insert_holds [OF _ toy_collision_free(2) v toy_update(2) [symmetric] toy_collision_free(3)] by blast
qed

lemma toy_tree:
  "smt_tree 0 [(NodeKey 1 0 0 0, [7, 0, 0, 0, 0, 0, 0, 0]), (NodeKey 0 0 0 0, [5, 0, 0, 0, 0, 0, 0, 0])] =
    Branch (Leaf (NodeKey 0 0 0 0) [5, 0, 0, 0, 0, 0, 0, 0]) (Leaf (NodeKey 1 0 0 0) [7, 0, 0, 0, 0, 0, 0, 0])"
  by (simp add: smt_tree_branch side_Cons path_bit_def nk_list_def)

theorem Traverse_is_preorder_visit_witness:
  "\<exists>s :: MemDb SMT. Traverse MemDb_DB (smt_Db s) (LastRoot (smt_Db s)) (\<lambda>prefix _ _ ps. Inr (True, ps @ [prefix])) [] =
    Some (Inr [[], [0], [1]])"
proof -
  obtain s where "holds toy_hash s [(NodeKey 1 0 0 0, [7, 0, 0, 0, 0, 0, 0, 0]), (NodeKey 0 0 0 0, [5, 0, 0, 0, 0, 0, 0, 0])]"
    using toy_state(1) by blast
  from Traverse_is_preorder_visit [OF this, of "\<lambda>prefix _ _ ps. Inr (True, ps @ [prefix])" "[]"] toy_collision_free(3)
  show ?thesis by (auto simp: collision_free_def toy_tree)
qed

lemma ScalarToArrayBig_uints: "ScalarToArrayBig n = map (\<lambda>w. Some (uint w)) (ToUintArray (Some (ScalarToArrayBig n)))"
proof -
  have "uint (big_Uint64 y) = y" if "0 \<le> y" "y < 2 ^ 32" for y
    using that by (simp add: big_Uint64_nonneg uint_word_of_int_eq take_bit_int_eq_self)
  then have "uint (big_Uint64 (drop_bit (32 * i) n AND mask32)) = drop_bit (32 * i) n AND mask32" for i
    unfolding mask32_mod by simp
  then show ?thesis by (simp add: ScalarToArrayBig_def ToUintArray_def o_def)
qed

lemma limb_value_ScalarToArrayBig: "limb_value (ToUintArray (Some (ScalarToArrayBig n))) = n mod 2 ^ 256"
proof -
  have "ArrayBigToScalar (ScalarToArrayBig n) = Inr (n mod 2 ^ (32 * 8))"
    unfolding ScalarToArrayBig_def by (rule ArrayBigToScalar_limbs)
  moreover have "ArrayBigToScalar (ScalarToArrayBig n) = Inr (limb_value (ToUintArray (Some (ScalarToArrayBig n))))"
    using ArrayBigToScalar_uints [of "ToUintArray (Some (ScalarToArrayBig n))"] ScalarToArrayBig_uints [of n] by simp
  ultimately show ?thesis by simp
qed

lemma limbs_zero: "limb_value (replicate m 0) = 0"
  by (induction m) (simp_all add: limb_value_def)

lemma None_ScalarToArrayBig: "None \<notin> set (ScalarToArrayBig n)"
  by (auto simp: ScalarToArrayBig_def)

text \<open>
  C5. Reading back: after \<open>InsertKA\<close> of a non-zero 256-bit number the lookup of that key ends and returns
  the bytes of the number, and every other key that was in the tree still gives its old value.
\<close>

theorem InsertKA_then_getValueInBytes:
  assumes "holds H s es" "collision_free H es" "\<forall>e\<in>set es. length (snd e) = 8" "0 < n" "n < 2 ^ 256"
    and "collision_free H (update_entry k (ToUintArray (Some (ScalarToArrayBig n))) es)"
  shows "\<exists>resp s'. InsertKA H MemDb_DB s k n = Inr (resp, s') \<and>
    getValueInBytes MemDb_DB s' k = Some (Inr (big_Bytes (nat n))) \<and>
    (\<forall>(k', v')\<in>set es. k' \<noteq> k \<longrightarrow> getValueInBytes MemDb_DB s' k' = Some (Inr (big_Bytes (nat (limb_value v')))))"
proof -
  let ?x = "ToUintArray (Some (ScalarToArrayBig n))"
  let ?es = "update_entry k ?x es"
  have l: "length (ScalarToArrayBig n) = 8" "length ?x = 8" by (simp_all add: ToUintArray_def)
  have lx: "limb_value ?x = n" using assms(4,5) by (simp add: limb_value_ScalarToArrayBig)
  then have nz: "?x \<noteq> replicate 8 0" using assms(4) limbs_zero [of 8] by auto
  obtain mode s' where s': "SMT_Insert H MemDb_DB s k (ScalarToArrayBig n) =
      Inr (\<lparr>NewRootScalar = hash_of H 0 ?es, Mode = mode\<rparr>, s')" "holds H s' ?es"
    using SMT_Insert_holds [OF assms(1,2) l(1) None_ScalarToArrayBig refl assms(6)] by blast
  have d: "distinct (map fst ?es)" using s'(2) by (simp add: holds_state_def)
  have l8: "\<forall>e\<in>set ?es. length (snd e) = 8" using assms(3) l(2) by (auto simp: update_entry_def Let_def)
  have read: "getValueInBytes MemDb_DB s' k' = Some (Inr (big_Bytes (nat (limb_value v'))))" if "(k', v') \<in> set ?es" for k' v'
    using memdb.getValueInBytes_leaf [OF s'(2) _ l8, of k'] tree_leaf_sub [OF d that, of 0] assms(6)
    by (simp add: collision_free_def)
  have "InsertKA H MemDb_DB s k n = Inr (\<lparr>NewRootScalar = hash_of H 0 ?es, Mode = mode\<rparr>, s')"
    using s'(1) by (simp add: InsertKA_def SMT_Insert_def NodeValue8FromBigIntArray_8)
  moreover have "(k, ?x) \<in> set ?es" using nz by (simp add: update_entry_def Let_def)
  moreover have "(k', v') \<in> set ?es" if "(k', v') \<in> set es" "k' \<noteq> k" for k' v' using that by (simp add: update_entry_def Let_def)
  ultimately show ?thesis using read lx by auto
qed

theorem InsertKA_then_getValueInBytes_witness:
  "\<exists>s resp s'. holds toy_hash s [(NodeKey 0 0 0 0, [5, 0, 0, 0, 0, 0, 0, 0])] \<and>
    InsertKA toy_hash MemDb_DB s (NodeKey 1 0 0 0) 7 = Inr (resp, s') \<and>
    getValueInBytes MemDb_DB s' (NodeKey 1 0 0 0) = Some (Inr [7]) \<and>
    getValueInBytes MemDb_DB s' (NodeKey 0 0 0 0) = Some (Inr [5])"
proof -
  have x: "ToUintArray (Some (ScalarToArrayBig 7)) = ToUintArray (Some (toy_value 7))"
    by (simp add: ScalarToArrayBig_def toy_value_def ToUintArray_def mask32_def upt_rec replicate_78)
  have b: "big_Bytes 7 = [7]" "big_Bytes (nat (limb_value [5, 0, 0, 0, 0, 0, 0, 0])) = [5]"
    by (simp_all add: big_Bytes_pos limb_value_def)
  obtain s where s: "holds toy_hash s [(NodeKey 0 0 0 0, [5, 0, 0, 0, 0, 0, 0, 0])]" using toy_state(2) by blast
  have "collision_free toy_hash (update_entry (NodeKey 1 0 0 0) (ToUintArray (Some (ScalarToArrayBig 7)))
      [(NodeKey 0 0 0 0, [5, 0, 0, 0, 0, 0, 0, 0])])"
    unfolding x toy_update by (rule toy_collision_free)
  from InsertKA_then_getValueInBytes [OF s toy_collision_free(2) _ _ _ this] s b show ?thesis by auto
qed

text \<open>
  C39. The lookup ignores the key of the leaf it ends in: in a tree with one entry every key, also one
  that was never inserted, reads as the value of that entry.
\<close>

theorem getValueInBytes_ignores_leaf_key:
  assumes "holds H s [(k', v')]" "nonzero_nodes H (nodes_of H 0 [(k', v')])" "length v' = 8"
  shows "getValueInBytes MemDb_DB s k = Some (Inr (big_Bytes (nat (limb_value v'))))"
  using memdb.getValueInBytes_leaf [OF assms(1,2), of k] assms(3) by simp

theorem getValueInBytes_ignores_leaf_key_witness:
  "\<exists>s. holds toy_hash s [(NodeKey 0 0 0 0, [5, 0, 0, 0, 0, 0, 0, 0])] \<and>
    getValueInBytes MemDb_DB s (NodeKey 1 2 3 4) = Some (Inr [5])"
proof -
  obtain s where s: "holds toy_hash s [(NodeKey 0 0 0 0, [5, 0, 0, 0, 0, 0, 0, 0])]" using toy_state(2) by blast
  have b: "big_Bytes (nat (limb_value [5, 0, 0, 0, 0, 0, 0, 0])) = [5]" by (simp add: big_Bytes_pos limb_value_def)
  from getValueInBytes_ignores_leaf_key [OF s, of "NodeKey 1 2 3 4"] toy_collision_free(2) s b
  show ?thesis unfolding collision_free_def by auto
qed

end
