(* ===== verification/SmtProof.thy ===== *)
theory SmtProof
  imports SmtRead
begin

text \<open>
  Merkle proofs of \<open>smt/pkg/smt/proof.go\<close>: building the proof elements of the retained nodes in one
  traversal, filtering those of a key, and verifying them against a root. Whether a node is
  retained is decided by an interface of another package and is the parameter \<open>Retain\<close>. The
  properties are that a proof built from a tree is accepted with the right answer, and that no
  accepted proof gives a wrong one.
\<close>

section \<open>Building proofs\<close>

record SMTProofElement =
  Path :: "nat list"
  Proof :: "byte list"

text \<open>\<open>FillBytes\<close> into a buffer of 32 bytes.\<close>

definition FillBytes32 :: "int \<Rightarrow> byte list" where
  "FillBytes32 x = (let b = big_Bytes (nat \<bar>x\<bar>) in replicate (32 - length b) 0 @ b)"

definition FilterProofs :: "SMTProofElement list \<Rightarrow> NodeKey \<Rightarrow> byte list list" where
  "FilterProofs proofs key = map Proof (filter (\<lambda>proof. HasPrefix (GetPath key) (Path proof)) proofs)"

definition BuildProofs_action :: "'a DB \<Rightarrow> 'a \<Rightarrow> (nat list \<Rightarrow> bool) \<Rightarrow> SMTProofElement list action" where
  "BuildProofs_action D db Retain prefix ky v proofs =
     (if \<not> Retain prefix then Inr (False, proofs)
      else
        rbind (Get0to4 v) (\<lambda>left.
        rbind (Get4to8 v) (\<lambda>right.
        let nodeBytes = FillBytes32 (ArrayToScalar (nk_list left)) @ FillBytes32 (ArrayToScalar (nk_list right));
            nodeBytes = (if IsFinalNode v then nodeBytes @ [1] else nodeBytes);
            proofs = proofs @ [\<lparr>Path = prefix, Proof = nodeBytes\<rparr>] in
        if IsFinalNode v then
          rbind (Get4to8 v) (\<lambda>valHash.
          rbind (value_bytes D db valHash) (\<lambda>vInBytes.
          Inr (False, proofs @ [\<lparr>Path = prefix, Proof = vInBytes\<rparr>])))
        else Inr (True, proofs))))"

definition BuildProofs :: "'a DB \<Rightarrow> 'a SMT \<Rightarrow> (nat list \<Rightarrow> bool) \<Rightarrow> SMTProofElement list result option" where
  "BuildProofs D s Retain =
     (case DB_GetLastRoot D (smt_Db s) of
        Inl e \<Rightarrow> Some (Inl e)
      | Inr root \<Rightarrow> Traverse D (smt_Db s) root (BuildProofs_action D (smt_Db s) Retain) [])"

section \<open>Verifying a proof\<close>

text \<open>
  How the loop over the proof ends: at a leaf of the key with the hash of its value, with the
  absence of the key shown, or at the end of the proof.
\<close>

datatype proof_end = FoundValue NodeKey | NonExistent | Insufficient

definition proof_child :: "byte list \<Rightarrow> NodeKey" where
  "proof_child b = nk_of (ScalarToArray (int (SetBytes b)))"

definition leftChildNode :: "byte list \<Rightarrow> NodeKey" where
  "leftChildNode p = proof_child (take 32 p)"

definition rightChildNode :: "byte list \<Rightarrow> NodeKey" where
  "rightChildNode p = proof_child (take 32 (drop 32 p))"

definition proof_capacity :: "byte list \<Rightarrow> NodeKey" where
  "proof_capacity p = (if length p = 65 then LeafCapacity else BranchCapacity)"

text \<open>
  An element of a proof is a slice: its bytes, and the spare bytes of its array, up to the capacity
  of the slice. The length of the slice marks a final node, but the slice expressions that cut out
  the two children are bounded by its capacity: they read into the spare bytes of an element
  shorter than 64 bytes, and panic only when the array ends before.
\<close>

type_synonym slice = "byte list \<times> byte list"

definition slice_array :: "slice \<Rightarrow> byte list" where
  "slice_array p = fst p @ snd p"

fun verify_loop :: "hash \<Rightarrow> NodeKey \<Rightarrow> nat \<Rightarrow> NodeKey \<Rightarrow> slice list \<Rightarrow> proof_end result" where
  "verify_loop hashFunc key i curRoot [] = Inr Insufficient"
| "verify_loop hashFunc key i curRoot (p # proof) =
     (let leftChild = leftChildNode (slice_array p); rightChild = rightChildNode (slice_array p) in
      if length (slice_array p) < 64 then Inl (Panic ''slice bounds out of range'')
      else if curRoot \<noteq> Hash hashFunc (ConcatArrays4 leftChild rightChild) (proof_capacity (fst p))
      then Inl (Err ''root mismatch'')
      else if length (fst p) \<noteq> 65 then
        rbind (idx (GetPath key) i) (\<lambda>b.
        let curRoot = (if b = 0 then leftChild else rightChild) in
        if NodeKey_IsZero curRoot then Inr NonExistent
        else verify_loop hashFunc key (i + 1) curRoot proof)
      else if i > 256 then Inl (Panic ''slice bounds out of range'')
      else if IsEqualTo (JoinKey (take i (GetPath key)) leftChild) key
      then Inr (FoundValue rightChild)
      else Inr NonExistent)"

definition VerifyAndGetVal :: "hash \<Rightarrow> NodeKey \<Rightarrow> slice list \<Rightarrow> NodeKey \<Rightarrow> byte list option result" where
  "VerifyAndGetVal hashFunc stateRoot proof key =
     (if proof = [] then Inl (Err ''proof is empty'')
      else rbind (verify_loop hashFunc key 0 stateRoot proof) (\<lambda>r.
        case r of
          Insufficient \<Rightarrow> Inl (Err ''proof is insufficient to verify the non-existence of the value'')
        | NonExistent \<Rightarrow> Inr None
        | FoundValue curRoot \<Rightarrow>
            let v = int (SetBytes (fst (last proof))) in
            rbind (NodeValue8FromBigIntArray (ScalarToArrayBig v)) (\<lambda>nodeValue.
            if Hash hashFunc (ToUintArray (Some nodeValue)) BranchCapacity \<noteq> curRoot
            then Inl (Err ''root mismatch'')
            else Inr (Some (fst (last proof))))))"

section \<open>The proof of a key in a tree\<close>

definition node_bytes :: "NodeKey \<Rightarrow> NodeKey \<Rightarrow> byte list" where
  "node_bytes l r = FillBytes32 (NodeKey_ToBigInt l) @ FillBytes32 (NodeKey_ToBigInt r)"

primrec tree_proof :: "hash \<Rightarrow> tree \<Rightarrow> nat \<Rightarrow> NodeKey \<Rightarrow> byte list list" where
  "tree_proof H Empty d k = []"
| "tree_proof H (Leaf k' v') d k =
     [node_bytes (RemoveKeyBits k' d) (H v' BranchCapacity) @ [1], big_Bytes (nat (limb_value v'))]"
| "tree_proof H (Branch l r) d k =
     node_bytes (root_hash H l (Suc d)) (root_hash H r (Suc d)) #
     (if path_bit k d then tree_proof H r (Suc d) k else tree_proof H l (Suc d) k)"

lemma length_FillBytes32 [simp]: "length (FillBytes32 (NodeKey_ToBigInt k)) = 32"
proof -
  have "NodeKey_ToBigInt k < 2 ^ 256"
    using SetBits_less [of "nk_list k"] by (simp add: NodeKey_ToBigInt_def ArrayToScalar_def)
  then have "nat (NodeKey_ToBigInt k) < 256 ^ 32" by simp
  then have "length (big_Bytes (nat (NodeKey_ToBigInt k))) \<le> 32" by (rule length_big_Bytes)
  then show ?thesis by (simp add: FillBytes32_def Let_def)
qed

lemma proof_child_FillBytes32 [simp]: "proof_child (FillBytes32 (NodeKey_ToBigInt k)) = k"
  by (simp add: proof_child_def FillBytes32_def Let_def ScalarToArray_ToBigInt)

lemma length_node_bytes [simp]: "length (node_bytes l r) = 64"
  by (simp add: node_bytes_def)

lemma node_bytes_children [simp]:
  "leftChildNode (node_bytes l r) = l" "rightChildNode (node_bytes l r) = r"
  "leftChildNode (node_bytes l r @ bs) = l" "rightChildNode (node_bytes l r @ bs) = r"
  by (simp_all add: leftChildNode_def rightChildNode_def node_bytes_def)

lemma FilterProofs_append: "FilterProofs (ps @ qs) k = FilterProofs ps k @ FilterProofs qs k"
  by (simp add: FilterProofs_def)

lemma FilterProofs_one: "FilterProofs [e] k = (if HasPrefix (GetPath k) (Path e) then [Proof e] else [])"
  by (simp add: FilterProofs_def)

lemma HasPrefix_append:
  assumes "HasPrefix p (xs @ ys)" shows "HasPrefix p xs"
proof -
  have "take (length xs) (take (length (xs @ ys)) p) = take (length xs) (xs @ ys)"
    using assms by (simp only: HasPrefix_def)
  then show ?thesis using assms by (simp add: HasPrefix_def min_absorb1)
qed

section \<open>Built proofs\<close>

primrec tree_entries :: "tree \<Rightarrow> entry list" where
  "tree_entries Empty = []"
| "tree_entries (Leaf k v) = [(k, v)]"
| "tree_entries (Branch l r) = tree_entries l @ tree_entries r"

lemma tree_entries_smt_tree: "set (tree_entries (smt_tree d es)) \<subseteq> set es"
proof (induction d es rule: smt_tree.induct)
  case (1 d es)
  consider "es = []" | x where "es = [x]" | "2 \<le> length es" by (cases es; cases "tl es") auto
  then show ?case
  proof cases
    case 3
    then have ne: "es \<noteq> []" "tl es \<noteq> []" by (cases es; auto)+
    show ?thesis
    proof (cases "d < 256")
      case True
      show ?thesis using 1 [OF ne True] unfolding smt_tree_branch [OF 3 True] by (auto simp: set_side)
    next
      case False
      then have "smt_tree d es = Empty" using ne by (subst smt_tree.simps) simp
      then show ?thesis by simp
    qed
  qed auto
qed

context node_db
begin

lemma BuildProofs_node:
  assumes "Retain prefix" "length (nk_list l @ nk_list r) = 8"
  shows "BuildProofs_action D db Retain prefix h (node12 (nk_list l @ nk_list r) BranchCapacity) ps =
      Inr (True, ps @ [\<lparr>Path = prefix, Proof = node_bytes l r\<rparr>])"
  using assms by (simp add: BuildProofs_action_def IsFinalNode_node Get_halves node_bytes_def NodeKey_ToBigInt_def)

lemma BuildProofs_leaf:
  assumes "ok db" "nodes db (H v BranchCapacity) = Some (node12 v BranchCapacity)" "length v = 8" "Retain prefix"
  shows "BuildProofs_action D db Retain prefix h (node12 (leaf_input H d k v) LeafCapacity) ps =
      Inr (False, ps @ [\<lparr>Path = prefix, Proof = node_bytes (RemoveKeyBits k d) (H v BranchCapacity) @ [1]\<rparr>,
                        \<lparr>Path = prefix, Proof = big_Bytes (nat (limb_value v))\<rparr>])"
  using assms(4) value_bytes_stored [where H = H and v = v, OF assms(1-3)] IsFinalNode_node(1) [OF length_leaf_input, of H d k v]
  by (simp add: BuildProofs_action_def leaf_input_def Get_halves node_bytes_def NodeKey_ToBigInt_def)

lemma BuildProofs_off_path:
  assumes "ok db"
  shows "stored H (nodes db) (set (tree_nodes H t d)) \<Longrightarrow> \<forall>e\<in>set (tree_entries t). length (snd e) = 8 \<Longrightarrow>
    \<not> HasPrefix (GetPath k) prefix \<Longrightarrow>
    \<exists>ps'. visit H (BuildProofs_action D db Retain) t d prefix ps = Inr ps' \<and> FilterProofs ps' k = FilterProofs ps k"
proof (induction t arbitrary: d prefix ps)
  case (Leaf k' v')
  show ?case
  proof (cases "Retain prefix")
    case True
    have "nodes db (H v' BranchCapacity) = Some (node12 v' BranchCapacity)" "length v' = 8"
      using Leaf.prems by (simp_all add: stored_def)
    from BuildProofs_leaf [where H = H and v = v' and Retain = Retain and prefix = prefix, OF assms this True] show ?thesis using Leaf.prems(3) by (simp add: FilterProofs_def)
  qed (simp add: BuildProofs_action_def)
next
  case (Branch l r)
  have st: "stored H (nodes db) (set (tree_nodes H l (Suc d)))" "stored H (nodes db) (set (tree_nodes H r (Suc d)))"
    using Branch.prems(1) by (auto simp: stored_def)
  have len: "\<forall>e\<in>set (tree_entries l). length (snd e) = 8" "\<forall>e\<in>set (tree_entries r). length (snd e) = 8"
    using Branch.prems(2) by auto
  have off: "\<not> HasPrefix (GetPath k) (prefix @ [b])" for b using Branch.prems(3) HasPrefix_append by blast
  show ?case
  proof (cases "Retain prefix")
    case True
    let ?ps = "ps @ [\<lparr>Path = prefix, Proof = node_bytes (root_hash H l (Suc d)) (root_hash H r (Suc d))\<rparr>]"
    obtain ps1 where ps1: "visit H (BuildProofs_action D db Retain) l (Suc d) (prefix @ [0]) ?ps = Inr ps1"
      "FilterProofs ps1 k = FilterProofs ?ps k"
      using Branch.IH(1) [OF st(1) len(1) off] by blast
    obtain ps2 where "visit H (BuildProofs_action D db Retain) r (Suc d) (prefix @ [1]) ps1 = Inr ps2"
      "FilterProofs ps2 k = FilterProofs ps1 k"
      using Branch.IH(2) [OF st(2) len(2) off] by blast
    then show ?thesis using ps1 True Branch.prems(3) by (simp add: BuildProofs_node FilterProofs_append FilterProofs_one)
  qed (simp add: BuildProofs_action_def)
qed simp

lemma BuildProofs_on_path:
  assumes "ok db" "\<forall>i\<le>256. Retain (take i (GetPath k))"
  shows "d + height t \<le> 256 \<Longrightarrow> stored H (nodes db) (set (tree_nodes H t d)) \<Longrightarrow>
    \<forall>e\<in>set (tree_entries t). length (snd e) = 8 \<Longrightarrow>
    \<exists>ps'. visit H (BuildProofs_action D db Retain) t d (take d (GetPath k)) ps = Inr ps' \<and>
      FilterProofs ps' k = FilterProofs ps k @ tree_proof H t d k"
proof (induction t arbitrary: d ps)
  case (Leaf k' v')
  have "nodes db (H v' BranchCapacity) = Some (node12 v' BranchCapacity)" "length v' = 8"
    using Leaf.prems by (simp_all add: stored_def)
  from BuildProofs_leaf [where H = H and v = v' and Retain = Retain and prefix = "take d (GetPath k)", OF assms(1) this] assms(2) Leaf.prems(1)
  show ?case by (simp add: FilterProofs_def)
next
  case (Branch l r)
  let ?p = "take d (GetPath k)" and ?a = "BuildProofs_action D db Retain"
  have d: "d < 256" "Suc d + height l \<le> 256" "Suc d + height r \<le> 256" using Branch.prems(1) by simp_all
  have st: "stored H (nodes db) (set (tree_nodes H l (Suc d)))" "stored H (nodes db) (set (tree_nodes H r (Suc d)))"
    using Branch.prems(2) by (auto simp: stored_def)
  have len: "\<forall>e\<in>set (tree_entries l). length (snd e) = 8" "\<forall>e\<in>set (tree_entries r). length (snd e) = 8"
    using Branch.prems(3) by auto
  let ?ps = "ps @ [\<lparr>Path = ?p, Proof = node_bytes (root_hash H l (Suc d)) (root_hash H r (Suc d))\<rparr>]"
  have f: "FilterProofs ?ps k = FilterProofs ps k @ [node_bytes (root_hash H l (Suc d)) (root_hash H r (Suc d))]"
    using d by (simp add: FilterProofs_append FilterProofs_one)
  have v: "visit H ?a (Branch l r) d ?p ps = rbind (visit H ?a l (Suc d) (?p @ [0]) ?ps) (visit H ?a r (Suc d) (?p @ [1]))"
    using assms(2) d by (simp add: BuildProofs_node)
  show ?case
  proof (cases "path_bit k d")
    case True
    then have "\<not> HasPrefix (GetPath k) (?p @ [0])" using d by (simp add: HasPrefix_snoc)
    from BuildProofs_off_path [OF assms(1) st(1) len(1) this] obtain ps1 where
      ps1: "visit H ?a l (Suc d) (?p @ [0]) ?ps = Inr ps1" "FilterProofs ps1 k = FilterProofs ?ps k" by blast
    from Branch.IH(2) [OF d(3) st(2) len(2), of ps1] obtain ps2 where
      "visit H ?a r (Suc d) (?p @ [1]) ps1 = Inr ps2" "FilterProofs ps2 k = FilterProofs ps1 k @ tree_proof H r (Suc d) k"
      using take_Suc_path [OF d(1), of k] True by auto
    then show ?thesis using True ps1 unfolding v f by (simp add: f)
  next
    case False
    then have "\<not> HasPrefix (GetPath k) (?p @ [1])" using d by (simp add: HasPrefix_snoc)
    note off = BuildProofs_off_path [OF assms(1) st(2) len(2) this]
    from Branch.IH(1) [OF d(2) st(1) len(1), of ?ps] obtain ps1 where
      ps1: "visit H ?a l (Suc d) (?p @ [0]) ?ps = Inr ps1" "FilterProofs ps1 k = FilterProofs ?ps k @ tree_proof H l (Suc d) k"
      using take_Suc_path [OF d(1), of k] False by auto
    obtain ps2 where "visit H ?a r (Suc d) (?p @ [1]) ps1 = Inr ps2" "FilterProofs ps2 k = FilterProofs ps1 k"
      using off by blast
    then show ?thesis using False ps1 unfolding v by (simp add: f)
  qed
qed simp

end

section \<open>Verifying built proofs\<close>

text \<open>A stored value as eight limbs of 32 bits, as \<open>InsertKA\<close> makes them of a number
  (\<open>ScalarToArrayBig\<close>). The limbs \<open>InsertBI\<close> makes have 64 bits (\<open>ScalarToNodeValue8\<close>) and are in
  this form only when the upper half of each is zero.\<close>

definition limbs :: "uint64 list \<Rightarrow> bool" where
  "limbs v \<longleftrightarrow> length v = 8 \<and> (\<forall>w\<in>set v. uint w < 2 ^ 32)"

lemma limb_digit:
  "\<forall>w\<in>set v. uint w < 2 ^ 32 \<Longrightarrow> i < length v \<Longrightarrow> limb_value v div 2 ^ (32 * i) mod 2 ^ 32 = uint (v ! i)"
proof (induction v arbitrary: i)
  case (Cons w v)
  have c: "limb_value (w # v) = uint w + 2 ^ 32 * limb_value v" by (simp add: limb_value_def)
  have w: "0 \<le> uint w" "uint w < 2 ^ 32" using Cons.prems(1) by simp_all
  show ?case
  proof (cases i)
    case 0
    then show ?thesis using w by (simp add: c)
  next
    case (Suc j)
    have "limb_value (w # v) div 2 ^ (32 * i) = limb_value (w # v) div 2 ^ 32 div 2 ^ (32 * j)"
      unfolding Suc mult_Suc_right power_add by (simp only: zdiv_zmult2_eq zero_le_power zero_le_numeral)
    also have "limb_value (w # v) div 2 ^ 32 = limb_value v" using w by (simp add: c)
    finally show ?thesis using Cons Suc by simp
  qed
qed simp

lemma limbs_scalar:
  assumes "limbs v" shows "ToUintArray (Some (ScalarToArrayBig (limb_value v))) = v"
proof (rule nth_equalityI)
  show "length (ToUintArray (Some (ScalarToArrayBig (limb_value v)))) = length v"
    using assms by (simp add: ToUintArray_def limbs_def)
  fix i assume "i < length (ToUintArray (Some (ScalarToArrayBig (limb_value v))))"
  then have i: "i < 8" by (simp add: ToUintArray_def)
  then have "limb_value v div 2 ^ (32 * i) mod 2 ^ 32 = uint (v ! i)"
    using assms limb_digit [of v i] by (simp add: limbs_def)
  then have "drop_bit (32 * i) (limb_value v) AND mask32 = uint (v ! i)"
    by (simp only: mask32_mod drop_bit_eq_div)
  then have "big_Uint64 (drop_bit (32 * i) (limb_value v) AND mask32) = v ! i"
    by (simp add: big_Uint64_nonneg)
  then show "ToUintArray (Some (ScalarToArrayBig (limb_value v))) ! i = v ! i"
    using i by (simp add: ToUintArray_def ScalarToArrayBig_def)
qed

lemma map_of_sub_one:
  assumes "distinct (map fst es)" "sub k i es = [(k', v')]"
  shows "map_of es k = (if k' = k then Some v' else None)"
proof (cases "k' = k")
  case True
  have "(k', v') \<in> set (sub k i es)" using assms(2) by simp
  then show ?thesis using True assms(1) by (simp add: sub_def)
next
  case False
  then have "k \<notin> fst ` set es" using sub_self [of k es i] assms(2) by auto
  then show ?thesis using False by (simp add: map_of_eq_None_iff)
qed

lemma map_of_sub_Nil: "sub k i es = [] \<Longrightarrow> map_of es k = None"
  using sub_self [of k es i] by (simp add: map_of_eq_None_iff)

lemma join_leaf:
  assumes "sub k i es = [(k', v')]" "i \<le> 256"
  shows "JoinKey (take i (GetPath k)) (RemoveKeyBits k' i) = k'"
proof -
  have "(k', v') \<in> set (sub k i es)" using assms(1) by simp
  then have "agree k i k'" by (simp add: sub_def)
  then show ?thesis using JoinKey_RemoveKeyBits [OF assms(2), of k'] take_path_agree [of k i k'] assms(2) by simp
qed

lemma path_child_zero:
  assumes "distinct (map fst es)" "nonzero_nodes H (nodes_of H i (sub k i es))" "i \<le> 256"
  shows "hash_of H i (sub k i es) = NodeKey 0 0 0 0 \<longleftrightarrow> sub k i es = []"
proof -
  have "length (sub k i es) \<le> 1 \<or> i < 256" using sub_branch_depth [OF assms(1,3), of k] by linarith
  then show ?thesis using hash_of_nonzero [OF assms(2)] by auto
qed

definition path_end :: "hash \<Rightarrow> uint64 list option \<Rightarrow> proof_end" where
  "path_end H ov = (case ov of None \<Rightarrow> NonExistent | Some v \<Rightarrow> FoundValue (H v BranchCapacity))"

lemma verify_tree_proof:
  assumes dist: "distinct (map fst es)"
  shows "i \<le> 256 \<Longrightarrow> nonzero_nodes H (nodes_of H i (sub k i es)) \<Longrightarrow> sub k i es \<noteq> [] \<Longrightarrow>
    (\<forall>proof. map fst proof = tree_proof H (smt_tree i (sub k i es)) i k \<longrightarrow>
      verify_loop H k i (hash_of H i (sub k i es)) proof = Inr (path_end H (map_of es k))) \<and>
    tree_proof H (smt_tree i (sub k i es)) i k \<noteq> [] \<and>
    (\<forall>v. map_of es k = Some v \<longrightarrow> last (tree_proof H (smt_tree i (sub k i es)) i k) = big_Bytes (nat (limb_value v)))"
proof (induction "256 - i" arbitrary: i rule: less_induct)
  case less
  consider (leaf) k' v' where "sub k i es = [(k', v')]" | (branch) "2 \<le> length (sub k i es)"
    using less.prems(3) by (cases "sub k i es"; cases "tl (sub k i es)") auto
  then show ?case
  proof cases
    case (leaf k' v')
    then show ?thesis
      using join_leaf [OF leaf less.prems(1)] less.prems(1) map_of_sub_one [OF dist leaf]
      by (auto simp: proof_capacity_def Hash_def ConcatArrays4_def leaf_input_def path_end_def IsEqualTo_def slice_array_def map_eq_Cons_conv)
  next
    case branch
    have i: "i < 256" using sub_branch_depth [OF dist less.prems(1) branch] .
    have nz: "nonzero_nodes H (nodes_of H (Suc i) (sub k (Suc i) es))"
      using less.prems(2) nodes_of_path [OF branch i, of H] by (auto simp: nonzero_nodes_def)
    note z = path_child_zero [OF dist nz]
    let ?b = "node_bytes (hash_of H (Suc i) (side i False (sub k i es))) (hash_of H (Suc i) (side i True (sub k i es)))"
    have t: "tree_proof H (smt_tree i (sub k i es)) i k = ?b # tree_proof H (smt_tree (Suc i) (sub k (Suc i) es)) (Suc i) k"
      by (simp add: smt_tree_branch [OF branch i] hash_of_def sub_Suc)
    have "verify_loop H k i (hash_of H i (sub k i es)) ((?b, sp) # ps) =
        (if sub k (Suc i) es = [] then Inr NonExistent
         else verify_loop H k (Suc i) (hash_of H (Suc i) (sub k (Suc i) es)) ps)" for sp ps
      using z i by (cases "path_bit k i") (simp_all add: proof_capacity_def Hash_def ConcatArrays4_def
        hash_of_branch [OF branch i] branch_input_def idx_def GetPath_nth NodeKey_IsZero_iff sub_Suc slice_array_def)
    note step = this
    have "256 - Suc i < 256 - i" using i by simp
    note IH = less.hyps [OF this _ nz]
    show ?thesis
    proof (cases "sub k (Suc i) es = []")
      case True
      then show ?thesis using step t map_of_sub_Nil [of k "Suc i" es]
        by (auto simp: path_end_def map_eq_Cons_conv simp del: verify_loop.simps)
    next
      case False
      then show ?thesis using step t IH i by (auto simp: map_eq_Cons_conv simp del: verify_loop.simps)
    qed
  qed
qed

lemma ToUintArray_8: "NodeValue8FromBigIntArray (ScalarToArrayBig n) = Inr (ScalarToArrayBig n)"
  by (simp add: NodeValue8FromBigIntArray_8)

context node_db
begin

lemma BuildProofs_tree:
  assumes "holds_state ok nodes last_root H s es" "nonzero_nodes H (nodes_of H 0 es)" "\<forall>e\<in>set es. length (snd e) = 8"
    and "\<forall>i\<le>256. Retain (take i (GetPath k))"
  shows "\<exists>ps. BuildProofs D s Retain = Some (Inr ps) \<and> FilterProofs ps k = tree_proof H (smt_tree 0 es) 0 k"
proof -
  have s: "ok (smt_Db s)" "last_root (smt_Db s) = NodeKey_ToBigInt (hash_of H 0 es)"
    "stored H (nodes (smt_Db s)) (nodes_of H 0 es)" using assms(1) by (simp_all add: holds_state_def)
  have "\<forall>e\<in>set (tree_entries (smt_tree 0 es)). length (snd e) = 8"
    using assms(3) tree_entries_smt_tree [of 0 es] by blast
  from BuildProofs_on_path [OF s(1) assms(4) _ _ this, of 0 H "[]"] height_smt_tree [of 0 es] s(3)
  obtain ps where ps: "visit H (BuildProofs_action D (smt_Db s) Retain) (smt_tree 0 es) 0 [] [] = Inr ps"
    "FilterProofs ps k = tree_proof H (smt_tree 0 es) 0 k"
    by (auto simp: nodes_of_def FilterProofs_def)
  then show ?thesis
    using Traverse_tree [OF s(1,3) assms(2), of "BuildProofs_action D (smt_Db s) Retain" "[]"] GetLastRoot [OF s(1)]
    by (simp add: BuildProofs_def s(2))
qed

end

section \<open>No proof of a wrong answer\<close>

definition proof_node :: "slice \<Rightarrow> uint64 list \<times> NodeKey" where
  "proof_node p = (nk_list (leftChildNode (slice_array p)) @ nk_list (rightChildNode (slice_array p)), proof_capacity (fst p))"

text \<open>What the verifier hashes: the nodes of the proof, and the value at its end.\<close>

definition proof_inputs :: "slice list \<Rightarrow> (uint64 list \<times> NodeKey) set" where
  "proof_inputs proof = proof_node ` {p \<in> set proof. 64 \<le> length (slice_array p)}"

definition value_input :: "byte list \<Rightarrow> uint64 list \<times> NodeKey" where
  "value_input b = (ToUintArray (Some (ScalarToArrayBig (int (SetBytes b)))), BranchCapacity)"

lemma capacities_differ: "LeafCapacity \<noteq> BranchCapacity"
  by (simp add: LeafCapacity_def BranchCapacity_def)

lemma proof_capacity_iff:
  "proof_capacity p = LeafCapacity \<longleftrightarrow> length p = 65" "proof_capacity p = BranchCapacity \<longleftrightarrow> length p \<noteq> 65"
  using capacities_differ by (auto simp: proof_capacity_def)

lemma proof_node_eq:
  "proof_node p = (nk_list l @ nk_list r, c) \<longleftrightarrow> 
    leftChildNode (slice_array p) = l \<and> rightChildNode (slice_array p) = r \<and> proof_capacity (fst p) = c"
  by (auto simp: proof_node_def nk_list_def intro: NodeKey.expand)

lemma verify_loop_node:
  "verify_loop H k i root (p # ps) = Inr r \<Longrightarrow>
    64 \<le> length (slice_array p) \<and> root = (\<lambda>(x, c). H x c) (proof_node p)"
  by (auto simp: proof_node_def Hash_def ConcatArrays4_def Let_def split: if_splits)

lemma verify_loop_sound:
  assumes dist: "distinct (map fst es)"
    and inj: "inj_on (\<lambda>(x, c). H x c) A" and nz: "nonzero_nodes H A"
  shows "verify_loop H k i (hash_of H i (sub k i es)) proof = Inr r \<Longrightarrow> i \<le> 256 \<Longrightarrow>
    nodes_of H i (sub k i es) \<subseteq> A \<Longrightarrow> proof_inputs proof \<subseteq> A \<Longrightarrow>
    r = Insufficient \<or> r = path_end H (map_of es k) \<and> (\<forall>v. map_of es k = Some v \<longrightarrow> (v, BranchCapacity) \<in> A)"
proof (induction "proof" arbitrary: i)
  case (Cons p ps)
  have p: "64 \<le> length (slice_array p)" "hash_of H i (sub k i es) = (\<lambda>(x, c). H x c) (proof_node p)"
    using verify_loop_node [OF Cons.prems(1)] by simp_all
  then have inA: "proof_node p \<in> A" using Cons.prems(4) by (auto simp: proof_inputs_def)
  have same: "proof_node p = (x, c)" if "hash_of H i (sub k i es) = H x c" "(x, c) \<in> nodes_of H i (sub k i es)" for x c
    using inj_onD [OF inj, of "proof_node p" "(x, c)"] p(2) that inA Cons.prems(3) by auto
  consider (empty) "sub k i es = []" | (leaf) k' v' where "sub k i es = [(k', v')]" | (branch) "2 \<le> length (sub k i es)"
    by (cases "sub k i es"; cases "tl (sub k i es)") auto
  then show ?case
  proof cases
    case empty
    then show ?thesis using nz inA p(2) by (auto simp: nonzero_nodes_def)
  next
    case (leaf k' v')
    have "proof_node p = (leaf_input H i k' v', LeafCapacity)" using same leaf by simp
    then have q: "leftChildNode (slice_array p) = RemoveKeyBits k' i" "rightChildNode (slice_array p) = H v' BranchCapacity"
      "length (fst p) = 65"
      unfolding leaf_input_def proof_node_eq proof_capacity_iff by simp_all
    then have "r = path_end H (map_of es k)"
      using Cons.prems(1,2) join_leaf [OF leaf Cons.prems(2)] map_of_sub_one [OF dist leaf]
      by (auto simp: path_end_def Let_def split: if_splits)
    then show ?thesis using leaf Cons.prems(3) map_of_sub_one [OF dist leaf] by auto
  next
    case branch
    have i: "i < 256" using sub_branch_depth [OF dist Cons.prems(2) branch] .
    have sub: "nodes_of H (Suc i) (sub k (Suc i) es) \<subseteq> A" using Cons.prems(3) nodes_of_path [OF branch i, of H] by auto
    have "proof_node p = (branch_input H i (sub k i es), BranchCapacity)"
      using same hash_of_branch [OF branch i] nodes_of_path [OF branch i, of H] by simp
    then have q: "(if path_bit k i then rightChildNode (slice_array p) else leftChildNode (slice_array p)) =
        hash_of H (Suc i) (sub k (Suc i) es)" "length (fst p) \<noteq> 65"
      unfolding branch_input_def proof_node_eq proof_capacity_iff by (simp_all add: sub_Suc)
    have z: "hash_of H (Suc i) (sub k (Suc i) es) = NodeKey 0 0 0 0 \<longleftrightarrow> sub k (Suc i) es = []"
      using path_child_zero [OF dist nonzero_nodes_subset [OF nz sub]] i by simp
    have "(if sub k (Suc i) es = [] then Inr NonExistent
        else verify_loop H k (Suc i) (hash_of H (Suc i) (sub k (Suc i) es)) ps) = Inr r"
      using Cons.prems(1) q z i by (cases "path_bit k i") (auto simp: idx_def GetPath_nth NodeKey_IsZero_iff Let_def split: if_splits)
    then show ?thesis
      using Cons.IH [of "Suc i"] i sub Cons.prems(4) map_of_sub_Nil [of k "Suc i" es]
      by (auto simp: path_end_def proof_inputs_def split: if_splits)
  qed
qed simp

section \<open>Properties\<close>

text \<open>
  C3. Built proofs are accepted: on a non-empty tree that holds the entries \<open>es\<close>, each value of which is
  eight limbs of 32 bits, \<open>BuildProofs\<close> ends for every set of retained nodes that contains the path of
  a key, and the elements \<open>FilterProofs\<close> keeps for the key verify, whatever their spare capacity,
  against the root of the tree, with the value of the key or, when the tree does not have the key,
  with its absence.
\<close>

theorem built_proof_verifies:
  assumes "holds H s es" "nonzero_nodes H (nodes_of H 0 es)" "\<forall>e\<in>set es. limbs (snd e)" "es \<noteq> []"
    and "\<forall>i\<le>256. Retain (take i (GetPath k))"
  shows "\<exists>proofs. BuildProofs MemDb_DB s Retain = Some (Inr proofs) \<and>
    (\<forall>proof. map fst proof = FilterProofs proofs k \<longrightarrow>
      VerifyAndGetVal H (hash_of H 0 es) proof k =
        Inr (map_option (\<lambda>v. big_Bytes (nat (limb_value v))) (map_of es k)))"
proof -
  have d: "distinct (map fst es)" using assms(1) by (simp add: holds_state_def)
  have "\<forall>e\<in>set es. length (snd e) = 8" using assms(3) by (simp add: limbs_def)
  from memdb.BuildProofs_tree [OF assms(1,2) this assms(5)] obtain ps where
    ps: "BuildProofs MemDb_DB s Retain = Some (Inr ps)" "FilterProofs ps k = tree_proof H (smt_tree 0 es) 0 k" by blast
  have l: "limbs v" if "map_of es k = Some v" for v using assms(3) map_of_SomeD [OF that] by auto
  have "VerifyAndGetVal H (hash_of H 0 es) proof k = Inr (map_option (\<lambda>v. big_Bytes (nat (limb_value v))) (map_of es k))"
    if p: "map fst proof = FilterProofs ps k" for "proof"
  proof -
    have ne: "proof \<noteq> []" using verify_tree_proof [OF d, of 0 H k] assms(2,4) p ps(2) by auto
    then have "fst (last proof) = last (FilterProofs ps k)" by (simp add: last_map flip: p)
    with ne show ?thesis
      using verify_tree_proof [OF d, of 0 H k] assms(2,4) l p
      by (cases "map_of es k")
        (simp_all add: VerifyAndGetVal_def path_end_def ps(2) ToUintArray_8 limbs_scalar limb_value_nonneg Hash_def Let_def del: verify_loop.simps)
  qed
  then show ?thesis using ps(1) by blast
qed

theorem built_proof_verifies_witness:
  "\<exists>(s :: MemDb SMT) proofs. BuildProofs MemDb_DB s (\<lambda>_. True) = Some (Inr proofs) \<and>
    VerifyAndGetVal toy_hash (hash_of toy_hash 0
        [(NodeKey 1 0 0 0, [7, 0, 0, 0, 0, 0, 0, 0]), (NodeKey 0 0 0 0, [5, 0, 0, 0, 0, 0, 0, 0])])
      (map (\<lambda>b. (b, [9])) (FilterProofs proofs (NodeKey 1 0 0 0))) (NodeKey 1 0 0 0) = Inr (Some [7]) \<and>
    VerifyAndGetVal toy_hash (hash_of toy_hash 0
        [(NodeKey 1 0 0 0, [7, 0, 0, 0, 0, 0, 0, 0]), (NodeKey 0 0 0 0, [5, 0, 0, 0, 0, 0, 0, 0])])
      (map (\<lambda>b. (b, [9])) (FilterProofs proofs (NodeKey 2 0 0 0))) (NodeKey 2 0 0 0) = Inr None"
proof -
  let ?es = "[(NodeKey 1 0 0 0, [7, 0, 0, 0, 0, 0, 0, 0]), (NodeKey 0 0 0 0, [5, 0, 0, 0, 0, 0, 0, 0 :: uint64])]"
  obtain s where s: "holds toy_hash s ?es" using toy_state(1) by blast
  have nz: "nonzero_nodes toy_hash (nodes_of toy_hash 0 ?es)" using toy_collision_free(3) by (simp add: collision_free_def)
  have l: "\<forall>e\<in>set ?es. limbs (snd e)" by (simp add: limbs_def)
  have b: "big_Bytes (nat (limb_value [7, 0, 0, 0, 0, 0, 0, 0])) = [7]" by (simp add: big_Bytes_pos limb_value_def)
  show ?thesis
    using built_proof_verifies [OF s nz l, of "\<lambda>_. True" "NodeKey 1 0 0 0"]
      built_proof_verifies [OF s nz l, of "\<lambda>_. True" "NodeKey 2 0 0 0"] b by (intro exI [of _ s]) (auto simp: comp_def)
qed

text \<open>
  C2. No proof of a wrong answer: whatever bytes are passed as proof, in slices of whatever capacity, when \<open>VerifyAndGetVal\<close> accepts them
  against the root of the tree of \<open>es\<close>, the answer is the one the tree holds: absence only for a key
  without entry, and a value only if its limbs are the value of the key. The hypothesis is that the
  hash has no collision and no zero among the nodes of the tree and what the verifier hashes.
\<close>

theorem no_proof_of_wrong_answer:
  assumes "VerifyAndGetVal H (hash_of H 0 es) proof k = Inr answer" "distinct (map fst es)"
    and "A = nodes_of H 0 es \<union> proof_inputs proof \<union> {value_input (fst (last proof))}"
    and "inj_on (\<lambda>(x, c). H x c) A" "nonzero_nodes H A"
  shows "map_of es k = map_option (\<lambda>b. ToUintArray (Some (ScalarToArrayBig (int (SetBytes b))))) answer"
proof -
  obtain r where r: "verify_loop H k 0 (hash_of H 0 es) proof = Inr r" "r \<noteq> Insufficient"
    using assms(1) by (cases "verify_loop H k 0 (hash_of H 0 es) proof")
      (force simp: VerifyAndGetVal_def simp del: verify_loop.simps split: if_splits)+
  then have e: "r = path_end H (map_of es k)" "\<forall>v. map_of es k = Some v \<longrightarrow> (v, BranchCapacity) \<in> A"
    using verify_loop_sound [OF assms(2,4,5), of k 0 "proof" r] assms(3) by auto
  show ?thesis
  proof (cases "map_of es k")
    case None
    then show ?thesis using assms(1) r e
      by (auto simp: VerifyAndGetVal_def path_end_def simp del: verify_loop.simps split: if_splits)
  next
    case (Some v)
    then have a: "answer = Some (fst (last proof))" "(\<lambda>(x, c). H x c) (value_input (fst (last proof))) = H v BranchCapacity"
      using assms(1) r(1) e(1) by (auto simp: VerifyAndGetVal_def path_end_def ToUintArray_8 value_input_def Hash_def
        Let_def simp del: verify_loop.simps split: if_splits)
    have "value_input (fst (last proof)) = (v, BranchCapacity)"
      using inj_onD [OF assms(4), of "value_input (fst (last proof))" "(v, BranchCapacity)"] a(2) e(2) Some assms(3) by auto
    then show ?thesis using Some a(1) by (simp add: value_input_def)
  qed
qed

theorem no_proof_of_wrong_answer_witness:
  "VerifyAndGetVal toy_hash (hash_of toy_hash 0 [(NodeKey 0 0 0 0, [5, 0, 0, 0, 0, 0, 0, 0])])
      [(node_bytes (NodeKey 0 0 0 0) (NodeKey 1 5 0 0) @ [1], [2, 3]), ([5], [])] (NodeKey 0 0 0 0) = Inr (Some [5]) \<and>
    map_of [(NodeKey 0 0 0 0, [5, 0, 0, 0, 0, 0, 0, 0])] (NodeKey 0 0 0 0) =
      Some (ToUintArray (Some (ScalarToArrayBig (int (SetBytes [5])))))"
proof -
  let ?es = "[(NodeKey 0 0 0 0, [5, 0, 0, 0, 0, 0, 0, 0 :: uint64])]"
  let ?p = "[(node_bytes (NodeKey 0 0 0 0) (NodeKey 1 5 0 0) @ [1], [2, 3]), ([5], [])]"
  have v: "ToUintArray (Some (ScalarToArrayBig 5)) = [5, 0, 0, 0, 0, 0, 0, 0]"
    by (simp add: ScalarToArrayBig_def ToUintArray_def mask32_def upt_rec big_Uint64_nonneg)
  have b: "SetBytes [5] = 5" by (simp add: SetBytes_def)
  have r: "RemoveKeyBits (NodeKey 0 0 0 0) 0 = NodeKey 0 0 0 0" by (simp add: RemoveKeyBits_def nk_list_def nk_of_def upt_rec)
  then have j: "JoinKey [] (NodeKey 0 0 0 0) = NodeKey 0 0 0 0"
    using JoinKey_RemoveKeyBits [of 0 "NodeKey 0 0 0 0"] by simp
  have h: "toy_hash [5, 0, 0, 0, 0, 0, 0, 0] BranchCapacity = NodeKey 1 5 0 0" by (simp add: toy_hash_def BranchCapacity_def)
  have li: "leaf_input toy_hash 0 (NodeKey 0 0 0 0) [5, 0, 0, 0, 0, 0, 0, 0] = [0, 0, 0, 0, 1, 5, 0, 0]"
    by (simp add: leaf_input_def h r nk_list_def)
  have ok: "VerifyAndGetVal toy_hash (hash_of toy_hash 0 ?es) ?p (NodeKey 0 0 0 0) = Inr (Some [5])"
    by (simp add: VerifyAndGetVal_def proof_capacity_def Hash_def ConcatArrays4_def li j b v h ToUintArray_8 Let_def nk_list_def slice_array_def)
  have n: "nodes_of toy_hash 0 ?es \<union> proof_inputs ?p \<union> {value_input (fst (last ?p))} =
      {([0, 0, 0, 0, 1, 5, 0, 0], LeafCapacity), ([5, 0, 0, 0, 0, 0, 0, 0], BranchCapacity)}"
    by (auto simp: proof_inputs_def proof_node_def value_input_def proof_capacity_def li b v nk_list_def slice_array_def)
  show ?thesis
    using no_proof_of_wrong_answer [OF ok _ n [symmetric]] ok
    by (simp add: nonzero_nodes_def toy_hash_def LeafCapacity_def BranchCapacity_def)
qed

end
