(* ===== verification/SmtClean.thy ===== *)
theory SmtClean
  imports SmtRead
begin

text \<open>
  Removing orphaned nodes (\<open>CheckOrphanedNodes\<close> and \<open>traverseAndMark\<close> of \<open>smt/pkg/smt/smt.go\<close>) on the
  in-memory database: a traversal marks the nodes it reaches and all others are deleted. The
  property is exact: what stays are the branches and leaves of the tree, what goes includes the
  values of the leaves, which the traversal does not reach. The periodic goroutine that calls the
  check and the cancellation of its context are left out.
\<close>

section \<open>Marking and deleting\<close>

definition mark_action :: "string set action" where
  "mark_action prefix k v visited =
     (let key = ConvertBigIntToHex (NodeKey_ToBigInt k) in
      if key \<in> visited then Inr (False, visited) else Inr (True, Set.insert key visited))"

definition traverseAndMark :: "'a DB \<Rightarrow> 'a \<Rightarrow> int \<Rightarrow> string set \<Rightarrow> string set result option" where
  "traverseAndMark D db node visited = Traverse D db node mark_action visited"

text \<open>Errors make the check return 0; deleting a key of a map cannot fail.\<close>

definition CheckOrphanedNodes :: "MemDb SMT \<Rightarrow> (nat \<times> MemDb SMT) result option" where
  "CheckOrphanedNodes s =
     (case MemDb_GetLastRoot (smt_Db s) of
        Inl e \<Rightarrow> Some (Inr (0, s))
      | Inr root \<Rightarrow>
          map_option (\<lambda>r. case r of
              Inl (Err e) \<Rightarrow> Inr (0, s)
            | Inl (Panic e) \<Rightarrow> Inl (Panic e)
            | Inr visited \<Rightarrow>
                let orphanedNodes = dom (Db (smt_Db s)) - visited;
                    rootKey = ConvertBigIntToHex root;
                    db = (smt_Db s)\<lparr>Db := Db (smt_Db s) |` (- (orphanedNodes - {rootKey}))\<rparr> in
                Inr (card orphanedNodes, s\<lparr>smt_Db := db\<rparr>))
          (traverseAndMark MemDb_DB (smt_Db s) root {}))"

section \<open>The nodes a traversal reaches\<close>

primrec skel :: "hash \<Rightarrow> tree \<Rightarrow> nat \<Rightarrow> NodeKey set" where
  "skel H Empty d = {}"
| "skel H (Leaf k v) d = {root_hash H (Leaf k v) d}"
| "skel H (Branch l r) d = Set.insert (root_hash H (Branch l r) d) (skel H l (Suc d) \<union> skel H r (Suc d))"

lemma skel_sub:
  "h \<in> skel H t d \<Longrightarrow>
   \<exists>w e. root_hash H w e = h \<and> set (tree_nodes H w e) \<subseteq> set (tree_nodes H t d) \<and> skel H w e \<subseteq> skel H t d \<and> w \<noteq> Empty"
proof (induction t arbitrary: d)
  case (Leaf k v)
  then show ?case by (intro exI [of _ "Leaf k v"] exI [of _ d]) simp
next
  case (Branch l r)
  from Branch.prems consider "h = root_hash H (Branch l r) d" | "h \<in> skel H l (Suc d)" | "h \<in> skel H r (Suc d)" by auto
  then show ?case
  proof cases
    case 1
    then show ?thesis by (intro exI [of _ "Branch l r"] exI [of _ d]) auto
  next
    case 2
    from Branch.IH(1) [OF this] obtain w e where "root_hash H w e = h" "w \<noteq> Empty"
      "set (tree_nodes H w e) \<subseteq> set (tree_nodes H l (Suc d))" "skel H w e \<subseteq> skel H l (Suc d)" by blast
    then show ?thesis by (intro exI [of _ w] exI [of _ e]) auto
  next
    case 3
    from Branch.IH(2) [OF this] obtain w e where "root_hash H w e = h" "w \<noteq> Empty"
      "set (tree_nodes H w e) \<subseteq> set (tree_nodes H r (Suc d))" "skel H w e \<subseteq> skel H r (Suc d)" by blast
    then show ?thesis by (intro exI [of _ w] exI [of _ e]) auto
  qed
qed simp

text \<open>
  Without collisions subtrees with the same hash have the same shape, so a node never has the
  hash of one of its ancestors.
\<close>

definition no_collisions :: "hash \<Rightarrow> (uint64 list \<times> NodeKey) set \<Rightarrow> bool" where
  "no_collisions H N \<longleftrightarrow> inj_on (\<lambda>(x, c). H x c) N \<and> nonzero_nodes H N"

lemma same_input: "no_collisions H N \<Longrightarrow> (x, c) \<in> N \<Longrightarrow> (y, e) \<in> N \<Longrightarrow> H x c = H y e \<Longrightarrow> x = y \<and> c = e"
  unfolding no_collisions_def using inj_onD [of "\<lambda>(x, c). H x c" N "(x, c)" "(y, e)"] by auto

lemma zero_iff: "no_collisions H N \<Longrightarrow> set (tree_nodes H t d) \<subseteq> N \<Longrightarrow> root_hash H t d = NodeKey 0 0 0 0 \<longleftrightarrow> t = Empty"
  unfolding no_collisions_def by (intro root_hash_zero) (blast intro: nonzero_nodes_subset)

lemma twins:
  assumes N: "no_collisions H N"
  shows "set (tree_nodes H u d) \<subseteq> N \<Longrightarrow> set (tree_nodes H u' d') \<subseteq> N \<Longrightarrow> root_hash H u d = root_hash H u' d' \<Longrightarrow>
   height u = height u' \<and> skel H u d = skel H u' d'"
proof (induction u arbitrary: d u' d')
  case Empty
  then show ?case using zero_iff [OF N, of u' d'] by simp
next
  case (Leaf k v)
  then show ?case
  proof (cases u')
    case Empty
    then show ?thesis using Leaf zero_iff [OF N, of "SmtTree.Leaf k v" d] by simp
  next
    case (Branch l' r')
    then show ?thesis using Leaf same_input [OF N, of _ LeafCapacity _ BranchCapacity]
      by (auto simp: LeafCapacity_def BranchCapacity_def)
  qed simp
next
  case (Branch l r)
  show ?case
  proof (cases u')
    case Empty
    then show ?thesis using Branch zero_iff [OF N, of "SmtTree.Branch l r" d] by simp
  next
    case (Leaf k' v')
    then show ?thesis using Branch same_input [OF N, of _ BranchCapacity _ LeafCapacity]
      by (auto simp: LeafCapacity_def BranchCapacity_def)
  next
    case B: (Branch l' r')
    have "nk_list (root_hash H l (Suc d)) @ nk_list (root_hash H r (Suc d)) =
        nk_list (root_hash H l' (Suc d')) @ nk_list (root_hash H r' (Suc d'))"
      using same_input [OF N, of _ BranchCapacity _ BranchCapacity] Branch.prems by (simp add: B)
    then have eq: "root_hash H l (Suc d) = root_hash H l' (Suc d')" "root_hash H r (Suc d) = root_hash H r' (Suc d')"
      by simp_all
    have "height l = height l' \<and> skel H l (Suc d) = skel H l' (Suc d')" "height r = height r' \<and> skel H r (Suc d) = skel H r' (Suc d')"
      using Branch.prems B eq by (intro Branch.IH; simp)+
    then show ?thesis using Branch.prems(3) by (simp add: B)
  qed
qed

text \<open>A visited node of a height below \<open>m\<close> is not being processed: all nodes below it are visited.\<close>

definition done_below :: "hash \<Rightarrow> (uint64 list \<times> NodeKey) set \<Rightarrow> nat \<Rightarrow> string set \<Rightarrow> bool" where
  "done_below H N m V \<longleftrightarrow> (\<forall>u d. set (tree_nodes H u d) \<subseteq> N \<longrightarrow> height u < m \<longrightarrow>
     hexKey (root_hash H u d) \<in> V \<longrightarrow> hexKey ` skel H u d \<subseteq> V)"

lemma done_union:
  assumes N: "no_collisions H N" and "done_below H N m V" "set (tree_nodes H t d) \<subseteq> N"
  shows "done_below H N m (V \<union> hexKey ` skel H t d)"
  unfolding done_below_def
proof (intro allI impI)
  fix u e assume u: "set (tree_nodes H u e) \<subseteq> N" "height u < m" "hexKey (root_hash H u e) \<in> V \<union> hexKey ` skel H t d"
  show "hexKey ` skel H u e \<subseteq> V \<union> hexKey ` skel H t d"
  proof (cases "hexKey (root_hash H u e) \<in> V")
    case True
    then show ?thesis using assms(2) u unfolding done_below_def by blast
  next
    case False
    then have "root_hash H u e \<in> skel H t d" using u(3) by auto
    from skel_sub [OF this] obtain w f where w: "root_hash H w f = root_hash H u e"
      "set (tree_nodes H w f) \<subseteq> set (tree_nodes H t d)" "skel H w f \<subseteq> skel H t d" by blast
    then have "skel H u e = skel H w f" using twins [OF N u(1), of w f] assms(3) by auto
    then show ?thesis using w(3) by blast
  qed
qed

lemma mark_step:
  "mark_action prefix k v V = (if hexKey k \<in> V then Inr (False, V) else Inr (True, Set.insert (hexKey k) V))"
  by (simp add: mark_action_def hexKey_def NodeKey_ToBigInt_def Let_def)

lemma mark_visit:
  assumes N: "no_collisions H N"
  shows "set (tree_nodes H t d) \<subseteq> N \<Longrightarrow> height t < m \<Longrightarrow> done_below H N m V \<Longrightarrow>
   visit H mark_action t d p V = Inr (V \<union> hexKey ` skel H t d)"
proof (induction t arbitrary: d m p V)
  case (Leaf k v)
  then show ?case by (auto simp: mark_step)
next
  case (Branch l r)
  let ?h = "root_hash H (Branch l r) d"
  have sub: "set (tree_nodes H l (Suc d)) \<subseteq> N" "set (tree_nodes H r (Suc d)) \<subseteq> N" using Branch.prems(1) by auto
  show ?case
  proof (cases "hexKey ?h \<in> V")
    case True
    then have "hexKey ` skel H (Branch l r) d \<subseteq> V"
      using Branch.prems unfolding done_below_def by blast
    then show ?thesis using True by (auto simp: mark_step)
  next
    case False
    let ?V = "Set.insert (hexKey ?h) V" and ?m = "height (Branch l r)"
    have d1: "done_below H N ?m ?V"
      unfolding done_below_def
    proof (intro allI impI)
      fix u e assume u: "set (tree_nodes H u e) \<subseteq> N" "height u < ?m" "hexKey (root_hash H u e) \<in> ?V"
      have "root_hash H u e \<noteq> ?h" using twins [OF N u(1) Branch.prems(1)] u(2) by auto
      then have "hexKey (root_hash H u e) \<in> V" "height u < m" using u(2,3) Branch.prems(2) by simp_all
      then have "hexKey ` skel H u e \<subseteq> V" using u(1) Branch.prems(3) unfolding done_below_def by blast
      then show "hexKey ` skel H u e \<subseteq> ?V" by blast
    qed
    have "visit H mark_action l (Suc d) (p @ [0]) ?V = Inr (?V \<union> hexKey ` skel H l (Suc d))"
      using d1 by (intro Branch.IH(1) [OF sub(1), of ?m]) simp_all
    moreover have "visit H mark_action r (Suc d) (p @ [1]) (?V \<union> hexKey ` skel H l (Suc d)) =
        Inr (?V \<union> hexKey ` skel H l (Suc d) \<union> hexKey ` skel H r (Suc d))"
      using done_union [OF N d1 sub(1)] by (intro Branch.IH(2) [OF sub(2), of ?m]) simp_all
    moreover have "mark_action p ?h nv V = Inr (True, ?V)" for nv using False by (simp add: mark_step)
    ultimately show ?thesis by (simp add: image_Un Un_assoc)
  qed
qed simp

section \<open>Properties\<close>

lemma MemDb_nodes_restrict:
  "MemDb_nodes (m\<lparr>Db := Db m |` Set.insert (hexKey r) (- dom (Db m) \<union> hexKey ` A)\<rparr>) = MemDb_nodes m |` Set.insert r A"
proof
  fix k
  show "MemDb_nodes (m\<lparr>Db := Db m |` Set.insert (hexKey r) (- dom (Db m) \<union> hexKey ` A)\<rparr>) k = (MemDb_nodes m |` Set.insert r A) k"
    by (cases "Db m (hexKey k)") (auto simp: MemDb_nodes_def restrict_map_def)
qed

lemma CheckOrphanedNodes_restricts:
  assumes "holds H s es" "collision_free H es"
  shows "\<exists>n s'. CheckOrphanedNodes s = Some (Inr (n, s')) \<and> MemDb_ok (smt_Db s') \<and>
    n = card (dom (Db (smt_Db s)) - hexKey ` skel H (smt_tree 0 es) 0) \<and>
    LastRoot (smt_Db s') = LastRoot (smt_Db s) \<and>
    MemDb_nodes (smt_Db s') = MemDb_nodes (smt_Db s) |` Set.insert (hash_of H 0 es) (skel H (smt_tree 0 es) 0)"
proof -
  have s: "MemDb_ok (smt_Db s)" "LastRoot (smt_Db s) = NodeKey_ToBigInt (hash_of H 0 es)"
    "stored H (MemDb_nodes (smt_Db s)) (nodes_of H 0 es)" using assms(1) by (simp_all add: holds_state_def)
  have N: "no_collisions H (nodes_of H 0 es)" using assms(2) by (simp add: collision_free_def no_collisions_def)
  have "visit H mark_action (smt_tree 0 es) 0 [] {} = Inr (hexKey ` skel H (smt_tree 0 es) 0)"
    using mark_visit [OF N, of "smt_tree 0 es" 0 "Suc (height (smt_tree 0 es))" "{}" "[]"]
    by (simp add: nodes_of_def done_below_def)
  then have "traverseAndMark MemDb_DB (smt_Db s) (LastRoot (smt_Db s)) {} = Some (Inr (hexKey ` skel H (smt_tree 0 es) 0))"
    using memdb.Traverse_tree [OF s(1,3), of mark_action "{}"] assms(2) s(2)
    by (simp add: traverseAndMark_def collision_free_def)
  moreover have "ConvertBigIntToHex (LastRoot (smt_Db s)) = hexKey (hash_of H 0 es)"
    by (simp add: s(2) hexKey_def NodeKey_ToBigInt_def)
  moreover have "MemDb_ok (m\<lparr>Db := Db m |` A\<rparr>)" if "MemDb_ok m" for m A
    using that by (simp add: MemDb_ok_def restrict_map_def)
  ultimately show ?thesis
    using s(1) by (simp add: CheckOrphanedNodes_def MemDb_GetLastRoot_def Let_def MemDb_nodes_restrict)
qed

lemma value_bytes_missing:
  assumes "MemDb_ok m" "MemDb_nodes m h = None"
  shows "value_bytes MemDb_DB m h = Inl (Panic ''nil pointer dereference'')"
  using MemDb_Get_ok [OF assms(1), of h] assms(2)
  by (simp add: value_bytes_def MemDb_DB_def GetNodeValue8_def BigIntArrayFromNodeValue8_def ArrayBigToScalar_def
      copy_array_def eval_nat_numeral)

text \<open>
  C7. Removing orphaned nodes is exact on branches and leaves and loses values: on a tree without
  collisions the check ends, the nodes that stay are those of the old database that are branches or
  leaves of the tree (or stored under the root), and the value of an entry, unless it happens to be
  stored under the hash of such a node, is gone: reading it panics on a nil pointer.
\<close>

theorem CheckOrphanedNodes_keeps_nodes_loses_values:
  assumes "holds H s es" "collision_free H es"
  shows "\<exists>n s'. CheckOrphanedNodes s = Some (Inr (n, s')) \<and>
    MemDb_nodes (smt_Db s') = MemDb_nodes (smt_Db s) |` Set.insert (hash_of H 0 es) (skel H (smt_tree 0 es) 0) \<and>
    (\<forall>(k, v)\<in>set es. H v BranchCapacity \<notin> Set.insert (hash_of H 0 es) (skel H (smt_tree 0 es) 0) \<longrightarrow>
      value_bytes MemDb_DB (smt_Db s') (H v BranchCapacity) = Inl (Panic ''nil pointer dereference''))"
proof -
  obtain n s' where s': "CheckOrphanedNodes s = Some (Inr (n, s'))" "MemDb_ok (smt_Db s')"
    "MemDb_nodes (smt_Db s') = MemDb_nodes (smt_Db s) |` Set.insert (hash_of H 0 es) (skel H (smt_tree 0 es) 0)"
    using CheckOrphanedNodes_restricts [OF assms] by blast
  then have "value_bytes MemDb_DB (smt_Db s') h = Inl (Panic ''nil pointer dereference'')"
    if "h \<notin> Set.insert (hash_of H 0 es) (skel H (smt_tree 0 es) 0)" for h
    using that by (intro value_bytes_missing) simp_all
  then show ?thesis using s'(1,3) by auto
qed

theorem CheckOrphanedNodes_keeps_nodes_loses_values_witness:
  "\<exists>(s :: MemDb SMT) n s'. holds toy_hash s [(NodeKey 0 0 0 0, [5, 0, 0, 0, 0, 0, 0, 0])] \<and> CheckOrphanedNodes s = Some (Inr (n, s')) \<and>
    value_bytes MemDb_DB (smt_Db s') (NodeKey 1 5 0 0) = Inl (Panic ''nil pointer dereference'')"
proof -
  obtain s where s: "holds toy_hash s [(NodeKey 0 0 0 0, [5, 0, 0, 0, 0, 0, 0, 0])]" using toy_state(2) by blast
  have h: "toy_hash [5, 0, 0, 0, 0, 0, 0, 0] BranchCapacity = NodeKey 1 5 0 0" by (simp add: toy_hash_def BranchCapacity_def)
  from CheckOrphanedNodes_keeps_nodes_loses_values [OF s toy_collision_free(2)] s
  show ?thesis by (auto simp: h) (auto simp: toy_hash_def LeafCapacity_def)
qed

end
