(* ===== verification/SmtTypes.thy ===== *)
theory SmtTypes
  imports SmtInsert
begin

text \<open>
  What an insertion keeps without any assumption on the hash, the tree or the root it starts from:
  the database stays well formed, the flag of the tree and the recorded root stay as they are, and no
  node is ever lost (nodes are only added or overwritten, never removed). The lemmas follow the
  functions of \<open>smt/pkg/smt/smt.go\<close> in the locale \<open>node_db\<close>.
\<close>

definition grows ::
  "('a \<Rightarrow> bool) \<Rightarrow> ('a \<Rightarrow> NodeKey \<rightharpoonup> NodeValue12) \<Rightarrow> ('a \<Rightarrow> int) \<Rightarrow> 'a SMT \<Rightarrow> 'a SMT \<Rightarrow> bool" where
  "grows ok nodes last_root s s' \<longleftrightarrow>
     (ok (smt_Db s) \<longrightarrow> ok (smt_Db s') \<and> noSaveOnInsert s' = noSaveOnInsert s \<and>
      last_root (smt_Db s') = last_root (smt_Db s) \<and> dom (nodes (smt_Db s)) \<subseteq> dom (nodes (smt_Db s')))"

lemma grows_refl [simp]: "grows ok nodes last_root s s"
  by (simp add: grows_def)

lemma grows_trans [trans]:
  "grows ok nodes last_root s s' \<Longrightarrow> grows ok nodes last_root s' s'' \<Longrightarrow> grows ok nodes last_root s s''"
  unfolding grows_def by (metis subset_trans)

lemma set_words_8: "length x = 8 \<Longrightarrow> b \<le> Suc 0 \<Longrightarrow> length (set_words x b h) = 8"
  by (simp add: set_words_def nk_list_def)

lemma length_ConcatArrays4: "length (ConcatArrays4 a b) = 8"
  by (simp add: ConcatArrays4_def nk_list_def)

lemma path_le_1: "idx (GetPath k) i = Inr b \<Longrightarrow> b \<le> Suc 0"
  by (auto simp: idx_def GetPath_nth split: if_splits)

lemma length_NodeValue8: "NodeValue8FromBigIntArray xs = Inr v \<Longrightarrow> length (ToUintArray (Some v)) = 8"
  by (auto simp: NodeValue8FromBigIntArray_def copy_array_def ToUintArray_def split: if_splits)

lemma wrapped_error:
  "(case r of Inl (Err e) \<Rightarrow> Inl (Err (f e)) | Inl (Panic e) \<Rightarrow> Inl (Panic e) | Inr x \<Rightarrow> Inr x) = Inr y \<longleftrightarrow> r = Inr y"
  by (auto split: sum.splits error.splits)

context node_db
begin

lemma hashSave_grows:
  assumes "hashSave D s x c h = Inr s'" "length x = 8"
  shows "grows ok nodes last_root s s'"
proof (cases "noSaveOnInsert s \<or> \<not> ok (smt_Db s)")
  case False
  then obtain db where "DB_Insert D (smt_Db s) h (node12 x c) = Inr db" "ok db"
    "nodes db = (nodes (smt_Db s))(h \<mapsto> node12 x c)" "last_root db = last_root (smt_Db s)"
    using Insert proper_node [OF assms(2)] by blast
  then show ?thesis using assms(1) False by (auto simp: hashSave_def grows_def)
qed (use assms in \<open>auto simp: hashSave_def grows_def\<close>)

lemma hashcalcAndSave_grows:
  "hashcalcAndSave H D s x c = Inr (h, s') \<Longrightarrow> length x = 8 \<Longrightarrow> grows ok nodes last_root s s'"
  by (auto simp: hashcalcAndSave_def Let_def rbind_eq_Inr hashSave_grows)

lemma insertHashKey_grows: "insertHashKey D s h k = Inr s' \<Longrightarrow> grows ok nodes last_root s s'"
  using InsertHashKey [of "smt_Db s" h k] by (auto simp: insertHashKey_def rbind_eq_Inr grows_def)

lemma tryInsertHashKey_grows: "tryInsertHashKey D s h k = Inr s' \<Longrightarrow> grows ok nodes last_root s s'"
  by (auto simp: tryInsertHashKey_def insertHashKey_grows split: sum.splits error.splits)

lemma saveValue_grows:
  "saveValue H D s v h = Inr (h', s') \<Longrightarrow> length v = 8 \<Longrightarrow> grows ok nodes last_root s s'"
  by (auto simp: saveValue_def rbind_eq_Inr ToUintArray_def split: if_splits intro: hashcalcAndSave_grows hashSave_grows)

lemmas save_grows = hashcalcAndSave_grows insertHashKey_grows tryInsertHashKey_grows saveValue_grows

lemma updateDepth_grows: "updateDepth D s n = Inr s' \<Longrightarrow> grows ok nodes last_root s s'"
  using SetDepth [of "smt_Db s" "of_nat (min n 255)"]
  by (auto simp: updateDepth_def rbind_eq_Inr Let_def grows_def split: if_splits sum.splits error.splits)

lemma chain_loop_grows:
  "chain_loop H D (GetPath k) base n r s = Inr (r', s') \<Longrightarrow> grows ok nodes last_root s s'"
proof (induction n arbitrary: r s)
  case (Suc n)
  then obtain b r1 s1 where 1: "idx (GetPath k) (base + n) = Inr b"
    "hashcalcAndSave H D s (set_words (replicate 8 0) b r) BranchCapacity = Inr (r1, s1)"
    "chain_loop H D (GetPath k) base n r1 s1 = Inr (r', s')"
    by (auto simp: rbind_eq_Inr)
  have "grows ok nodes last_root s s1" using 1(2) path_le_1 [OF 1(1)] by (simp add: save_grows set_words_8)
  then show ?case using Suc.IH [OF 1(3)] by (rule grows_trans)
qed simp

lemma insert_update_grows:
  assumes "insert_update H D s k v h rk = Inr (l, s')" "length v = 8"
  shows "grows ok nodes last_root s s'"
proof -
  obtain h1 s1 s2 where 1: "saveValue H D s v h = Inr (h1, s1)"
    "hashcalcAndSave H D s1 (ConcatArrays4 rk h1) LeafCapacity = Inr (l, s2)" "insertHashKey D s2 l k = Inr s'"
    using assms(1) by (auto simp: insert_update_def rbind_eq_Inr)
  have "grows ok nodes last_root s s1" using 1(1) assms(2) by (rule saveValue_grows)
  also have "grows ok nodes last_root s1 s2" using 1(2) by (rule hashcalcAndSave_grows) (rule length_ConcatArrays4)
  also have "grows ok nodes last_root s2 s'" using 1(3) by (rule insertHashKey_grows)
  finally show ?thesis .
qed

lemma save_leaf_grows:
  assumes "hashcalcAndSave H D s (ConcatArrays4 rk h) LeafCapacity = Inr (l, s1)" "tryInsertHashKey D s1 l k = Inr s'"
  shows "grows ok nodes last_root s s'"
  using hashcalcAndSave_grows [OF assms(1) length_ConcatArrays4] tryInsertHashKey_grows [OF assms(2)] by (rule grows_trans)

lemma insert_notFound_grows:
  assumes "insert_notFound H D s k v h level = Inr (l, s')" "length v = 8"
  shows "grows ok nodes last_root s s'"
proof -
  obtain h1 s1 s2 where 1: "saveValue H D s v h = Inr (h1, s1)"
    "hashcalcAndSave H D s1 (ConcatArrays4 (RemoveKeyBits k (nat (level + 1))) h1) LeafCapacity = Inr (l, s2)"
    "tryInsertHashKey D s2 l k = Inr s'"
    using assms(1) by (auto simp: insert_notFound_def rbind_eq_Inr Let_def)
  show ?thesis using saveValue_grows [OF 1(1) assms(2)] save_leaf_grows [OF 1(2,3)] by (rule grows_trans)
qed

lemma insert_found_grows:
  assumes "insert_found H D s k v h level fk fh = Inr (r, s')" "length v = 8"
  shows "grows ok nodes last_root s s'"
proof -
  define L where "L = common_level (GetPath k) (GetPath fk) (nat (level + 1))"
  obtain l1 s1 s2 h1 s3 l2 s4 s5 b b' r2 s6 where
    1: "hashcalcAndSave H D s (ConcatArrays4 (RemoveKeyBits fk (L + 1)) fh) LeafCapacity = Inr (l1, s1)"
      "tryInsertHashKey D s1 l1 fk = Inr s2"
    and 2: "saveValue H D s2 v h = Inr (h1, s3)"
    and 3: "hashcalcAndSave H D s3 (ConcatArrays4 (RemoveKeyBits k (L + 1)) h1) LeafCapacity = Inr (l2, s4)"
      "tryInsertHashKey D s4 l2 k = Inr s5"
    and 4: "idx (GetPath k) L = Inr b" "idx (GetPath fk) L = Inr b'"
      "hashcalcAndSave H D s5 (set_words (set_words (replicate 8 0) b l2) b' l1) BranchCapacity = Inr (r2, s6)"
    and 5: "chain_loop H D (GetPath k) (nat (level + 1)) (L - nat (level + 1)) r2 s6 = Inr (r, s')"
    using assms(1) unfolding insert_found_def Let_def L_def [symmetric] by (auto simp: rbind_eq_Inr)
  note save_leaf_grows [OF 1]
  also note saveValue_grows [OF 2 assms(2)]
  also note save_leaf_grows [OF 3]
  also have "grows ok nodes last_root s5 s6"
    using path_le_1 [OF 4(1)] path_le_1 [OF 4(2)]
    by (intro hashcalcAndSave_grows [OF 4(3)] set_words_8 length_replicate)
  also note chain_loop_grows [OF 5]
  finally show ?thesis .
qed

lemma insert_delete_grows:
  assumes "insert_delete H D s keys level used sib root = Inr (l, sib', root', mode, s')"
  shows "grows ok nodes last_root s s'"
  using assms
  by (auto simp: insert_delete_def rbind_eq_Inr Let_def case_prod_beta split: if_splits intro: save_leaf_grows)

lemma insert_modes_grows:
  assumes "insert_modes H D s k v h root used sib found = Inr (l, sib', root', mode, s')" "length v = 8"
  shows "grows ok nodes last_root s s'"
  using assms
  by (auto simp: insert_modes_def rbind_eq_Inr Let_def case_prod_beta split: if_splits option.splits
      intro: insert_update_grows insert_found_grows insert_notFound_grows insert_delete_grows)

lemma climb_loop_grows:
  "climb_loop H D keys n sib root s = Inr (root', s') \<Longrightarrow> grows ok nodes last_root s s'"
proof (induction n arbitrary: sib root s)
  case (Suc n)
  then obtain v c r1 s1 where 1: "NodeValue8FromBigIntArray (take 8 (sib ! n)) = Inr v"
    "hashcalcAndSave H D s (ToUintArray (Some v)) c = Inr (r1, s1)"
    "climb_loop H D keys n (fst (link keys (int n - 1) r1 sib r1)) r1 s1 = Inr (root', s')"
    by (auto simp: rbind_eq_Inr)
  show ?case using hashcalcAndSave_grows [OF 1(2) length_NodeValue8 [OF 1(1)]] Suc.IH [OF 1(3)] by (rule grows_trans)
qed simp

lemma smt_insert_grows:
  assumes "smt_insert H D s k v h root = Inr (resp, s')" "length v = 8"
  shows "grows ok nodes last_root s s'"
proof -
  obtain used sib found l sib' root' mode s1 s2 n where 1:
    "insert_modes H D s k v h root used sib found = Inr (l, sib', root', mode, s1)"
    "updateDepth D s1 n = Inr s2"
    "climb_loop H D (GetPath k) (nat (l + 1)) (RemoveOver sib' (nat (l + 1))) root' s2 = Inr (NewRootScalar resp, s')"
    using assms(1) by (auto simp: smt_insert_def rbind_eq_Inr Let_def wrapped_error)
  note insert_modes_grows [OF 1(1) assms(2)]
  also note updateDepth_grows [OF 1(2)]
  also note climb_loop_grows [OF 1(3)]
  finally show ?thesis .
qed

lemma insertSingle_keeps:
  assumes "insertSingle H D s k v h = Inr (resp, s')" "length v = 8" "ok (smt_Db s)"
  shows "ok (smt_Db s') \<and> noSaveOnInsert s' = noSaveOnInsert s \<and>
    last_root (smt_Db s') = NodeKey_ToBigInt (NewRootScalar resp) \<and> dom (nodes (smt_Db s)) \<subseteq> dom (nodes (smt_Db s'))"
proof -
  obtain root s1 where 1: "smt_insert H D s k v h root = Inr (resp, s1)" "setLastRoot D s1 (NewRootScalar resp) = Inr s'"
    using assms(1) by (auto simp: insertSingle_def rbind_eq_Inr)
  have g: "ok (smt_Db s1)" "noSaveOnInsert s1 = noSaveOnInsert s" "dom (nodes (smt_Db s)) \<subseteq> dom (nodes (smt_Db s1))"
    using smt_insert_grows [OF 1(1) assms(2)] assms(3) by (simp_all add: grows_def)
  obtain db where "DB_SetLastRoot D (smt_Db s1) (NodeKey_ToBigInt (NewRootScalar resp)) = Inr db" "ok db"
    "nodes db = nodes (smt_Db s1)" "last_root db = NodeKey_ToBigInt (NewRootScalar resp)"
    using SetLastRoot [OF g(1)] by blast
  moreover from this have "s' = s1\<lparr>smt_Db := db\<rparr>" using 1(2) by (simp add: setLastRoot_def)
  ultimately show ?thesis using g(2,3) by simp
qed

end

section \<open>The states of a tree over the in-memory database\<close>

text \<open>
  Every state that the operations on a tree over a fresh in-memory database can lead to, in any order,
  with any hash function and with the flag the tree was made with. An insertion starts at any root,
  with any precomputed hash of the value (\<open>Insert\<close>, \<open>InsertKA\<close>, \<open>InsertBI\<close> and \<open>InsertStorage\<close> are
  such insertions followed by a change of the recorded root), and everything the database offers
  to change its tables is a step. A \<open>NodeValue8\<close> and a \<open>NodeValue12\<close> of the code are arrays of eight and
  twelve elements.
\<close>

inductive smt_state :: "hash \<Rightarrow> bool \<Rightarrow> MemDb SMT \<Rightarrow> bool" for H flag where
  new: "smt_state H flag (NewSMT NewMemDb flag)"
| insert: "smt_state H flag s \<Longrightarrow> length v = 8 \<Longrightarrow> smt_insert H MemDb_DB s k v h root = Inr (resp, s') \<Longrightarrow> smt_state H flag s'"
| set_root: "smt_state H flag s \<Longrightarrow> MemDb_SetLastRoot (smt_Db s) r = Inr db \<Longrightarrow> smt_state H flag (s\<lparr>smt_Db := db\<rparr>)"
| set_depth: "smt_state H flag s \<Longrightarrow> MemDb_SetDepth (smt_Db s) d = Inr db \<Longrightarrow> smt_state H flag (s\<lparr>smt_Db := db\<rparr>)"
| db_insert: "smt_state H flag s \<Longrightarrow> length x = 12 \<Longrightarrow> MemDb_Insert (smt_Db s) k x = Inr db \<Longrightarrow> smt_state H flag (s\<lparr>smt_Db := db\<rparr>)"
| db_account: "smt_state H flag s \<Longrightarrow> MemDb_InsertAccountValue (smt_Db s) k av = Inr db \<Longrightarrow> smt_state H flag (s\<lparr>smt_Db := db\<rparr>)"
| db_source: "smt_state H flag s \<Longrightarrow> MemDb_InsertKeySource (smt_Db s) k ks = Inr db \<Longrightarrow> smt_state H flag (s\<lparr>smt_Db := db\<rparr>)"
| db_hash_key: "smt_state H flag s \<Longrightarrow> MemDb_InsertHashKey (smt_Db s) h k = Inr db \<Longrightarrow> smt_state H flag (s\<lparr>smt_Db := db\<rparr>)"
| db_delete: "smt_state H flag s \<Longrightarrow> smt_state H flag (s\<lparr>smt_Db := MemDb_Delete (smt_Db s) key\<rparr>)"
| db_delete_node: "smt_state H flag s \<Longrightarrow> smt_state H flag (s\<lparr>smt_Db := MemDb_DeleteByNodeKey (smt_Db s) k\<rparr>)"
| db_delete_source: "smt_state H flag s \<Longrightarrow> smt_state H flag (s\<lparr>smt_Db := MemDb_DeleteKeySource (smt_Db s) k\<rparr>)"
| db_delete_hash_key: "smt_state H flag s \<Longrightarrow> smt_state H flag (s\<lparr>smt_Db := MemDb_DeleteHashKey (smt_Db s) k\<rparr>)"

lemma length_write_values: "write_values vs = Inr ss \<Longrightarrow> length ss = length vs"
  by (induction vs arbitrary: ss) (auto simp: rbind_eq_Inr)

lemma smt_state_ok: "smt_state H flag s \<Longrightarrow> MemDb_ok (smt_Db s) \<and> noSaveOnInsert s = flag"
proof (induction rule: smt_state.induct)
  case (insert s v k h root resp s')
  then show ?case using memdb.smt_insert_grows [OF insert(3,2)] by (simp add: grows_def)
qed (auto simp: MemDb_ok_def NewSMT_def NewMemDb_def MemDb_SetLastRoot_def MemDb_SetDepth_def MemDb_Insert_def
    MemDb_InsertAccountValue_def MemDb_InsertKeySource_def MemDb_InsertHashKey_def MemDb_Delete_def
    MemDb_DeleteByNodeKey_def MemDb_DeleteKeySource_def MemDb_DeleteHashKey_def rbind_eq_Inr length_write_values split: if_splits)

lemma MemDb_Get_cases:
  assumes "MemDb_ok m"
  shows "\<exists>x. MemDb_Get m n = Inr x \<and> length x = 12 \<and> (x = replicate 12 None \<or> None \<notin> set x) \<and>
    (None \<notin> set x \<longleftrightarrow> n \<in> dom (MemDb_nodes m))"
  using assms by (auto simp: MemDb_Get_ok MemDb_nodes_def MemDb_ok_def split: option.splits)

section \<open>Properties\<close>

text \<open>
  C8. Well-typedness of the tree under insertion, in every state that the operations on a tree over a
  fresh in-memory database lead to, for every hash function (collisions included) and every recorded
  root: reading a node returns twelve elements, all nil (no such node) or all numbers. When \<open>Insert\<close>
  of eight limbs returns, that still holds, the flag is the one the tree was made with, the recorded
  root is the root of the response, and no node has been lost: where twelve numbers were read before,
  twelve numbers are read.
\<close>

theorem Insert_keeps_types:
  assumes "smt_state H flag s" "length v = 8" "SMT_Insert H MemDb_DB s k v = Inr (resp, s')"
  shows "noSaveOnInsert s' = flag \<and> LastRoot (smt_Db s') = NodeKey_ToBigInt (NewRootScalar resp) \<and>
    (\<exists>x y. MemDb_Get (smt_Db s) n = Inr x \<and> MemDb_Get (smt_Db s') n = Inr y \<and> length x = 12 \<and> length y = 12 \<and>
      (x = replicate 12 None \<or> None \<notin> set x) \<and> (y = replicate 12 None \<or> None \<notin> set y) \<and>
      (None \<notin> set x \<longrightarrow> None \<notin> set y))"
proof -
  have s: "MemDb_ok (smt_Db s)" "noSaveOnInsert s = flag" using smt_state_ok [OF assms(1)] by simp_all
  have s': "MemDb_ok (smt_Db s')" "noSaveOnInsert s' = noSaveOnInsert s"
    "LastRoot (smt_Db s') = NodeKey_ToBigInt (NewRootScalar resp)"
    "dom (MemDb_nodes (smt_Db s)) \<subseteq> dom (MemDb_nodes (smt_Db s'))"
    using memdb.insertSingle_keeps [OF assms(3) [unfolded SMT_Insert_def] assms(2) s(1)] by simp_all
  from MemDb_Get_cases [OF s(1), of n] MemDb_Get_cases [OF s'(1), of n] s'(4)
  show ?thesis unfolding s'(2,3) s(2) by blast
qed

theorem Insert_keeps_types_witness:
  "\<exists>r1 s1 r2 s2. SMT_Insert toy_hash MemDb_DB (NewSMT NewMemDb False) (NodeKey 0 0 0 0) (toy_value 5) = Inr (r1, s1) \<and>
    SMT_Insert toy_hash MemDb_DB s1 (NodeKey 1 0 0 0) (toy_value 7) = Inr (r2, s2) \<and>
    LastRoot (smt_Db s2) = NodeKey_ToBigInt (NewRootScalar r2) \<and>
    (\<exists>x y. MemDb_Get (smt_Db s1) (NodeKey 1 2 3 4) = Inr x \<and> MemDb_Get (smt_Db s2) (NodeKey 1 2 3 4) = Inr y \<and>
      length x = 12 \<and> length y = 12)"
proof -
  have v: "length (toy_value n) = 8" "None \<notin> set (toy_value n)" for n by (simp_all add: toy_value_def)
  obtain r1 s1 where s1: "SMT_Insert toy_hash MemDb_DB (NewSMT NewMemDb False) (NodeKey 0 0 0 0) (toy_value 5) = Inr (r1, s1)"
    "holds toy_hash s1 [(NodeKey 0 0 0 0, [5, 0, 0, 0, 0, 0, 0, 0])]"
    using SMT_Insert_holds [OF holds_empty toy_collision_free(1) v refl, of "NodeKey 0 0 0 0" 5] toy_collision_free(2)
    unfolding toy_update by blast
  obtain r2 s2 where s2: "SMT_Insert toy_hash MemDb_DB s1 (NodeKey 1 0 0 0) (toy_value 7) = Inr (r2, s2)"
    using SMT_Insert_holds [OF s1(2) toy_collision_free(2) v refl, of "NodeKey 1 0 0 0" 7] toy_collision_free(3)
    unfolding toy_update by blast
  obtain root t where t: "smt_insert toy_hash MemDb_DB (NewSMT NewMemDb False) (NodeKey 0 0 0 0) (toy_value 5) (NodeKey 0 0 0 0) root = Inr (r1, t)"
    "setLastRoot MemDb_DB t (NewRootScalar r1) = Inr s1"
    using s1(1) by (auto simp: SMT_Insert_def insertSingle_def rbind_eq_Inr)
  have "smt_state toy_hash False t" using smt_state.new v(1) t(1) by (rule smt_state.insert)
  then have "smt_state toy_hash False s1"
    using t(2) smt_state.set_root [of toy_hash False t]
    by (auto simp: setLastRoot_def rbind_eq_Inr MemDb_DB_def MemDb_SetLastRoot_def)
  from Insert_keeps_types [OF this v(1) s2, of "NodeKey 1 2 3 4"] s1(1) s2 show ?thesis by blast
qed

end
