(* ===== verification/SmtKeys.thy ===== *)
theory SmtKeys
  imports SmtDb TxTypes
begin

text \<open>
  The keys of the state tree (\<open>smt/pkg/utils/utils.go\<close>): the key of an account field, of a storage
  slot, the source of a key as bytes, the hash of a contract's bytecode in its two versions and the
  code table of the in-memory database (\<open>smt/pkg/db/mem-db.go\<close>). The byte-level version of the
  bytecode hash is shown equal to the string-level one.
\<close>

section \<open>Numbers in strings\<close>

text \<open>\<open>big.Int.SetString\<close> in base 10 or 16: an optional sign and at least one digit.\<close>

definition digit_value :: "nat \<Rightarrow> char \<Rightarrow> nat option" where
  "digit_value base c = (case fromHexChar c of None \<Rightarrow> None | Some d \<Rightarrow> if d < base then Some d else None)"

definition digits_value :: "nat \<Rightarrow> string \<Rightarrow> nat option" where
  "digits_value base s =
     (if s = [] \<or> (\<exists>c\<in>set s. digit_value base c = None) then None
      else Some (foldl (\<lambda>a c. a * base + the (digit_value base c)) 0 s))"

definition big_SetString :: "string \<Rightarrow> nat \<Rightarrow> int option" where
  "big_SetString s base =
     (case s of
        [] \<Rightarrow> None
      | c # cs \<Rightarrow>
          if c = CHR ''-'' then map_option (\<lambda>n. - int n) (digits_value base cs)
          else if c = CHR ''+'' then map_option int (digits_value base cs)
          else map_option int (digits_value base s))"

definition HasPrefix0x :: "string \<Rightarrow> bool" where
  "HasPrefix0x s \<longleftrightarrow> take 2 s = ''0x''"

section \<open>Keys\<close>

definition KEY_BALANCE :: int where "KEY_BALANCE = 0"
definition KEY_NONCE :: int where "KEY_NONCE = 1"
definition SC_CODE :: int where "SC_CODE = 2"
definition SC_STORAGE :: int where "SC_STORAGE = 3"
definition SC_LENGTH :: int where "SC_LENGTH = 4"

definition HASH_POSEIDON_ALL_ZEROES :: string where
  "HASH_POSEIDON_ALL_ZEROES = ''0xc71603f33a1144ca7953db0ab48808f4c4055e3364a246c33c18a9786cb0b359''"

text \<open>\<open>strconv.ParseUint\<close> of sixteen characters in base 16: always in the range of \<open>uint64\<close>.\<close>

definition h4_chunk :: "string \<Rightarrow> nat \<Rightarrow> uint64 result" where
  "h4_chunk s i =
     (case digits_value 16 (take 16 (drop (2 + 16 * i) s)) of
        None \<Rightarrow> Inl (Err ''failed to convert string to uint64'')
      | Some n \<Rightarrow> Inr (of_nat n))"

definition StringToH4 :: "string \<Rightarrow> NodeKey result" where
  "StringToH4 s =
     (if \<not> HasPrefix0x s then Inl (Err ''hexadecimal required'')
      else if length s \<noteq> 66 then Inl (Err ''hexadecimal all digits required'')
      else
        rbind (h4_chunk s 0) (\<lambda>r3. rbind (h4_chunk s 1) (\<lambda>r2. rbind (h4_chunk s 2) (\<lambda>r1.
        rbind (h4_chunk s 3) (\<lambda>r0. Inr (NodeKey r0 r1 r2 r3))))))"

definition Key :: "hash \<Rightarrow> string \<Rightarrow> int \<Rightarrow> NodeKey" where
  "Key hashFunc ethAddr c =
     (let add = ScalarToArrayBig (ConvertHexToBigInt ethAddr);
          key1 = take 6 add @ [Some c, Some 0] in
      case StringToH4 HASH_POSEIDON_ALL_ZEROES of
        Inl _ \<Rightarrow> NodeKey 0 0 0 0
      | Inr key1Capacity \<Rightarrow> Hash hashFunc (ToUintArray (Some key1)) key1Capacity)"

definition KeyEthAddrBalance :: "hash \<Rightarrow> string \<Rightarrow> NodeKey" where
  "KeyEthAddrBalance hashFunc ethAddr = Key hashFunc ethAddr KEY_BALANCE"

definition KeyEthAddrNonce :: "hash \<Rightarrow> string \<Rightarrow> NodeKey" where
  "KeyEthAddrNonce hashFunc ethAddr = Key hashFunc ethAddr KEY_NONCE"

definition KeyContractCode :: "hash \<Rightarrow> string \<Rightarrow> NodeKey" where
  "KeyContractCode hashFunc ethAddr = Key hashFunc ethAddr SC_CODE"

definition KeyContractLength :: "hash \<Rightarrow> string \<Rightarrow> NodeKey" where
  "KeyContractLength hashFunc ethAddr = Key hashFunc ethAddr SC_LENGTH"

definition KeyBig :: "hash \<Rightarrow> bigint \<Rightarrow> int \<Rightarrow> NodeKey result" where
  "KeyBig hashFunc k c =
     (case k of
        None \<Rightarrow> Inl (Err ''nil key'')
      | Some k \<Rightarrow>
          let add = ScalarToArrayBig k;
              key1 = take 6 add @ [Some c, Some 0] in
          rbind (StringToH4 HASH_POSEIDON_ALL_ZEROES) (\<lambda>key1Capacity.
          Inr (Hash hashFunc (ToUintArray (Some key1)) key1Capacity)))"

definition StrValToBigInt :: "string \<Rightarrow> bigint" where
  "StrValToBigInt v = (if HasPrefix0x v then big_SetString (drop 2 v) 16 else big_SetString v 10)"

text \<open>A position that is no number gives a nil pointer, which \<open>ScalarToArrayBig\<close> reads through.\<close>

definition KeyContractStorage :: "hash \<Rightarrow> bigint list \<Rightarrow> string \<Rightarrow> NodeKey result" where
  "KeyContractStorage hashFunc ethAddr storagePosition =
     rbind (deref (StrValToBigInt storagePosition)) (\<lambda>sp.
     case NodeValue8FromBigIntArray (ScalarToArrayBig sp) of
       Inl _ \<Rightarrow> Inr (NodeKey 0 0 0 0)
     | Inr spArray \<Rightarrow>
         let hk0 = Hash hashFunc (ToUintArray (Some spArray)) (NodeKey 0 0 0 0) in
         if length ethAddr < 6 then Inl (Panic ''index out of range'')
         else Inr (Hash hashFunc (ToUintArray (Some (take 6 ethAddr @ [Some SC_STORAGE, Some 0]))) hk0))"

section \<open>Sources of keys\<close>

definition ConvertHexToAddress :: "string \<Rightarrow> Address" where
  "ConvertHexToAddress hex = BytesToAddress (big_Bytes (nat (ConvertHexToBigInt hex)))"

definition EncodeKeySource :: "int \<Rightarrow> Address \<Rightarrow> Hash32 \<Rightarrow> byte list" where
  "EncodeKeySource t accountAddr storagePosition =
     of_int t # accountAddr @ (if t = SC_STORAGE then storagePosition else [])"

definition DecodeKeySource :: "byte list \<Rightarrow> (int \<times> Address \<times> Hash32) result" where
  "DecodeKeySource keySource =
     (if length keySource < 1 + 20 then Inl (Err ''invalid key source length'')
      else
        let t = uint (keySource ! 0);
            accountAddr = BytesToAddress (take 20 (drop 1 keySource)) in
        if t = SC_STORAGE then
          (if length keySource < 1 + 20 + 32 then Inl (Err ''invalid key source length'')
           else Inr (t, accountAddr, BytesToHash (take 32 (drop 21 keySource))))
        else Inr (t, accountAddr, replicate 32 0))"

section \<open>The hash of a bytecode\<close>

definition charToByte :: "char \<Rightarrow> byte" where
  "charToByte c = (case fromHexChar c of Some d \<Rightarrow> of_nat d | None \<Rightarrow> 0)"

definition targetBytesLen :: "nat \<Rightarrow> nat" where
  "targetBytesLen n =
     (let t = n div 2;
          t = (if n mod 2 \<noteq> 0 then t + 1 else t);
          t = t + 1;
          t = (if t mod 56 \<noteq> 0 then t + (56 - t mod 56) else t)
      in t div 7 * 8)"

text \<open>Two characters a byte, and a gap after every seventh byte.\<close>

fun target_loop :: "string \<Rightarrow> byte list \<Rightarrow> nat \<Rightarrow> nat \<Rightarrow> (byte list \<times> nat) result" where
  "target_loop [] targetBytes offset counter = Inr (targetBytes, offset)"
| "target_loop [_] targetBytes offset counter = Inl (Panic ''index out of range'')"
| "target_loop (a # b # cs) targetBytes offset counter =
     rbind (setidx targetBytes offset (push_bit 4 (charToByte a) OR charToByte b)) (\<lambda>targetBytes.
     if counter + 1 = 7 then target_loop cs targetBytes (offset + 1 + 1) 0
     else target_loop cs targetBytes (offset + 1) (counter + 1))"

text \<open>Eight bytes of memory as a word: the node runs on little-endian machines.\<close>

definition le_word :: "byte list \<Rightarrow> uint64" where
  "le_word bs = of_nat (SetBytes (rev bs))"

definition block_words :: "byte list \<Rightarrow> uint64 list" where
  "block_words block = map (\<lambda>w. le_word (take 8 (drop (8 * w) block))) [0..<8]"

function blocks_loop :: "hash \<Rightarrow> byte list \<Rightarrow> NodeKey \<Rightarrow> NodeKey" where
  "blocks_loop hashFunc targetBytes tmpHash =
     (if targetBytes = [] then tmpHash
      else blocks_loop hashFunc (drop 64 targetBytes) (hashFunc (block_words (take 64 targetBytes)) tmpHash))"
  by pat_completeness auto
termination by (relation "measure (\<lambda>(_, bs, _). length bs)") auto

declare blocks_loop.simps [simp del]

definition HashContractBytecodeBigInt :: "hash \<Rightarrow> string \<Rightarrow> int result" where
  "HashContractBytecodeBigInt hashFunc bc =
     (let bytecode = TrimPrefix0x bc;
          targetBytes = replicate (targetBytesLen (length bytecode)) 0 in
      rbind (if odd (length bytecode) then
               rbind (setidx targetBytes 0 (charToByte (hd bytecode))) (\<lambda>t. target_loop (tl bytecode) t 1 1)
             else target_loop bytecode targetBytes 0 0) (\<lambda>(targetBytes, offset).
      rbind (setidx targetBytes offset 1) (\<lambda>targetBytes.
      rbind (idx targetBytes (length targetBytes - 2)) (\<lambda>b.
      rbind (setidx targetBytes (length targetBytes - 2) (b OR 0x80)) (\<lambda>targetBytes.
      Inr (ArrayToScalar (nk_list (blocks_loop hashFunc targetBytes (NodeKey 0 0 0 0)))))))))"

definition HashContractBytecode :: "hash \<Rightarrow> string \<Rightarrow> string result" where
  "HashContractBytecode hashFunc bc = rbind (HashContractBytecodeBigInt hashFunc bc) (\<lambda>h. Inr (ConvertBigIntToHex h))"

subsection \<open>The first version\<close>

text \<open>The padding stops at a multiple of 112 characters, which an odd length never reaches.\<close>

partial_function (option) pad_loop :: "string \<Rightarrow> string option" where
  "pad_loop bytecode = (if length bytecode mod (56 * 2) = 0 then Some bytecode else pad_loop (bytecode @ ''00''))"

text \<open>The elements of one hash: seven bytes each, the first byte last in the text.\<close>

fun elements_loop :: "string \<Rightarrow> string \<Rightarrow> nat \<Rightarrow> uint64 list \<Rightarrow> uint64 list result" where
  "elements_loop (a # b # cs) tmpElem counter elementsToHash =
     (let tmpElem = a # b # tmpElem in
      if counter + 1 = 7 then
        rbind (deref (big_SetString tmpElem 16)) (\<lambda>tmpScalar.
        elements_loop cs [] 0 (elementsToHash @ [big_Uint64 tmpScalar]))
      else elements_loop cs tmpElem (counter + 1) elementsToHash)"
| "elements_loop _ tmpElem counter elementsToHash = Inr elementsToHash"

primrec hashes_loop :: "hash \<Rightarrow> nat \<Rightarrow> string \<Rightarrow> NodeKey \<Rightarrow> NodeKey result" where
  "hashes_loop hashFunc 0 bytecode tmpHash = Inr tmpHash"
| "hashes_loop hashFunc (Suc n) bytecode tmpHash =
     rbind (elements_loop (take 112 bytecode) [] 0 []) (\<lambda>input.
     hashes_loop hashFunc n (drop 112 bytecode) (Hash hashFunc input tmpHash))"

text \<open>The number of bytes is a multiple of 56, so its quotient by 56 as a \<open>float64\<close> is exact.\<close>

definition HashContractBytecodeBigIntV1 :: "hash \<Rightarrow> string \<Rightarrow> int result option" where
  "HashContractBytecodeBigIntV1 hashFunc bc =
     (let bytecode = (if HasPrefix0x bc then drop 2 bc else bc);
          bytecode = (if length bytecode mod 2 \<noteq> 0 then ''0'' @ bytecode else bytecode) in
      map_option (\<lambda>bytecode.
        let lastByteInt = (case big_SetString (drop (length bytecode - 2) bytecode) 16 of None \<Rightarrow> 0 | Some n \<Rightarrow> n);
            lastByte = hex_nat (nat (lastByteInt OR 0x80));
            bytecode = take (length bytecode - 2) bytecode @ lastByte in
        rbind (hashes_loop hashFunc (length bytecode div 2 div 56) bytecode (NodeKey 0 0 0 0)) (\<lambda>tmpHash.
        Inr (ArrayToScalar (nk_list tmpHash))))
      (pad_loop (bytecode @ ''01'')))"

section \<open>The code table\<close>

definition ResizeHashTo32BytesByPrefixingWithZeroes :: "byte list \<Rightarrow> byte list" where
  "ResizeHashTo32BytesByPrefixingWithZeroes hashValue =
     (if length hashValue < 32 then replicate (32 - length hashValue) 0 @ hashValue else hashValue)"

definition hex_EncodeToString :: "byte list \<Rightarrow> string" where
  "hex_EncodeToString bs = concat (map byte_hex bs)"

definition MemDb_AddCode :: "hash \<Rightarrow> MemDb \<Rightarrow> byte list \<Rightarrow> MemDb result" where
  "MemDb_AddCode hashFunc m code =
     rbind (HashContractBytecode hashFunc (hex_EncodeToString code)) (\<lambda>codeHash.
     Inr (m\<lparr>DbCode := (DbCode m)(codeHash \<mapsto> code)\<rparr>))"

definition MemDb_GetCode :: "MemDb \<Rightarrow> byte list \<Rightarrow> byte list result" where
  "MemDb_GetCode m codeHash =
     (let codeHash = ResizeHashTo32BytesByPrefixingWithZeroes codeHash in
      case DbCode m (''0x'' @ hex_EncodeToString codeHash) of
        None \<Rightarrow> Inl ErrNotFound
      | Some s \<Rightarrow> Inr s)"

section \<open>The layout of the byte-level version\<close>

text \<open>A list of bytes in memory, seven to a word of eight.\<close>

primrec spread :: "nat \<Rightarrow> byte list \<Rightarrow> byte list" where
  "spread 0 xs = []"
| "spread (Suc q) xs = take 7 xs @ 0 # spread q (drop 7 xs)"

lemma length_spread [simp]: "length xs = 7 * q \<Longrightarrow> length (spread q xs) = 8 * q"
  by (induction q arbitrary: xs) simp_all

lemma spread_index: "(j :: nat) < 7 * q \<Longrightarrow> j + j div 7 < 8 * q"
  using less_mult_imp_div_less [of j q 7] by linarith

lemma spread_update:
  "length xs = 7 * q \<Longrightarrow> j < 7 * q \<Longrightarrow> (spread q xs)[j + j div 7 := b] = spread q (xs[j := b])"
proof (induction q arbitrary: xs j)
  case (Suc q)
  have l: "length (take 7 xs) = 7" using Suc.prems by simp
  show ?case
  proof (cases "j < 7")
    case True
    then show ?thesis using l by (simp add: list_update_append take_update_swap)
  next
    case False
    then obtain j' where j: "j = 7 + j'" "(7 + j') div 7 = Suc (j' div 7)" using le_Suc_ex [of 7 j] by auto
    then have "(spread q (drop 7 xs))[j' + j' div 7 := b] = spread q ((drop 7 xs)[j' := b])"
      using Suc by simp
    then show ?thesis using l by (simp add: j list_update_append drop_update_swap add.assoc)
  qed
qed simp

lemma spread_nth: "length xs = 7 * q \<Longrightarrow> j < 7 * q \<Longrightarrow> spread q xs ! (j + j div 7) = xs ! j"
proof (induction q arbitrary: xs j)
  case (Suc q)
  have l: "length (take 7 xs) = 7" using Suc.prems by simp
  show ?case
  proof (cases "j < 7")
    case True
    then show ?thesis using l by (simp add: nth_append)
  next
    case False
    then obtain j' where j: "j = 7 + j'" "(7 + j') div 7 = Suc (j' div 7)" using le_Suc_ex [of 7 j] by auto
    then show ?thesis using Suc.IH [of "drop 7 xs" j'] Suc.prems l by (simp add: nth_append add.assoc)
  qed
qed simp

lemma spread_zeros: "spread q (replicate (7 * q) 0) = replicate (8 * q) 0"
proof (induction q)
  case (Suc q)
  have "replicate (8 * Suc q) (0 :: byte) = replicate 7 0 @ 0 # replicate (8 * q) 0"
    by (simp add: replicate_add [symmetric] flip: replicate_Suc)
  then show ?case using Suc by simp
qed simp

lemma spread_add: "spread (p + q) xs = spread p (take (7 * p) xs) @ spread q (drop (7 * p) xs)"
  by (induction p arbitrary: xs) (simp_all add: drop_take min_def add.commute)

lemma spread_word:
  "length xs = 7 * q \<Longrightarrow> w < q \<Longrightarrow> take 8 (drop (8 * w) (spread q xs)) = take 7 (drop (7 * w) xs) @ [0]"
proof (induction q arbitrary: xs w)
  case (Suc q)
  have l: "length (take 7 xs) = 7" using Suc.prems by simp
  show ?case
  proof (cases w)
    case 0
    then show ?thesis using l by simp
  next
    case (Suc w')
    then show ?thesis using Suc.IH [of "drop 7 xs" w'] Suc.prems l by (simp add: add.commute)
  qed
qed simp

section \<open>The hash as a chain over blocks of 56 bytes\<close>

definition word7 :: "byte list \<Rightarrow> nat \<Rightarrow> uint64" where
  "word7 xs w = of_nat (SetBytes (rev (take 7 (drop (7 * w) xs))))"

primrec chain_hash :: "hash \<Rightarrow> nat \<Rightarrow> byte list \<Rightarrow> NodeKey \<Rightarrow> NodeKey" where
  "chain_hash H 0 xs h = h"
| "chain_hash H (Suc n) xs h = chain_hash H n (drop 56 xs) (H (map (word7 xs) [0..<8]) h)"

lemma le_word_gap: "le_word (xs @ [0]) = of_nat (SetBytes (rev xs))"
  by (simp add: le_word_def SetBytes_Cons)

lemma block_words_spread: "length xs = 56 \<Longrightarrow> block_words (spread 8 xs) = map (word7 xs) [0..<8]"
  unfolding block_words_def by (rule map_cong) (simp_all add: spread_word le_word_gap word7_def)

lemma word7_take: "w < 8 \<Longrightarrow> word7 (take 56 xs) w = word7 xs w"
  by (simp add: word7_def drop_take min_def)

lemma blocks_loop_spread: "length xs = 56 * n \<Longrightarrow> blocks_loop H (spread (8 * n) xs) h = chain_hash H n xs h"
proof (induction n arbitrary: xs h)
  case (Suc n)
  have l: "length (take 56 xs) = 56" using Suc.prems by simp
  have e: "spread (8 * Suc n) xs = spread 8 (take 56 xs) @ spread (8 * n) (drop 56 xs)"
    using spread_add [of 8 "8 * n" xs] by simp
  have l64: "length (spread 8 (take 56 xs)) = 64" using length_spread [of "take 56 xs" 8] l by simp
  then have "blocks_loop H (spread (8 * Suc n) xs) h =
      blocks_loop H (spread (8 * n) (drop 56 xs)) (H (block_words (spread 8 (take 56 xs))) h)"
    unfolding e by (subst blocks_loop.simps) auto
  also have "block_words (spread 8 (take 56 xs)) = map (word7 xs) [0..<8]"
    using block_words_spread [OF l] by (simp add: word7_take)
  finally show ?case using Suc by simp
qed (simp add: blocks_loop.simps)

section \<open>Both versions hash the padded bytes\<close>

lemma hex_Decode_append:
  "hex_string xs \<Longrightarrow> even (length xs) \<Longrightarrow> hex_Decode (xs @ ys) = hex_Decode xs @ hex_Decode ys"
  by (induction xs rule: hex_Decode.induct) auto

lemma length_hex_Decode: "hex_string cs \<Longrightarrow> even (length cs) \<Longrightarrow> length (hex_Decode cs) = length cs div 2"
  using hex_Decode_value [of cs] by auto

lemma nibbles: "x < 16 \<Longrightarrow> y < 16 \<Longrightarrow> push_bit 4 (of_nat x :: byte) OR of_nat y = of_nat (x * 16 + y)"
proof -
  assume x: "x < 16" and y: "y < 16"
  have "\<not> bit (of_nat y :: byte) n" if "4 \<le> n" for n
  proof -
    have "(2 :: nat) ^ 4 \<le> 2 ^ n" using that by (intro power_increasing) simp_all
    then have "y div 2 ^ n = 0" using y by simp
    then show ?thesis using y bit_of_nat_odd [where ?'a = 8, of y n] by simp
  qed
  then have "push_bit 4 (of_nat x :: byte) OR of_nat y = push_bit 4 (of_nat x) + of_nat y"
    by (intro disjunctive_add [symmetric]) (auto simp: bit_push_bit_iff)
  then show ?thesis by (simp add: push_bit_eq_mult mult.commute)
qed

lemma target_loop_spread:
  "hex_string cs \<Longrightarrow> even (length cs) \<Longrightarrow> length xs = 7 * q \<Longrightarrow> m + length cs div 2 \<le> 7 * q \<Longrightarrow>
   target_loop cs (spread q xs) (m + m div 7) (m mod 7) =
     Inr (spread q (take m xs @ hex_Decode cs @ drop (m + length cs div 2) xs),
          m + length cs div 2 + (m + length cs div 2) div 7)"
proof (induction cs arbitrary: xs m rule: hex_Decode.induct)
  case (1 a b cs)
  from 1(2) obtain x y where d: "fromHexChar a = Some x" "fromHexChar b = Some y" "x < 16" "y < 16" by auto
  let ?b = "of_nat (x * 16 + y) :: byte" and ?xs = "xs[m := of_nat (x * 16 + y)]"
  have m: "m < 7 * q" using 1(5) by simp
  have set: "setidx (spread q xs) (m + m div 7) ?b = Inr (spread q ?xs)"
    using spread_index [OF m] spread_update [OF 1(4) m] 1(4) by (simp add: setidx_def)
  have step: "target_loop (a # b # cs) (spread q xs) (m + m div 7) (m mod 7) =
      target_loop cs (spread q ?xs) (Suc m + Suc m div 7) (Suc m mod 7)"
    using set d by (auto simp: charToByte_def nibbles div_Suc mod_Suc)
  have "take (Suc m) ?xs = take m xs @ [?b]" using m 1(4) by (simp add: take_Suc_conv_app_nth)
  then show ?case
    unfolding step using 1(1) [OF refl d(1,2), of ?xs "Suc m"] 1(2-5) d by simp
qed auto

lemma padded_length:
  "(let t = m + 1 in if t mod 56 \<noteq> 0 then t + (56 - t mod 56) else t) = 56 * (m div 56 + 1)" for m :: nat
proof -
  define a b where "a = m div 56" and "b = m mod 56"
  have m: "m = 56 * a + b" "b < 56" by (simp_all add: a_def b_def)
  show ?thesis
  proof (cases "b = 55")
    case True
    then have "m + 1 = 56 * (a + 1)" using m by simp
    then show ?thesis by (simp add: a_def [symmetric])
  next
    case False
    then have "(m + 1) mod 56 = b + 1" using m by simp
    then show ?thesis using m False by (simp add: a_def [symmetric])
  qed
qed

definition code_digits :: "string \<Rightarrow> string" where
  "code_digits cs = (if odd (length cs) then CHR ''0'' # cs else cs)"

definition code_blocks :: "string \<Rightarrow> nat" where
  "code_blocks cs = length (code_digits cs) div 2 div 56 + 1"

text \<open>The bytes of the code, a one, zeroes up to a multiple of 56 bytes, and the top bit of the last byte.\<close>

definition marked :: "byte list \<Rightarrow> byte list" where
  "marked xs = butlast xs @ [last xs OR 0x80]"

definition padded_code :: "string \<Rightarrow> byte list" where
  "padded_code cs = (let bs = hex_Decode (code_digits cs) in bs @ 1 # replicate (56 * code_blocks cs - 1 - length bs) 0)"

lemma code_digits_props:
  assumes "hex_string cs"
  shows "hex_string (code_digits cs)" "even (length (code_digits cs))" "length (code_digits cs) div 2 = (length cs + 1) div 2"
  using assms hex_digit_0 by (auto simp: code_digits_def fromHexChar_def)

lemma targetBytesLen_blocks: "hex_string cs \<Longrightarrow> targetBytesLen (length cs) = 8 * (8 * code_blocks cs)"
proof -
  assume h: "hex_string cs"
  let ?m = "length (code_digits cs) div 2"
  have "(if length cs mod 2 \<noteq> 0 then length cs div 2 + 1 else length cs div 2) = ?m"
    using code_digits_props(3) [OF h] by (auto simp: odd_iff_mod_2_eq_one)
  then have "targetBytesLen (length cs) = 56 * (?m div 56 + 1) div 7 * 8"
    using padded_length [of ?m] unfolding targetBytesLen_def Let_def by (simp only:)
  also have "\<dots> = 8 * (8 * (?m div 56 + 1))" by simp
  finally show ?thesis by (simp only: code_blocks_def)
qed

lemma length_padded_code: "hex_string cs \<Longrightarrow> length (padded_code cs) = 56 * code_blocks cs"
  "hex_string cs \<Longrightarrow> length (hex_Decode (code_digits cs)) < 56 * code_blocks cs"
proof -
  assume h: "hex_string cs"
  have l: "length (hex_Decode (code_digits cs)) = length (code_digits cs) div 2"
    by (rule length_hex_Decode [OF code_digits_props(1,2) [OF h]])
  show "length (hex_Decode (code_digits cs)) < 56 * code_blocks cs"
    unfolding l code_blocks_def using dividend_less_times_div [of 56 "length (code_digits cs) div 2"] by simp
  then show "length (padded_code cs) = 56 * code_blocks cs" by (simp add: padded_code_def Let_def)
qed

lemma fill_target:
  assumes "hex_string cs" and q: "q = 8 * code_blocks cs" and m: "m = length (hex_Decode (code_digits cs))"
  shows "(if odd (length cs) then
      rbind (setidx (replicate (8 * q) 0) 0 (charToByte (hd cs))) (\<lambda>t. target_loop (tl cs) t 1 1)
    else target_loop cs (replicate (8 * q) 0) 0 0) =
    Inr (spread q (hex_Decode (code_digits cs) @ replicate (7 * q - m) 0), m + m div 7)"
proof (cases "odd (length cs)")
  case True
  then obtain c cs' where c: "cs = c # cs'" by (cases cs) auto
  then obtain d where d: "fromHexChar c = Some d" "d < 16" "hex_string cs'" "even (length cs')" using assms(1) True by auto
  let ?z = "(replicate (7 * q) 0)[0 := of_nat d] :: byte list"
  have q0: "0 < q" using q by (simp add: code_blocks_def)
  have bs: "hex_Decode (code_digits cs) = of_nat d # hex_Decode cs'"
    using True d by (simp add: code_digits_def c fromHexChar_def [of "CHR ''0''"])
  have l: "length (hex_Decode cs') = length cs' div 2" using length_hex_Decode d by blast
  have le: "m \<le> 7 * q" using length_padded_code(2) [OF assms(1)] q m by simp
  have "setidx (replicate (8 * q) 0) 0 (charToByte (hd cs)) = Inr (spread q ?z)"
    using spread_update [of "replicate (7 * q) 0" q 0 "of_nat d"] q0 d
    by (simp add: setidx_def spread_zeros c charToByte_def)
  moreover have "target_loop cs' (spread q ?z) 1 1 = Inr (spread q (take 1 ?z @ hex_Decode cs' @ drop (1 + length cs' div 2) ?z), m + m div 7)"
    using target_loop_spread [of cs' ?z q 1] d le l by (simp add: m bs)
  moreover have "?z = of_nat d # replicate (7 * q - 1) 0" using q0 by (cases "7 * q") simp_all
  moreover have "m = 1 + length cs' div 2" by (simp add: m bs l)
  ultimately show ?thesis using True by (simp add: c bs [unfolded c] drop_Cons')
next
  case False
  then have bs: "code_digits cs = cs" "length (hex_Decode cs) = length cs div 2"
    using length_hex_Decode [OF assms(1)] by (simp_all add: code_digits_def)
  have le: "m \<le> 7 * q" using length_padded_code(2) [OF assms(1)] q m by simp
  then show ?thesis
    using target_loop_spread [OF assms(1), of "replicate (7 * q) 0" q 0] False bs m by (simp add: spread_zeros)
qed

lemma bytecode_hash:
  assumes "hex_string (TrimPrefix0x bc)"
  defines "cs \<equiv> TrimPrefix0x bc"
  shows "HashContractBytecodeBigInt H bc =
    Inr (NodeKey_ToBigInt (chain_hash H (code_blocks cs) (marked (padded_code cs)) (NodeKey 0 0 0 0)))"
proof -
  have h: "hex_string cs" using assms by simp
  define q m where "q = 8 * code_blocks cs" and "m = length (hex_Decode (code_digits cs))"
  let ?bs = "hex_Decode (code_digits cs)" and ?P = "padded_code cs"
  have len: "length ?P = 7 * q" "m < 7 * q" using length_padded_code [OF h] by (simp_all add: q_def m_def)
  have q0: "0 < q" by (simp add: q_def code_blocks_def)
  have fill: "(?bs @ replicate (7 * q - m) 0)[m := 1] = ?P"
    using len(2) by (simp add: padded_code_def Let_def m_def q_def list_update_append Suc_diff_Suc [symmetric])
  have one: "setidx (spread q (?bs @ replicate (7 * q - m) 0)) (m + m div 7) 1 = Inr (spread q ?P)"
    using spread_update [of "?bs @ replicate (7 * q - m) 0" q m 1] spread_index [OF len(2)] len(2) fill
    by (simp add: setidx_def m_def [symmetric])
  obtain j where j: "7 * q = Suc j" using q0 by (cases "7 * q") simp_all
  then have j': "j < 7 * q" "8 * q - 2 = j + j div 7" using q0 by (cases q; simp)+
  note at = spread_index [OF j'(1)] length_spread [OF len(1)]
  have ne: "?P \<noteq> []" using len q0 by auto
  have last: "idx (spread q ?P) (8 * q - 2) = Inr (last ?P)"
    using spread_nth [OF len(1) j'(1)] at ne len(1) by (simp add: j'(2) idx_def last_conv_nth j)
  have "?P[j := last ?P OR 0x80] = marked ?P"
    using ne len(1) j by (cases ?P rule: rev_cases) (simp_all add: marked_def list_update_append)
  then have mark: "setidx (spread q ?P) (8 * q - 2) (last ?P OR 0x80) = Inr (spread q (marked ?P))"
    using spread_update [OF len(1) j'(1)] at by (simp add: j'(2) setidx_def)
  have "length (marked ?P) = 56 * code_blocks cs" using len(1) j by (simp add: marked_def q_def)
  from blocks_loop_spread [OF this, of H] show ?thesis
    using one last mark len(1)
    unfolding HashContractBytecodeBigInt_def Let_def cs_def [symmetric] targetBytesLen_blocks [OF h] q_def [symmetric]
      fill_target [OF h q_def m_def]
    by (simp add: NodeKey_ToBigInt_def)
qed

lemma pad_loop_even:
  "length s + 2 * k = 112 * Suc n \<Longrightarrow> 112 * n < length s \<Longrightarrow> pad_loop s = Some (s @ replicate (2 * k) (CHR ''0''))"
proof (induction k arbitrary: s)
  case 0
  then show ?case by (subst pad_loop.simps) simp
next
  case (Suc k)
  have "length s div 112 = n" using Suc.prems by (intro div_nat_eqI) simp_all
  then have "length s mod 112 \<noteq> 0" using Suc.prems div_mult_mod_eq [of "length s" 112] by auto
  then have "pad_loop s = pad_loop (s @ ''00'')" by (subst pad_loop.simps) simp
  moreover have "pad_loop (s @ ''00'') = Some ((s @ ''00'') @ replicate (2 * k) (CHR ''0''))"
    using Suc.prems by (intro Suc.IH) simp_all
  ultimately show ?case by simp
qed

lemma digit_value_16: "digit_value 16 c = fromHexChar c" if "fromHexChar c = Some d" "d < 16"
  using that by (simp add: digit_value_def)

lemma digits_value_hex: "hex_string cs \<Longrightarrow> cs \<noteq> [] \<Longrightarrow> digits_value 16 cs = Some (hex_value cs)"
proof -
  assume h: "hex_string cs" and ne: "cs \<noteq> []"
  have d: "digit_value 16 c = fromHexChar c \<and> fromHexChar c \<noteq> None" if "c \<in> set cs" for c
    using h that digit_value_16 [of c] by (auto simp: hex_string_def)
  have "foldl (\<lambda>a c. a * 16 + the (digit_value 16 c)) 0 cs = hex_value cs"
    unfolding hex_value_def using d by (intro foldl_cong) auto
  then show ?thesis using ne d by (auto simp: digits_value_def)
qed

lemma big_SetString_hex: "hex_string cs \<Longrightarrow> cs \<noteq> [] \<Longrightarrow> big_SetString cs 16 = Some (int (hex_value cs))"
proof -
  assume h: "hex_string cs" and ne: "cs \<noteq> []"
  then obtain c cs' where c: "cs = c # cs'" by (cases cs) auto
  then have "c \<noteq> CHR ''-''" "c \<noteq> CHR ''+''" using h by (auto simp: fromHexChar_def)
  then show ?thesis using digits_value_hex [OF h ne] by (simp add: big_SetString_def c)
qed

lemma hex_value_pair: "hex_string [a, b] \<Longrightarrow> hex_value (a # b # cs) = unat (hd (hex_Decode [a, b])) * 16 ^ length cs + hex_value cs"
proof -
  assume "hex_string [a, b]"
  then obtain x y where d: "fromHexChar a = Some x" "fromHexChar b = Some y" "x < 16" "y < 16" by auto
  then have "unat (of_nat (x * 16 + y) :: byte) = x * 16 + y" by (intro unat_of_nat_small) simp
  then show ?thesis using d by (simp add: hex_value_Cons algebra_simps)
qed

lemma list14_cases:
  assumes "length xs = 14"
  obtains a b c d e f g h i j k l m n where "xs = [a, b, c, d, e, f, g, h, i, j, k, l, m, n]"
proof -
  have "length xs = Suc (Suc (Suc (Suc (Suc (Suc (Suc (Suc (Suc (Suc (Suc (Suc (Suc (Suc 0)))))))))))))" using assms by simp
  then show ?thesis using that by (simp only: length_Suc_conv length_0_conv) blast
qed

lemma elements_loop_words:
  "hex_string s \<Longrightarrow> length s = 14 * q \<Longrightarrow>
   elements_loop s [] 0 acc = Inr (acc @ map (word7 (hex_Decode s)) [0..<q])"
proof (induction q arbitrary: s acc)
  case (Suc q)
  define t where "t = drop 14 s"
  have "length (take 14 s) = 14" using Suc.prems by simp
  then obtain a b c d e f g h i j k l m n where "take 14 s = [a, b, c, d, e, f, g, h, i, j, k, l, m, n]"
    by (rule list14_cases)
  then have s: "s = [a, b, c, d, e, f, g, h, i, j, k, l, m, n] @ t" "length t = 14 * q"
    using append_take_drop_id [of 14 s] Suc.prems(2) by (simp_all add: t_def)
  have hs: "hex_string [a, b]" "hex_string [c, d]" "hex_string [e, f]" "hex_string [g, h]" "hex_string [i, j]"
    "hex_string [k, l]" "hex_string [m, n]" "hex_string t" using Suc.prems(1) unfolding s(1) by simp_all
  have one: "\<exists>x. hex_Decode (u # v # w) = x # hex_Decode w \<and> hex_Decode [u, v] = [x]" if "hex_string [u, v]" for u v w
    using that by auto
  let ?r = "[m, n, k, l, i, j, g, h, e, f, c, d, a, b]"
  have r: "big_SetString ?r 16 = Some (int (hex_value ?r))" using hs by (intro big_SetString_hex) simp_all
  obtain x1 x2 x3 x4 x5 x6 x7 where x: "hex_Decode [a, b] = [x1]" "hex_Decode [c, d] = [x2]" "hex_Decode [e, f] = [x3]"
    "hex_Decode [g, h] = [x4]" "hex_Decode [i, j] = [x5]" "hex_Decode [k, l] = [x6]" "hex_Decode [m, n] = [x7]"
    using one hs by meson
  have dec: "hex_Decode s = [x1, x2, x3, x4, x5, x6, x7] @ hex_Decode t"
    using one [OF hs(1)] one [OF hs(2)] one [OF hs(3)] one [OF hs(4)] one [OF hs(5)] one [OF hs(6)] one [OF hs(7)] x
    unfolding s(1) append.simps by (metis list.inject)
  have "hex_value ?r = SetBytes [x7, x6, x5, x4, x3, x2, x1]"
    using hs by (simp add: hex_value_pair x SetBytes_Cons del: hex_Decode.simps)
  then have w: "big_Uint64 (int (hex_value ?r)) = word7 (hex_Decode s) 0" by (simp add: big_Uint64_def word7_def dec)
  have ws: "word7 (hex_Decode s) (Suc v) = word7 (hex_Decode t) v" for v
  proof -
    have "drop (7 * Suc v) (hex_Decode s) = drop (7 * v) (drop 7 (hex_Decode s))" by (simp add: add.commute)
    then show ?thesis by (simp add: word7_def dec)
  qed
  have "elements_loop s [] 0 acc = elements_loop t [] 0 (acc @ [big_Uint64 (int (hex_value ?r))])"
    unfolding s(1) using r by simp
  also have "\<dots> = Inr (acc @ word7 (hex_Decode s) 0 # map (word7 (hex_Decode t)) [0..<q])"
    using Suc.IH [OF hs(8) s(2)] w by simp
  finally show ?case by (simp add: upt_Suc_shift ws del: upt_Suc)
qed simp

lemma hashes_loop_chain:
  "hex_string s \<Longrightarrow> length s = 112 * n \<Longrightarrow> hashes_loop H n s h = Inr (chain_hash H n (hex_Decode s) h)"
proof (induction n arbitrary: s h)
  case (Suc n)
  have hs: "hex_string (take 112 s)" "hex_string (drop 112 s)"
    using Suc.prems(1) by (auto simp: hex_string_def dest: in_set_takeD in_set_dropD)
  have l: "length (take 112 s) = 14 * 8" "even (length (take 112 s))" using Suc.prems(2) by simp_all
  have dec: "hex_Decode s = hex_Decode (take 112 s) @ hex_Decode (drop 112 s)" "length (hex_Decode (take 112 s)) = 56"
    using hex_Decode_append [OF hs(1) l(2), of "drop 112 s"] length_hex_Decode [OF hs(1) l(2)] l(1) by simp_all
  have "elements_loop (take 112 s) [] 0 [] = Inr (map (word7 (hex_Decode (take 112 s))) [0..<8])"
    using elements_loop_words [OF hs(1) l(1)] by simp
  also have "map (word7 (hex_Decode (take 112 s))) [0..<8] = map (word7 (hex_Decode s)) [0..<8]"
  proof (rule map_cong)
    fix w assume "w \<in> set [0..<8]"
    then show "word7 (hex_Decode (take 112 s)) w = word7 (hex_Decode s) w"
      using word7_take [of w "hex_Decode s"] dec by simp
  qed simp
  finally have "hashes_loop H (Suc n) s h = hashes_loop H n (drop 112 s) (H (map (word7 (hex_Decode s)) [0..<8]) h)"
    by (simp add: Hash_def)
  also have "\<dots> = Inr (chain_hash H n (hex_Decode (drop 112 s)) (H (map (word7 (hex_Decode s)) [0..<8]) h))"
    using Suc.prems(2) by (intro Suc.IH hs(2)) simp
  finally show ?case using dec by simp
qed simp

lemma hex_zeros: "hex_string (replicate k (CHR ''0''))" "hex_Decode (replicate (2 * k) (CHR ''0'')) = replicate k 0"
  by (auto simp: hex_string_def fromHexChar_def) (induction k; simp add: fromHexChar_def)

text \<open>Setting the top bit of the last byte in the text sets it in the bytes.\<close>

lemma marked_text:
  assumes "s = ''01'' @ replicate (2 * k) (CHR ''0'')"
  defines "lastByteInt \<equiv> (case big_SetString (drop (length s - 2) s) 16 of None \<Rightarrow> 0 | Some n \<Rightarrow> n)"
  defines "t \<equiv> take (length s - 2) s @ hex_nat (nat (lastByteInt OR 0x80))"
  shows "hex_string t" "length t = length s" "hex_Decode t = marked (1 # replicate k 0)"
proof -
  have v: "big_SetString ''01'' 16 = Some 1" "big_SetString ''00'' 16 = Some 0"
    by (simp_all add: big_SetString_hex fromHexChar_def hex_value_Cons)
  have lb: "hex_nat 129 = ''81''" "hex_nat 128 = ''80''" by (simp_all add: hex_nat.simps hex_digit_def char_of_def bit_0)
  have "hex_string t \<and> length t = length s \<and> hex_Decode t = marked (1 # replicate k 0)"
  proof (cases k)
    case 0
    then show ?thesis using v lb by (simp add: assms fromHexChar_def marked_def)
  next
    case (Suc j)
    have r: "replicate (2 * k) (CHR ''0'') = replicate (2 * j) (CHR ''0'') @ ''00''"
      using replicate_add [of "2 * j" 2 "CHR ''0''"] by (simp add: Suc numeral_2_eq_2)
    then have d: "drop (length s - 2) s = ''00''" "take (length s - 2) s = ''01'' @ replicate (2 * j) (CHR ''0'')"
      unfolding assms(1) r by simp_all
    have t: "t = ''01'' @ replicate (2 * j) (CHR ''0'') @ ''80''" using v lb by (simp add: t_def d lastByteInt_def)
    have e: "hex_Decode (replicate (2 * j) (CHR ''0'') @ ''80'') = replicate j 0 @ [128]"
      using hex_Decode_append [OF hex_zeros(1), of "2 * j" "''80''"] hex_zeros(2) [of j] by (simp add: fromHexChar_def)
    have "replicate k 0 = replicate j (0 :: byte) @ [0]" by (simp add: Suc replicate_append_same)
    then have "marked (1 # replicate k 0) = 1 # replicate j 0 @ [128]" by (simp add: marked_def)
    then show ?thesis using e hex_zeros(1) r by (simp add: t assms(1) fromHexChar_def)
  qed
  then show "hex_string t" "length t = length s" "hex_Decode t = marked (1 # replicate k 0)" by simp_all
qed

lemma bytecode_hash_V1:
  assumes "hex_string (TrimPrefix0x bc)"
  defines "cs \<equiv> TrimPrefix0x bc"
  shows "HashContractBytecodeBigIntV1 H bc =
    Some (Inr (NodeKey_ToBigInt (chain_hash H (code_blocks cs) (marked (padded_code cs)) (NodeKey 0 0 0 0))))"
proof -
  have h: "hex_string cs" using assms by simp
  let ?d = "code_digits cs" and ?n = "code_blocks cs"
  note d = code_digits_props [OF h]
  define k where "k = 56 * ?n - 1 - length (hex_Decode ?d)"
  have l: "length (hex_Decode ?d) = length ?d div 2" by (rule length_hex_Decode [OF d(1,2)])
  have k: "length ?d div 2 + 1 + k = 56 * ?n" using length_padded_code(2) [OF h] by (simp add: k_def l)
  have n: "?n = Suc (length ?d div 2 div 56)" by (simp add: code_blocks_def)
  have len: "length (?d @ ''01'') + 2 * k = 112 * Suc (length ?d div 2 div 56)" using k d(2) unfolding n by auto
  have gt: "112 * (length ?d div 2 div 56) < length (?d @ ''01'')" using d(2) by auto
  define s where "s = ''01'' @ replicate (2 * k) (CHR ''0'')"
  have pad: "pad_loop (?d @ ''01'') = Some (?d @ s)" using pad_loop_even [OF len gt] by (simp add: s_def)
  have two: "2 \<le> length s" by (simp add: s_def)
  have b: "(let bytecode = (if HasPrefix0x bc then drop 2 bc else bc)
      in if length bytecode mod 2 \<noteq> 0 then ''0'' @ bytecode else bytecode) = ?d"
    by (simp add: cs_def code_digits_def TrimPrefix0x_def HasPrefix0x_def Let_def odd_iff_mod_2_eq_one)
  define t where "t = take (length s - 2) s @
    hex_nat (nat ((case big_SetString (drop (length s - 2) s) 16 of None \<Rightarrow> 0 | Some n \<Rightarrow> n) OR 0x80))"
  have t: "hex_string t" "length t = length s" "hex_Decode t = marked (1 # replicate k 0)"
    using marked_text [OF s_def] by (simp_all add: t_def)
  have lt: "length (?d @ t) = 112 * ?n" using len t(2) by (simp add: n s_def)
  have "hex_Decode (?d @ t) = marked (padded_code cs)"
    using hex_Decode_append [OF d(1,2)] t(3) by (simp add: padded_code_def Let_def k_def marked_def butlast_append)
  then have "hashes_loop H ?n (?d @ t) (NodeKey 0 0 0 0) = Inr (chain_hash H ?n (marked (padded_code cs)) (NodeKey 0 0 0 0))"
    using hashes_loop_chain [OF _ lt, of H] t(1) d(1) by simp
  moreover have "take (length (?d @ s) - 2) (?d @ s) @ hex_nat (nat
      ((case big_SetString (drop (length (?d @ s) - 2) (?d @ s)) 16 of None \<Rightarrow> 0 | Some n \<Rightarrow> n) OR 0x80)) = ?d @ t"
    using two by (simp add: t_def)
  moreover have "length (?d @ t) div 2 div 56 = ?n" using lt by simp
  ultimately show ?thesis
    unfolding HashContractBytecodeBigIntV1_def Let_def b [unfolded Let_def] pad option.map by (simp only: rbind_Inr NodeKey_ToBigInt_def)
qed

section \<open>The keys of the code table\<close>

lemma length_hex_nat: "n < 16 ^ Suc k \<Longrightarrow> length (hex_nat n) \<le> Suc k"
proof (induction k arbitrary: n)
  case (Suc k)
  have "n div 16 < 16 ^ Suc k" using Suc.prems by (simp add: less_mult_imp_div_less)
  from Suc.IH [OF this] show ?case by (subst hex_nat.simps) simp
qed (subst hex_nat.simps, simp)

lemma hex_EncodeToString_props:
  "hex_string (hex_EncodeToString bs)" "length (hex_EncodeToString bs) = 2 * length bs"
  "TrimPrefix0x (hex_EncodeToString bs) = hex_EncodeToString bs"
proof -
  have d: "\<exists>e<16. fromHexChar (hex_digit d) = Some e" if "d < 16" for d using that by simp
  show h: "hex_string (hex_EncodeToString bs)"
    using byte_digits_less d by (auto simp: hex_EncodeToString_def hex_string_def byte_hex_digits)
  show "length (hex_EncodeToString bs) = 2 * length bs"
    by (induction bs) (simp_all add: hex_EncodeToString_def byte_hex_def)
  have "take 2 (hex_EncodeToString bs) \<noteq> ''0x''"
  proof
    assume "take 2 (hex_EncodeToString bs) = ''0x''"
    then have "CHR ''x'' \<in> set (hex_EncodeToString bs)" by (metis in_set_takeD list.set_intros)
    then show False using h by (auto simp: hex_string_def fromHexChar_def)
  qed
  then show "TrimPrefix0x (hex_EncodeToString bs) = hex_EncodeToString bs" by (simp add: TrimPrefix0x_def)
qed

lemma leading_digit:
  assumes "s < M" "(n :: nat) = a * M + s" "d * M \<le> n"
  shows "d \<le> a"
proof -
  have "d * M < (a + 1) * M" using assms by simp
  then have "d < a + 1" by (simp only: mult_less_cancel2)
  then show ?thesis by simp
qed

lemma big_Bytes_32:
  assumes "16 ^ 63 \<le> n" "n < 256 ^ 32"
  shows "length (big_Bytes n) = 32" "16 \<le> unat (hd (big_Bytes n))"
proof -
  have e: "(16 :: nat) ^ 63 = 16 * 256 ^ 31" by simp
  have "\<not> length (big_Bytes n) \<le> 31"
  proof
    assume "length (big_Bytes n) \<le> 31"
    then have "(256 :: nat) ^ length (big_Bytes n) \<le> 256 ^ 31" by (intro power_increasing) simp_all
    then show False using SetBytes_less [of "big_Bytes n"] assms(1) unfolding e by simp
  qed
  then show l: "length (big_Bytes n) = 32" using length_big_Bytes [OF assms(2)] by simp
  then obtain b bs where b: "big_Bytes n = b # bs" "length bs = 31" by (cases "big_Bytes n") auto
  have v: "n = unat b * 256 ^ 31 + SetBytes bs" using SetBytes_big_Bytes [of n] b by (simp add: SetBytes_Cons)
  have "SetBytes bs < 256 ^ 31" using SetBytes_less [of bs] b(2) by simp
  then have "16 \<le> unat b" using v assms(1) unfolding e by (rule leading_digit)
  then show "16 \<le> unat (hd (big_Bytes n))" by (simp add: b)
qed

lemma full_code_key:
  assumes "16 ^ 63 \<le> n" "n < 256 ^ 32"
  shows "hex_EncodeToString (big_Bytes n) = hex_nat n"
proof -
  note b = big_Bytes_32 [OF assms]
  then obtain x bs where x: "big_Bytes n = x # bs" by (cases "big_Bytes n") auto
  then have ne: "big_Bytes n \<noteq> []" by simp
  have "fromHexChar (hex_digit (unat x div 16)) = Some (unat x div 16)"
    using byte_less [of x] by (intro fromHexChar_hex_digit) simp
  then have "hex_digit (unat x div 16) \<noteq> CHR ''0''" using b(2) x by (auto simp: fromHexChar_def)
  then have "hd (concat (map byte_hex (big_Bytes n))) \<noteq> CHR ''0''" by (simp add: x byte_hex_digits byte_digits_def)
  moreover have "hd (big_Bytes n) \<noteq> 0" using b(2) by auto
  ultimately show ?thesis
    using hex_nat_SetBytes [of "big_Bytes n"] ne by (simp add: hex_EncodeToString_def Let_def)
qed

section \<open>Properties\<close>

text \<open>
  The code table of the in-memory database finds a code again only when the hash of the code needs
  all 64 hexadecimal digits: \<open>AddCode\<close> stores under the digits without leading zeroes, \<open>GetCode\<close> looks
  up the hash padded to 32 bytes, so below 16^63 the lookup is as if the code had not been added.
\<close>

theorem GetCode_after_AddCode:
  "\<exists>h m'. HashContractBytecodeBigInt H (hex_EncodeToString code) = Inr h \<and> MemDb_AddCode H m code = Inr m' \<and>
    MemDb_GetCode m' (big_Bytes (nat h)) = (if 16 ^ 63 \<le> h then Inr code else MemDb_GetCode m (big_Bytes (nat h)))"
proof -
  obtain k where k: "HashContractBytecodeBigInt H (hex_EncodeToString code) = Inr (NodeKey_ToBigInt k)"
    using bytecode_hash [of "hex_EncodeToString code" H] hex_EncodeToString_props by auto
  let ?h = "NodeKey_ToBigInt k" and ?n = "nat (NodeKey_ToBigInt k)"
  have "?h < 2 ^ 256" using SetBits_less [of "nk_list k"] by (simp add: NodeKey_ToBigInt_def ArrayToScalar_def)
  then have n: "?n < 256 ^ 32" by simp
  let ?key = "''0x'' @ hex_EncodeToString (ResizeHashTo32BytesByPrefixingWithZeroes (big_Bytes ?n))"
  have "?key = ''0x'' @ hex_nat ?n \<longleftrightarrow> 16 ^ 63 \<le> ?n"
  proof (cases "16 ^ 63 \<le> ?n")
    case True
    then show ?thesis using full_code_key [OF True n] big_Bytes_32(1) [OF True n]
      by (simp add: ResizeHashTo32BytesByPrefixingWithZeroes_def)
  next
    case False
    then have "length (hex_nat ?n) \<le> 63" using length_hex_nat [of ?n 62] by simp
    moreover have "length (ResizeHashTo32BytesByPrefixingWithZeroes (big_Bytes ?n)) = 32"
      using length_big_Bytes [OF n] by (simp add: ResizeHashTo32BytesByPrefixingWithZeroes_def)
    ultimately show ?thesis using False hex_EncodeToString_props(2) [of "ResizeHashTo32BytesByPrefixingWithZeroes (big_Bytes ?n)"]
      by auto
  qed
  moreover have "16 ^ 63 \<le> ?n \<longleftrightarrow> 16 ^ 63 \<le> ?h" by (simp add: le_nat_iff)
  ultimately show ?thesis
    using k not_less [of ?h 0] by (simp add: MemDb_AddCode_def HashContractBytecode_def ConvertBigIntToHex_def MemDb_GetCode_def Let_def)
qed

text \<open>
  C38. The source of a key round trips: the kind, the account and, for a storage slot, the position are
  read back from the bytes \<open>EncodeKeySource\<close> writes; every shorter input is refused.
\<close>

theorem DecodeKeySource_EncodeKeySource:
  assumes "0 \<le> t" "t < 256" "length addr = 20" "length pos = 32"
  shows "DecodeKeySource (EncodeKeySource t addr pos) = Inr (t, addr, if t = SC_STORAGE then pos else replicate 32 0) \<and>
    (\<forall>n. n < length (EncodeKeySource t addr pos) \<longrightarrow>
      DecodeKeySource (take n (EncodeKeySource t addr pos)) = Inl (Err ''invalid key source length''))"
proof -
  have t: "uint (of_int t :: byte) = t" using assms(1,2) by (simp add: uint_word_of_int_eq take_bit_int_eq_self)
  then show ?thesis using assms(3,4)
    by (auto simp: DecodeKeySource_def EncodeKeySource_def Let_def SC_STORAGE_def take_Cons' nth_append)
qed

theorem DecodeKeySource_EncodeKeySource_witness:
  "DecodeKeySource (EncodeKeySource SC_STORAGE (replicate 20 7) (replicate 32 9)) = Inr (SC_STORAGE, replicate 20 7, replicate 32 9)"
  using DecodeKeySource_EncodeKeySource [of SC_STORAGE "replicate 20 7" "replicate 32 9"] by (simp add: SC_STORAGE_def)

text \<open>
  C9. The byte-level hash of a bytecode is the string-level one: on every string of hexadecimal digits,
  with or without prefix and of odd or even length, both return (the padding loop of the first
  version ends, and no index of the second is out of range) and give the same number.
\<close>

theorem HashContractBytecodeBigInt_agrees_with_V1:
  assumes "hex_string (TrimPrefix0x bc)"
  shows "\<exists>h. HashContractBytecodeBigInt H bc = Inr h \<and> HashContractBytecodeBigIntV1 H bc = Some (Inr h)"
  using bytecode_hash [OF assms] bytecode_hash_V1 [OF assms] by simp

theorem HashContractBytecodeBigInt_agrees_with_V1_witness:
  "\<exists>h. HashContractBytecodeBigInt (\<lambda>x c. NodeKey (x ! 0) 0 0 0) ''0x123'' = Inr h \<and>
    HashContractBytecodeBigIntV1 (\<lambda>x c. NodeKey (x ! 0) 0 0 0) ''0x123'' = Some (Inr h)"
  using HashContractBytecodeBigInt_agrees_with_V1 [of "''0x123''"] by (simp add: fromHexChar_def)

end
