(* ===== verification/SmtState.thy ===== *)
theory SmtState
  imports SmtRead SmtKeys
begin

text \<open>
  Accounts, contracts and storage slots in the state tree: the writers of
  \<open>smt/pkg/smt/entity_storage.go\<close> and \<open>InsertStorage\<close>, and the readers of
  \<open>smt/pkg/smt/smt_state_reader.go\<close>. Maps that the source ranges over are lists of pairs with
  distinct keys, in the order of the iteration; the checksum of an address needs Keccak, which is
  the parameter \<open>keccak\<close>. The properties compose the tree, the keys and the codecs: what is written
  for an account is what the readers return, and hashing the slots in parallel changes nothing.
\<close>

section \<open>Addresses as text\<close>

definition upper_char :: "char \<Rightarrow> char" where
  "upper_char c = char_of (of_char c - 32 :: nat)"

text \<open>A letter is upper case when its nibble of the hash is above 7.\<close>

definition checksum_char :: "byte list \<Rightarrow> nat \<Rightarrow> char \<Rightarrow> char" where
  "checksum_char hash i c =
     (let hashByte = hash ! (i div 2);
          hashByte = (if even i then drop_bit 4 hashByte else hashByte AND 0xf) in
      if of_char c > (of_char (CHR ''9'') :: nat) \<and> hashByte > 7 then upper_char c else c)"

definition checksumHex :: "(byte list \<Rightarrow> byte list) \<Rightarrow> Address \<Rightarrow> string" where
  "checksumHex keccak a =
     (let digits = hex_EncodeToString a;
          hash = keccak (map of_char digits) in
      ''0x'' @ map (\<lambda>i. checksum_char hash i (digits ! i)) [0..<length digits])"

definition Hash_String :: "Hash32 \<Rightarrow> string" where
  "Hash_String h = ''0x'' @ hex_EncodeToString h"

section \<open>Writing\<close>

record Account =
  acc_Initialised :: bool
  acc_Nonce :: uint64
  acc_Balance :: u256
  acc_Root :: Hash32
  acc_CodeHash :: Hash32
  acc_Incarnation :: uint64
  acc_PrevIncarnation :: uint64

text \<open>A call of the database's \<open>InsertKeySource\<close>, and the method of the tree that encodes the source first.\<close>

definition insertKeySource :: "'a DB \<Rightarrow> 'a SMT \<Rightarrow> NodeKey \<Rightarrow> byte list \<Rightarrow> 'a SMT result" where
  "insertKeySource D s key ks = rbind (DB_InsertKeySource D (smt_Db s) key ks) (\<lambda>db. Inr (s\<lparr>smt_Db := db\<rparr>))"

definition SMT_InsertKeySource ::
  "'a DB \<Rightarrow> 'a SMT \<Rightarrow> NodeKey \<Rightarrow> int \<Rightarrow> Address \<Rightarrow> Hash32 \<Rightarrow> 'a SMT result" where
  "SMT_InsertKeySource D s nodeKey key accountAddr storagePosition =
     insertKeySource D s nodeKey (EncodeKeySource key accountAddr storagePosition)"

definition SetAccountBalance :: "hash \<Rightarrow> 'a DB \<Rightarrow> 'a SMT \<Rightarrow> string \<Rightarrow> int \<Rightarrow> (int \<times> 'a SMT) result" where
  "SetAccountBalance hashFunc D s ethAddr balance =
     (let keyBalance = KeyEthAddrBalance hashFunc ethAddr in
      rbind (InsertKA hashFunc D s keyBalance balance) (\<lambda>(response, s).
      let ks = EncodeKeySource KEY_BALANCE (ConvertHexToAddress ethAddr) (replicate 32 0) in
      rbind (insertKeySource D s keyBalance ks) (\<lambda>s.
      Inr (NodeKey_ToBigInt (NewRootScalar response), s))))"

definition SetAccountNonce :: "hash \<Rightarrow> 'a DB \<Rightarrow> 'a SMT \<Rightarrow> string \<Rightarrow> int \<Rightarrow> (int \<times> 'a SMT) result" where
  "SetAccountNonce hashFunc D s ethAddr nonce =
     (let keyNonce = KeyEthAddrNonce hashFunc ethAddr in
      rbind (InsertKA hashFunc D s keyNonce nonce) (\<lambda>(response, s).
      let ks = EncodeKeySource KEY_NONCE (ConvertHexToAddress ethAddr) (replicate 32 0) in
      rbind (insertKeySource D s keyNonce ks) (\<lambda>s.
      Inr (NodeKey_ToBigInt (NewRootScalar response), s))))"

definition SetAccountState :: "hash \<Rightarrow> 'a DB \<Rightarrow> 'a SMT \<Rightarrow> string \<Rightarrow> int \<Rightarrow> int \<Rightarrow> (int \<times> 'a SMT) result" where
  "SetAccountState hashFunc D s ethAddr balance nonce =
     rbind (SetAccountBalance hashFunc D s ethAddr balance) (\<lambda>(_, s).
     SetAccountNonce hashFunc D s ethAddr nonce)"

definition SetAccountStorage ::
  "(byte list \<Rightarrow> byte list) \<Rightarrow> hash \<Rightarrow> 'a DB \<Rightarrow> 'a SMT \<Rightarrow> Address \<Rightarrow> Account option \<Rightarrow> 'a SMT result" where
  "SetAccountStorage keccak hashFunc D s addr acc =
     (case acc of
        Some acc \<Rightarrow>
          rbind (SetAccountState hashFunc D s (checksumHex keccak addr) (uint (acc_Balance acc)) (uint (acc_Nonce acc)))
            (\<lambda>(_, s). Inr s)
      | None \<Rightarrow> rbind (SetAccountState hashFunc D s (checksumHex keccak addr) 0 0) (\<lambda>(_, s). Inr s))"

definition convertBytecodeToBigInt :: "hash \<Rightarrow> string \<Rightarrow> (int \<times> int) result" where
  "convertBytecodeToBigInt hashFunc bytecode =
     rbind (HashContractBytecodeBigInt hashFunc bytecode) (\<lambda>bi.
     let parsedBytecode = TrimPrefix0x bytecode;
         parsedBytecode = (if length parsedBytecode mod 2 \<noteq> 0 then ''0'' @ parsedBytecode else parsedBytecode);
         bytecodeLength = int (length parsedBytecode div 2) in
     if length bytecode = 0 then Inr (0, 0) else Inr (bi, bytecodeLength))"

definition SetContractBytecode :: "hash \<Rightarrow> 'a DB \<Rightarrow> 'a SMT \<Rightarrow> string \<Rightarrow> string \<Rightarrow> 'a SMT result" where
  "SetContractBytecode hashFunc D s ethAddr bytecode =
     (let keyContractCode = KeyContractCode hashFunc ethAddr;
          keyContractLength = KeyContractLength hashFunc ethAddr in
      rbind (convertBytecodeToBigInt hashFunc bytecode) (\<lambda>(bi, bytecodeLength).
      rbind (InsertKA hashFunc D s keyContractCode bi) (\<lambda>(_, s).
      rbind (insertKeySource D s keyContractCode (EncodeKeySource SC_CODE (ConvertHexToAddress ethAddr) (replicate 32 0))) (\<lambda>s.
      rbind (InsertKA hashFunc D s keyContractLength bytecodeLength) (\<lambda>(_, s).
      insertKeySource D s keyContractLength (EncodeKeySource SC_LENGTH (ConvertHexToAddress ethAddr) (replicate 32 0)))))))"

section \<open>Writing storage slots\<close>

definition convertStringToBigInt :: "string \<Rightarrow> bigint" where
  "convertStringToBigInt v =
     (if HasPrefix0x v then big_SetString (TrimPrefix0x v) 16 else big_SetString v 10)"

text \<open>A string that is no number gives a nil pointer, which \<open>ScalarToArrayBig\<close> reads through.\<close>

definition calcHashVal :: "hash \<Rightarrow> string \<Rightarrow> (NodeValue8 \<times> NodeKey) result" where
  "calcHashVal hashFunc v =
     rbind (deref (convertStringToBigInt v)) (\<lambda>val.
     rbind (NodeValue8FromBigIntArray (ScalarToArrayBig val)) (\<lambda>nodeValue.
     Inr (nodeValue, Hash hashFunc (ToUintArray (Some nodeValue)) BranchCapacity)))"

type_synonym hashed = "string \<rightharpoonup> (NodeValue8 \<times> NodeKey)"

text \<open>The values and hashes of some keys, in one loop; an empty value is skipped.\<close>

primrec hash_loop :: "hash \<Rightarrow> (string \<rightharpoonup> string) \<Rightarrow> string list \<Rightarrow> (string \<times> NodeValue8 \<times> NodeKey) list result" where
  "hash_loop hashFunc storage [] = Inr []"
| "hash_loop hashFunc storage (k # ks) =
     (let v = (case storage k of None \<Rightarrow> '''' | Some v \<Rightarrow> v) in
      if v = '''' then hash_loop hashFunc storage ks
      else rbind (calcHashVal hashFunc v) (\<lambda>ch. rbind (hash_loop hashFunc storage ks) (\<lambda>r. Inr ((k, ch) # r))))"

text \<open>The indices a worker takes: its own number and then every \<open>cpuNum\<close>-th.\<close>

function stride :: "nat \<Rightarrow> nat \<Rightarrow> nat \<Rightarrow> nat list" where
  "stride cpuNum count j = (if j < count \<and> 0 < cpuNum then j # stride cpuNum count (j + cpuNum) else [])"
  by pat_completeness auto
termination by (relation "measure (\<lambda>(_, count, j). count - j)") auto

declare stride.simps [simp del]

text \<open>
  The workers, one after the other: they share nothing but the variable of the error, and
  \<open>calcHashVal\<close> of a string either panics or succeeds. A worker writes to arrays of
  \<open>operationsPerCpu\<close> elements, and one more element would be out of range.
\<close>

primrec workers_loop ::
  "hash \<Rightarrow> (string \<rightharpoonup> string) \<Rightarrow> string list \<Rightarrow> nat \<Rightarrow> nat \<Rightarrow> nat list \<Rightarrow> (string \<times> NodeValue8 \<times> NodeKey) list result" where
  "workers_loop hashFunc storage storageKeys cpuNum operationsPerCpu [] = Inr []"
| "workers_loop hashFunc storage storageKeys cpuNum operationsPerCpu (cpuI # cpus) =
     rbind (hash_loop hashFunc storage (map ((!) storageKeys) (stride cpuNum (length storageKeys) cpuI))) (\<lambda>r.
     if operationsPerCpu < length r then Inl (Panic ''index out of range'')
     else rbind (workers_loop hashFunc storage storageKeys cpuNum operationsPerCpu cpus) (\<lambda>rs. Inr (r @ rs)))"

text \<open>
  The tables \<open>chm\<close> and \<open>vhm\<close>, which always have the same keys, as one map. Above a hundred slots
  the results of the workers are merged in the order of the workers; the empty key, which marks an
  unused element of their arrays, is skipped.
\<close>

definition hash_slots :: "hash \<Rightarrow> nat \<Rightarrow> (string \<times> string) list \<Rightarrow> hashed result" where
  "hash_slots hashFunc cpuNum storage =
     (let storageKeys = map fst storage in
      if length storage > 100 then
        (if cpuNum = 0 then Inl (Panic ''integer divide by zero'')
         else
           let operationsPerCpu = length storageKeys div cpuNum + length storageKeys mod cpuNum in
           rbind (workers_loop hashFunc (map_of storage) storageKeys cpuNum operationsPerCpu [0..<cpuNum]) (\<lambda>r.
           Inr (map_of (rev (filter (\<lambda>e. fst e \<noteq> '''') r)))))
      else rbind (hash_loop hashFunc (map_of storage) storageKeys) (\<lambda>r. Inr (map_of (rev r))))"

primrec slots_loop ::
  "hash \<Rightarrow> 'a DB \<Rightarrow> string \<Rightarrow> hashed \<Rightarrow> string list \<Rightarrow> NodeKey \<Rightarrow> 'a SMT \<Rightarrow> (NodeKey \<times> 'a SMT) result" where
  "slots_loop hashFunc D ethAddr hm [] root s = Inr (root, s)"
| "slots_loop hashFunc D ethAddr hm (k # ks) root s =
     (let add = ScalarToArrayBig (ConvertHexToBigInt ethAddr) in
      rbind (KeyContractStorage hashFunc add k) (\<lambda>keyStoragePosition.
      rbind (deref (hm k)) (\<lambda>(v, h).
      rbind (smt_insert hashFunc D s keyStoragePosition v h root) (\<lambda>(smtr, s).
      rbind (deref (StrValToBigInt k)) (\<lambda>sp.
      let source = EncodeKeySource SC_STORAGE (ConvertHexToAddress ethAddr) (BytesToHash (big_Bytes (nat \<bar>sp\<bar>))) in
      rbind (insertKeySource D s keyStoragePosition source) (\<lambda>s.
      slots_loop hashFunc D ethAddr hm ks (NewRootScalar smtr) s))))))"

text \<open>Of the storage only the keys are read, in the order \<open>storageKeys\<close> of this iteration.\<close>

definition InsertStorage ::
  "hash \<Rightarrow> 'a DB \<Rightarrow> 'a SMT \<Rightarrow> string \<Rightarrow> string list \<Rightarrow> hashed \<Rightarrow> (NodeKey \<times> 'a SMT) result" where
  "InsertStorage hashFunc D s ethAddr storageKeys hm =
     rbind (getLastRoot D s) (\<lambda>root.
     rbind (slots_loop hashFunc D ethAddr hm storageKeys root s) (\<lambda>(root, s).
     rbind (setLastRoot D s root) (\<lambda>s. Inr (root, s))))"

text \<open>
  The map is ranged over twice, and Go may take another order the second time: \<open>storage\<close> is in the
  order of the first iteration and \<open>storageKeys\<close> has its keys in the order of the second.
\<close>

definition SetContractStorage ::
  "hash \<Rightarrow> 'a DB \<Rightarrow> nat \<Rightarrow> 'a SMT \<Rightarrow> string \<Rightarrow> (string \<times> string) list \<Rightarrow> string list \<Rightarrow> (int \<times> 'a SMT) result" where
  "SetContractStorage hashFunc D cpuNum s ethAddr storage storageKeys =
     rbind (hash_slots hashFunc cpuNum storage) (\<lambda>hm.
     rbind (InsertStorage hashFunc D s ethAddr storageKeys hm) (\<lambda>(root, s).
     Inr (NodeKey_ToBigInt root, s)))"

section \<open>Reading\<close>

definition getValue ::
  "(byte list \<Rightarrow> byte list) \<Rightarrow> hash \<Rightarrow> 'a DB \<Rightarrow> 'a SMT \<Rightarrow> int \<Rightarrow> Address \<Rightarrow> Hash32 option \<Rightarrow> byte list result option" where
  "getValue keccak hashFunc D s key address storageKey =
     (case storageKey of
        None \<Rightarrow> getValueInBytes D s (Key hashFunc (checksumHex keccak address) key)
      | Some storageKey \<Rightarrow>
          let add = ScalarToArrayBig (ConvertHexToBigInt (checksumHex keccak address)) in
          case KeyContractStorage hashFunc add (Hash_String storageKey) of
            Inl e \<Rightarrow> Some (Inl e)
          | Inr kn \<Rightarrow> getValueInBytes D s kn)"

definition GetAccountBalance ::
  "(byte list \<Rightarrow> byte list) \<Rightarrow> hash \<Rightarrow> 'a DB \<Rightarrow> 'a SMT \<Rightarrow> Address \<Rightarrow> u256 result option" where
  "GetAccountBalance keccak hashFunc D s address =
     map_option (\<lambda>r. rbind r (\<lambda>b. Inr (of_nat (SetBytes b)))) (getValue keccak hashFunc D s KEY_BALANCE address None)"

definition GetAccountNonce ::
  "(byte list \<Rightarrow> byte list) \<Rightarrow> hash \<Rightarrow> 'a DB \<Rightarrow> 'a SMT \<Rightarrow> Address \<Rightarrow> u256 result option" where
  "GetAccountNonce keccak hashFunc D s address =
     map_option (\<lambda>r. rbind r (\<lambda>b. Inr (of_nat (SetBytes b)))) (getValue keccak hashFunc D s KEY_NONCE address None)"

definition GetAccountCodeHash ::
  "(byte list \<Rightarrow> byte list) \<Rightarrow> hash \<Rightarrow> 'a DB \<Rightarrow> 'a SMT \<Rightarrow> Address \<Rightarrow> Hash32 result option" where
  "GetAccountCodeHash keccak hashFunc D s address =
     map_option (\<lambda>r. rbind r (\<lambda>b. Inr (BytesToHash b))) (getValue keccak hashFunc D s SC_CODE address None)"

definition ReadAccountData ::
  "(byte list \<Rightarrow> byte list) \<Rightarrow> hash \<Rightarrow> 'a DB \<Rightarrow> 'a SMT \<Rightarrow> Address \<Rightarrow> Account result option" where
  "ReadAccountData keccak hashFunc D s address =
     Option.bind (GetAccountBalance keccak hashFunc D s address) (\<lambda>balance.
     case balance of Inl e \<Rightarrow> Some (Inl e) | Inr balance \<Rightarrow>
     Option.bind (GetAccountNonce keccak hashFunc D s address) (\<lambda>nonce.
     case nonce of Inl e \<Rightarrow> Some (Inl e) | Inr nonce \<Rightarrow>
     map_option (\<lambda>r. rbind r (\<lambda>codeHash.
         Inr \<lparr>acc_Initialised = False, acc_Nonce = ucast nonce, acc_Balance = balance, acc_Root = replicate 32 0,
              acc_CodeHash = codeHash, acc_Incarnation = 0, acc_PrevIncarnation = 0\<rparr>))
       (GetAccountCodeHash keccak hashFunc D s address)))"

definition ReadAccountStorage ::
  "(byte list \<Rightarrow> byte list) \<Rightarrow> hash \<Rightarrow> 'a DB \<Rightarrow> 'a SMT \<Rightarrow> Address \<Rightarrow> uint64 \<Rightarrow> Hash32 option \<Rightarrow> byte list result option" where
  "ReadAccountStorage keccak hashFunc D s address incarnation key = getValue keccak hashFunc D s 0 address key"

definition ReadAccountCode :: "MemDb SMT \<Rightarrow> Address \<Rightarrow> uint64 \<Rightarrow> Hash32 \<Rightarrow> byte list result" where
  "ReadAccountCode s _ incarnation codeHash = MemDb_GetCode (smt_Db s) codeHash"

text \<open>On a 64-bit machine an int64 always fits an int, so the second check of the size never fails.\<close>

definition ReadAccountCodeSize ::
  "(byte list \<Rightarrow> byte list) \<Rightarrow> hash \<Rightarrow> 'a DB \<Rightarrow> 'a SMT \<Rightarrow> Address \<Rightarrow> goint result option" where
  "ReadAccountCodeSize keccak hashFunc D s address =
     map_option (\<lambda>r. rbind r (\<lambda>valueInBytes.
         let sizeBig = SetBytes valueInBytes in
         if 2 ^ 63 \<le> sizeBig then Inl (Err ''code size value is too large to fit into an int'')
         else Inr (of_nat sizeBig)))
       (getValue keccak hashFunc D s SC_LENGTH address None)"

definition ReadAccountIncarnation :: "Address \<Rightarrow> uint64 result" where
  "ReadAccountIncarnation _ = Inl (Err ''ReadAccountIncarnation not implemented for SMT'')"

section \<open>The workers\<close>

definition slot :: "(string \<rightharpoonup> string) \<Rightarrow> string \<Rightarrow> string" where
  "slot storage k = (case storage k of None \<Rightarrow> '''' | Some v \<Rightarrow> v)"

definition slot_hash :: "hash \<Rightarrow> string \<Rightarrow> NodeValue8 \<times> NodeKey" where
  "slot_hash H v = (let x = ScalarToArrayBig (the (convertStringToBigInt v)) in
     (x, Hash H (ToUintArray (Some x)) BranchCapacity))"

definition bad_slot :: "(string \<rightharpoonup> string) \<Rightarrow> string \<Rightarrow> bool" where
  "bad_slot storage k \<longleftrightarrow> slot storage k \<noteq> '''' \<and> convertStringToBigInt (slot storage k) = None"

lemma calcHashVal_eq:
  "calcHashVal H v = (if convertStringToBigInt v = None then Inl (Panic ''nil pointer dereference'') else Inr (slot_hash H v))"
  by (auto simp: calcHashVal_def slot_hash_def Let_def NodeValue8FromBigIntArray_8 ScalarToArrayBig_def)

lemma hash_loop_eq:
  "hash_loop H storage ks =
    (if \<exists>k\<in>set ks. bad_slot storage k then Inl (Panic ''nil pointer dereference'')
     else Inr (map (\<lambda>k. (k, slot_hash H (slot storage k))) (filter (\<lambda>k. slot storage k \<noteq> '''') ks)))"
proof (induction ks)
  case (Cons k ks)
  then show ?case
    unfolding hash_loop.simps Let_def slot_def [symmetric]
    by (cases "slot storage k = ''''"; cases "convertStringToBigInt (slot storage k)")
       (simp_all add: calcHashVal_eq bad_slot_def)
qed simp

lemma set_stride: "0 < c \<Longrightarrow> set (stride c n j) = {i. j \<le> i \<and> i < n \<and> i mod c = j mod c}"
proof (induction c n j rule: stride.induct)
  case (1 c n j)
  have "i = j \<or> j + c \<le> i" if "j \<le> i" "i mod c = j mod c" for i
  proof (rule ccontr)
    assume "\<not> (i = j \<or> j + c \<le> i)"
    moreover have "c dvd i - j" using that by (simp add: mod_eq_dvd_iff_nat)
    ultimately show False using that nat_dvd_not_less [of "i - j" c] by linarith
  qed
  then show ?case
    using 1 by (subst stride.simps) fastforce
qed

lemma length_stride: "0 < c \<Longrightarrow> length (stride c n j) = (n - j + c - 1) div c"
proof (induction c n j rule: stride.induct)
  case (1 c n j)
  show ?case
  proof (cases "j < n")
    case True
    have "(n - j + c - 1) div c = Suc ((n - (j + c) + c - 1) div c)"
    proof (cases "n \<le> j + c")
      case True
      then have "n - j + c - 1 = c + (n - j - 1)" "n - j - 1 < c" using \<open>j < n\<close> 1(2) by auto
      then have "(n - j + c - 1) div c = 1" using 1(2) by (simp only: div_add_self1) simp
      then show ?thesis using True 1(2) by simp
    next
      case False
      then have "n - j + c - 1 = c + (n - (j + c) + c - 1)" by simp
      then show ?thesis using 1(2) by (simp only: div_add_self1)
    qed
    then show ?thesis using 1 True by (subst stride.simps) simp
  qed (use 1 in \<open>subst stride.simps, simp\<close>)
qed

lemma stride_fits:
  assumes "0 < c" shows "length (stride c n j) \<le> n div c + n mod c"
proof -
  have "(n - j + c - 1) div c \<le> (n + c - 1) div c" by (intro div_le_mono) simp
  also have "\<dots> = n div c + (n mod c + c - 1) div c"
  proof -
    have "n + c - 1 = (n mod c + c - 1) + (n div c) * c" using assms div_mult_mod_eq [of n c] by linarith
    then show ?thesis using assms by (metis add.commute div_mult_self1 less_not_refl)
  qed
  also have "(n mod c + c - 1) div c \<le> n mod c"
  proof (cases "n mod c = 0")
    case False
    then have "(n mod c + c - 1) div c = Suc ((n mod c - 1) div c)" using assms by (simp add: div_if)
    then show ?thesis using False assms mod_less_divisor [OF assms, of n] by simp
  qed (use assms in simp)
  finally show ?thesis using assms by (simp add: length_stride)
qed

lemma workers_loop_eq:
  fixes ks c
  defines "idxs j \<equiv> map ((!) ks) (stride c (length ks) j)"
  assumes "0 < c"
  shows "workers_loop H storage ks c (length ks div c + length ks mod c) js =
    hash_loop H storage (concat (map idxs js))"
proof (induction js)
  case (Cons j js)
  have "\<not> length ks div c + length ks mod c < length (filter P (idxs j))" for P
    unfolding not_less using length_filter_le [of P "idxs j"] stride_fits [OF assms(2), of "length ks" j]
    unfolding idxs_def length_map by (rule le_trans)
  then show ?case using Cons by (simp add: hash_loop_eq idxs_def [symmetric]) blast
qed simp

lemma set_workers:
  assumes "0 < c"
  shows "set (concat (map (\<lambda>j. map ((!) ks) (stride c (length ks) j)) [0..<c])) = set ks"
proof -
  have "\<exists>j<c. i \<in> set (stride c (length ks) j)" if "i < length ks" for i
    using assms that by (intro exI [of _ "i mod c"]) (simp add: set_stride)
  then show ?thesis using assms by (fastforce simp: set_stride in_set_conv_nth)
qed

lemma map_of_tagged:
  "map_of (rev (map (\<lambda>k. (k, f k)) (filter P ks))) = (\<lambda>k. if k \<in> set ks \<and> P k then Some (f k) else None)"
proof -
  have "map_of (map (\<lambda>k. (k, f k)) ks) = (\<lambda>k. if k \<in> set ks then Some (f k) else None)" for ks
    by (induction ks) (auto simp: fun_eq_iff)
  from this [of "rev (filter P ks)"] show ?thesis by (simp add: rev_map)
qed

section \<open>Properties of the writers\<close>

text \<open>
  C10. Hashing the slots of a contract in parallel gives what the sequential loop gives, for every
  number of workers and every order of the keys: the same table, or the same panic on a value that is
  no number; and no worker writes outside its arrays. The empty key, which the merge skips, is excluded.
\<close>

theorem hash_slots_parallel_agrees:
  assumes "0 < cpuNum" "'''' \<notin> set (map fst storage)"
  shows "hash_slots H cpuNum storage =
    rbind (hash_loop H (map_of storage) (map fst storage)) (\<lambda>r. Inr (map_of (rev r)))"
proof (cases "100 < length storage")
  case True
  define ks where "ks = map fst storage"
  define js where "js = concat (map (\<lambda>j. map ((!) ks) (stride cpuNum (length ks) j)) [0..<cpuNum])"
  have s: "set js = set ks" unfolding js_def by (rule set_workers [OF assms(1)])
  have loop: "workers_loop H (map_of storage) ks cpuNum (length ks div cpuNum + length ks mod cpuNum) [0..<cpuNum] =
      hash_loop H (map_of storage) js"
    unfolding js_def by (rule workers_loop_eq [OF assms(1)])
  have ne: "filter (\<lambda>e. fst e \<noteq> '''') (map (\<lambda>k. (k, f k)) (filter P js)) = map (\<lambda>k. (k, f k)) (filter P js)"
    for f :: "string \<Rightarrow> NodeValue8 \<times> NodeKey" and P
    using assms(2) unfolding ks_def [symmetric] s [symmetric] by (auto simp: filter_id_conv)
  show ?thesis
    using True assms(1) unfolding hash_slots_def Let_def ks_def [symmetric] loop hash_loop_eq s
    by (auto simp: ne map_of_tagged s)
qed (simp add: hash_slots_def Let_def)

theorem hash_slots_parallel_agrees_witness:
  "\<exists>hm. hash_slots toy_hash 3 (map (\<lambda>i. (replicate (Suc i) (CHR ''1''), ''5'')) [0..<101]) = Inr hm \<and>
    hm ''11'' = Some (ScalarToArrayBig 5, toy_hash (ToUintArray (Some (ScalarToArrayBig 5))) BranchCapacity) \<and> hm ''2'' = None"
proof -
  define st where "st = map (\<lambda>i. (replicate (Suc i) (CHR ''1''), ''5'')) [0..<101]"
  have five: "convertStringToBigInt ''5'' = Some 5"
    by (simp add: convertStringToBigInt_def HasPrefix0x_def big_SetString_def digits_value_def digit_value_def fromHexChar_def)
  have key: "k \<in> fst ` set st \<Longrightarrow> map_of st k = Some ''5''" for k
    by (cases "map_of st k") (auto simp: map_of_eq_None_iff st_def dest!: map_of_SomeD)
  have two: "''11'' = replicate (Suc 1) (CHR ''1'')" by simp
  have mem: "''11'' \<in> fst ` set st" unfolding two st_def by (force simp del: replicate_Suc)
  have out: "''2'' \<notin> fst ` set st" "'''' \<notin> set (map fst st)" by (auto simp: st_def)
  have "\<not> (\<exists>k\<in>fst ` set st. bad_slot (map_of st) k)"
    using key five by (simp add: bad_slot_def slot_def)
  then have "hash_slots toy_hash 3 st =
      Inr (\<lambda>k. if k \<in> fst ` set st \<and> slot (map_of st) k \<noteq> '''' then Some (slot_hash toy_hash (slot (map_of st) k)) else None)"
    using hash_slots_parallel_agrees [OF _ out(2), of 3 toy_hash] by (simp add: hash_loop_eq map_of_tagged)
  then show ?thesis
    unfolding st_def [symmetric] using mem out(1) key [OF mem] five
    by (simp add: slot_def slot_hash_def Let_def Hash_def)
qed

section \<open>An address as a number\<close>

lemma fromHexChar_upper:
  "d < 16 \<Longrightarrow> of_char (hex_digit d) > (57 :: nat) \<Longrightarrow> fromHexChar (upper_char (hex_digit d)) = Some d"
  by (auto simp: hex_digit_def upper_char_def fromHexChar_def split: if_splits)

lemma fromHexChar_checksum:
  assumes "d < 16" shows "fromHexChar (checksum_char hash i (hex_digit d)) = Some d"
  using assms fromHexChar_upper [OF assms] by (simp add: checksum_char_def Let_def)

lemma hex_value_cong: "map fromHexChar cs = map fromHexChar cs' \<Longrightarrow> hex_value cs = hex_value cs'"
proof -
  have "foldl (\<lambda>a c. a * 16 + the (fromHexChar c)) a xs = foldl (\<lambda>a d. a * 16 + the d) a (map fromHexChar xs)" for a xs
    by (induction xs arbitrary: a) simp_all
  then show "map fromHexChar cs = map fromHexChar cs' \<Longrightarrow> hex_value cs = hex_value cs'"
    by (simp only: hex_value_def)
qed

lemma hex_Decode_EncodeToString: "hex_Decode (hex_EncodeToString bs) = bs"
proof (induction bs)
  case (Cons b bs)
  have "of_nat (unat b div 16 * 16 + unat b mod 16) = b" by (simp add: div_mult_mod_eq)
  moreover have "unat b div 16 < 16" using byte_less [of b] by simp
  ultimately show ?case using Cons by (simp add: hex_EncodeToString_def byte_hex_digits byte_digits_def)
qed (simp add: hex_EncodeToString_def)

lemma hex_value_EncodeToString: "hex_value (hex_EncodeToString bs) = SetBytes bs"
  using hex_Decode_value [of "hex_EncodeToString bs"] hex_EncodeToString_props [of bs]
  by (simp add: hex_Decode_EncodeToString)

lemma ConvertHexToBigInt_checksumHex: "ConvertHexToBigInt (checksumHex keccak a) = int (SetBytes a)"
proof -
  let ?ds = "hex_EncodeToString a"
  define hash where "hash = keccak (map of_char ?ds)"
  define cs where "cs = map (\<lambda>i. checksum_char hash i (?ds ! i)) [0..<length ?ds]"
  have "\<exists>d<16. c = hex_digit d" if "c \<in> set ?ds" for c
    using that byte_digits_less by (auto simp: hex_EncodeToString_def byte_hex_digits)
  then have same: "fromHexChar (checksum_char hash i (?ds ! i)) = fromHexChar (?ds ! i)" if "i < length ?ds" for i
    using that nth_mem [of i ?ds] fromHexChar_checksum fromHexChar_hex_digit by metis
  then have m: "map fromHexChar cs = map fromHexChar ?ds"
    by (intro nth_equalityI) (simp_all add: cs_def)
  have "hex_string cs"
    using hex_EncodeToString_props(1) [of a] same by (auto simp: cs_def hex_string_def)
  then have "ConvertHexToBigInt (''0x'' @ cs) = int (hex_value cs)" by (rule SetBytes_ConvertHex)
  then show ?thesis
    unfolding hex_value_cong [OF m] hex_value_EncodeToString
    unfolding checksumHex_def Let_def hash_def [symmetric] cs_def [symmetric] .
qed

section \<open>Sequences of writes\<close>

abbreviation limbs_of :: "int \<Rightarrow> uint64 list" where
  "limbs_of n \<equiv> ToUintArray (Some (ScalarToArrayBig n))"

text \<open>The entries after some writes, and that the hash is good on every tree on the way.\<close>

fun writes :: "(NodeKey \<times> int) list \<Rightarrow> entry list \<Rightarrow> entry list" where
  "writes [] es = es"
| "writes ((k, n) # ws) es = writes ws (update_entry k (limbs_of n) es)"

fun safe_writes :: "hash \<Rightarrow> (NodeKey \<times> int) list \<Rightarrow> entry list \<Rightarrow> bool" where
  "safe_writes H [] es = collision_free H es"
| "safe_writes H ((k, n) # ws) es = (collision_free H es \<and> safe_writes H ws (update_entry k (limbs_of n) es))"

lemma writes_append: "writes (xs @ ys) es = writes ys (writes xs es)"
  by (induction xs es rule: writes.induct) simp_all

lemma safe_writes_start: "safe_writes H ws es \<Longrightarrow> collision_free H es"
  by (cases ws) auto

lemma safe_writes_append: "safe_writes H (xs @ ys) es \<longleftrightarrow> safe_writes H xs es \<and> safe_writes H ys (writes xs es)"
  by (induction H xs es rule: safe_writes.induct) (auto dest: safe_writes_start)

lemma length_limbs: "length (limbs_of n) = 8"
  by (simp add: ToUintArray_def)

lemma limbs_zero_iff: "limbs_of n = replicate 8 0 \<longleftrightarrow> n mod 2 ^ 256 = 0"
proof
  assume "limbs_of n = replicate 8 0"
  then have "limb_value (limbs_of n) = 0" by (simp only: limbs_zero)
  then show "n mod 2 ^ 256 = 0" by (simp only: limb_value_ScalarToArrayBig)
next
  assume "n mod 2 ^ 256 = 0"
  then have *: "limb_value (limbs_of n) = 0" by (simp only: limb_value_ScalarToArrayBig)
  have "v = replicate (length v) 0" if "limb_value v = 0" for v
    using that
  proof (induction v)
    case (Cons w v)
    have "uint w = 0" "limb_value v = 0"
      using Cons.prems limb_value_nonneg [of v] by (simp_all add: limb_value_def add_nonneg_eq_0_iff)
    then show ?case using Cons.IH by (simp add: uint_0_iff)
  qed simp
  from this [OF *] show "limbs_of n = replicate 8 0" unfolding length_limbs .
qed

lemma writes_other: "k \<notin> fst ` set ws \<Longrightarrow> map_of (writes ws es) k = map_of es k"
  by (induction ws es rule: writes.induct) (simp_all add: map_of_update)

lemma writes_read:
  "distinct (map fst ws) \<Longrightarrow> (k, n) \<in> set ws \<Longrightarrow> n mod 2 ^ 256 \<noteq> 0 \<Longrightarrow> map_of (writes ws es) k = Some (limbs_of n)"
proof (induction ws es rule: writes.induct)
  case (2 k' n' ws es)
  show ?case
  proof (cases "(k, n) = (k', n')")
    case True
    have set: "map_of (update_entry k v es) k = Some v" if "v \<noteq> replicate 8 0" for v
      using that by (simp add: map_of_update)
    have "limbs_of n \<noteq> replicate 8 0" using 2(4) unfolding limbs_zero_iff .
    moreover have "k \<notin> fst ` set ws" using 2(2) True by simp
    ultimately show ?thesis using True set [of "limbs_of n"] writes_other [of k ws] by (simp only: prod.inject writes.simps not_False_eq_True)
  next
    case False
    then have "(k, n) \<in> set ws" using 2(3) by auto
    moreover have "distinct (map fst ws)" using 2(2) by simp
    ultimately show ?thesis unfolding writes.simps by (intro 2(1) 2(4))
  qed
qed (simp only: list.set empty_iff)

lemma writes_8:
  "\<forall>e\<in>set es. length (snd e) = 8 \<Longrightarrow> \<forall>e\<in>set (writes ws es). length (snd e) = 8"
proof (induction ws es rule: writes.induct)
  case (2 k n ws es)
  have "\<forall>e\<in>set (update_entry k v es). length (snd e) = 8" if "length v = 8" for v
    using 2(2) that by (auto simp: update_entry_def Let_def)
  from 2(1) [OF this [OF length_limbs]] show ?case unfolding writes.simps .
qed simp

lemma write_holds:
  assumes "holds H s es" "collision_free H es" "collision_free H (update_entry k (limbs_of n) es)"
  shows "\<exists>r s1 s'. InsertKA H MemDb_DB s k n = Inr (r, s1) \<and> insertKeySource MemDb_DB s1 k ks = Inr s' \<and>
    holds H s' (update_entry k (limbs_of n) es)"
proof -
  obtain mode s1 where s1: "SMT_Insert H MemDb_DB s k (ScalarToArrayBig n) =
      Inr (\<lparr>NewRootScalar = hash_of H 0 (update_entry k (limbs_of n) es), Mode = mode\<rparr>, s1)"
    "holds H s1 (update_entry k (limbs_of n) es)"
    using SMT_Insert_holds [OF assms(1,2) _ None_ScalarToArrayBig refl assms(3)] by auto
  have "MemDb_ok (smt_Db s1)" using s1(2) by (simp add: holds_state_def)
  from memdb.InsertKeySource [OF this, of k ks] obtain db where db:
    "DB_InsertKeySource MemDb_DB (smt_Db s1) k ks = Inr db" "MemDb_ok db"
    "MemDb_nodes db = MemDb_nodes (smt_Db s1)" "LastRoot db = LastRoot (smt_Db s1)" by blast
  then have "insertKeySource MemDb_DB s1 k ks = Inr (s1\<lparr>smt_Db := db\<rparr>)" by (simp add: insertKeySource_def)
  moreover have "holds H (s1\<lparr>smt_Db := db\<rparr>) (update_entry k (limbs_of n) es)"
    using s1(2) db(2-4) by (simp add: holds_state_def)
  ultimately show ?thesis
    using s1(1) by (auto simp: InsertKA_def SMT_Insert_def NodeValue8FromBigIntArray_8)
qed

lemma SetAccountState_holds:
  assumes "holds H s es" "safe_writes H [(KeyEthAddrBalance H a, b), (KeyEthAddrNonce H a, n)] es"
  shows "\<exists>root s'. SetAccountState H MemDb_DB s a b n = Inr (root, s') \<and>
    holds H s' (writes [(KeyEthAddrBalance H a, b), (KeyEthAddrNonce H a, n)] es)"
proof -
  let ?k1 = "KeyEthAddrBalance H a" and ?k2 = "KeyEthAddrNonce H a"
  let ?es1 = "update_entry ?k1 (limbs_of b) es"
  have c: "collision_free H es" "collision_free H ?es1" "collision_free H (update_entry ?k2 (limbs_of n) ?es1)"
    using assms(2) by simp_all
  obtain r1 t1 s1 where 1: "InsertKA H MemDb_DB s ?k1 b = Inr (r1, t1)"
    "insertKeySource MemDb_DB t1 ?k1 (EncodeKeySource KEY_BALANCE (ConvertHexToAddress a) (replicate 32 0)) = Inr s1"
    "holds H s1 ?es1" using write_holds [OF assms(1) c(1,2)] by blast
  obtain r2 t2 s2 where 2: "InsertKA H MemDb_DB s1 ?k2 n = Inr (r2, t2)"
    "insertKeySource MemDb_DB t2 ?k2 (EncodeKeySource KEY_NONCE (ConvertHexToAddress a) (replicate 32 0)) = Inr s2"
    "holds H s2 (update_entry ?k2 (limbs_of n) ?es1)" using write_holds [OF 1(3) c(2,3)] by blast
  show ?thesis
    using 1(1,2) 2 by (simp add: SetAccountState_def SetAccountBalance_def SetAccountNonce_def)
qed

lemma SetContractBytecode_holds:
  assumes "holds H s es" "convertBytecodeToBigInt H code = Inr (h, len)"
    and "safe_writes H [(KeyContractCode H a, h), (KeyContractLength H a, len)] es"
  shows "\<exists>s'. SetContractBytecode H MemDb_DB s a code = Inr s' \<and>
    holds H s' (writes [(KeyContractCode H a, h), (KeyContractLength H a, len)] es)"
proof -
  let ?k1 = "KeyContractCode H a" and ?k2 = "KeyContractLength H a"
  let ?es1 = "update_entry ?k1 (limbs_of h) es"
  have c: "collision_free H es" "collision_free H ?es1" "collision_free H (update_entry ?k2 (limbs_of len) ?es1)"
    using assms(3) by simp_all
  obtain r1 t1 s1 where 1: "InsertKA H MemDb_DB s ?k1 h = Inr (r1, t1)"
    "insertKeySource MemDb_DB t1 ?k1 (EncodeKeySource SC_CODE (ConvertHexToAddress a) (replicate 32 0)) = Inr s1"
    "holds H s1 ?es1" using write_holds [OF assms(1) c(1,2)] by blast
  obtain r2 t2 s2 where 2: "InsertKA H MemDb_DB s1 ?k2 len = Inr (r2, t2)"
    "insertKeySource MemDb_DB t2 ?k2 (EncodeKeySource SC_LENGTH (ConvertHexToAddress a) (replicate 32 0)) = Inr s2"
    "holds H s2 (update_entry ?k2 (limbs_of len) ?es1)" using write_holds [OF 1(3) c(2,3)] by blast
  show ?thesis using 1(1,2) 2 assms(2) by (simp add: SetContractBytecode_def)
qed

lemma written_is_read:
  assumes "holds H s (writes ws es)" "safe_writes H ws es" "\<forall>e\<in>set es. length (snd e) = 8"
    and "distinct (map fst ws)" "(k, n) \<in> set ws" "0 < n" "n < 2 ^ 256"
  shows "getValueInBytes MemDb_DB s k = Some (Inr (big_Bytes (nat n)))"
proof -
  let ?es = "writes ws es"
  have n: "n mod 2 ^ 256 = n" using assms(6,7) by (simp only: mod_pos_pos_trivial less_imp_le)
  have "n mod 2 ^ 256 \<noteq> 0" unfolding n using assms(6) by simp
  with assms(4,5) have "map_of ?es k = Some (limbs_of n)" by (rule writes_read)
  then have mem: "(k, limbs_of n) \<in> set ?es" by (rule map_of_SomeD)
  have d: "distinct (map fst ?es)" using assms(1) by (simp add: holds_state_def)
  have "safe_writes H [] ?es" using assms(2) safe_writes_append [of H ws "[]" es] by simp
  then have nz: "nonzero_nodes H (nodes_of H 0 ?es)" by (simp add: collision_free_def)
  have "limb_value (limbs_of n) = n" unfolding limb_value_ScalarToArrayBig by (rule n)
  with memdb.getValueInBytes_leaf [OF assms(1) nz writes_8 [OF assms(3)], of k] tree_leaf_sub [OF d mem, of 0]
  show ?thesis by (simp only: sub_0 le0 option.case prod.case)
qed

lemma below_256: "n < 2 ^ k \<Longrightarrow> k \<le> 256 \<Longrightarrow> (n :: int) < 2 ^ 256"
  by (erule order.strict_trans2) (simp only: power_increasing one_le_numeral)

lemma uint_less_length: "uint (w :: 'a::len word) < 2 ^ LENGTH('a)"
  by simp

lemma uint_pos: "w \<noteq> 0 \<Longrightarrow> 0 < uint w"
  by (metis order_le_less uint_0_iff unsigned_greater_eq)

lemma ucast_u256: "ucast (ucast n :: u256) = (n :: uint64)"
  by (rule bit_word_eqI) (auto simp: bit_simps)

lemma int_less_power: "n < 2 ^ k \<Longrightarrow> int n < 2 ^ k"
  by (metis of_nat_less_iff of_nat_numeral of_nat_power)

lemma ToBigInt_less: "NodeKey_ToBigInt k < 2 ^ 256"
proof -
  have "NodeKey_ToBigInt k = NodeKey_ToBigInt k mod 2 ^ 256"
    unfolding ToBigInt_ScalarToRoot [symmetric] ScalarToRoot_ToBigInt ..
  also have "\<dots> < 2 ^ 256" by (rule pos_mod_bound) simp
  finally show ?thesis .
qed

section \<open>Properties of the readers\<close>

text \<open>What the two writers of an account write, in their order.\<close>

definition account_writes :: "hash \<Rightarrow> string \<Rightarrow> Account \<Rightarrow> int \<Rightarrow> nat \<Rightarrow> (NodeKey \<times> int) list" where
  "account_writes H a acc h len =
     [(KeyEthAddrBalance H a, uint (acc_Balance acc)), (KeyEthAddrNonce H a, uint (acc_Nonce acc)),
      (KeyContractCode H a, h), (KeyContractLength H a, int len)]"

text \<open>
  C6. What is written for an account is read back: on a tree that holds any entries, \<open>SetAccountStorage\<close>
  and then \<open>SetContractBytecode\<close> succeed, and afterwards \<open>ReadAccountData\<close> ends and returns the
  balance, the nonce and the hash of the bytecode, and \<open>ReadAccountCodeSize\<close> the number of its bytes.
  The hypotheses are that the four keys differ, that the hash is good on the trees on the way, and
  that none of the four numbers is zero (a zero is a deletion). The spelling of the address that
  \<open>keccak\<close> gives does not matter.
\<close>

theorem account_round_trip:
  assumes "holds H s es" "\<forall>e\<in>set es. length (snd e) = 8"
    and "hex_string (TrimPrefix0x code)" "length code < 2 ^ 63" "HashContractBytecodeBigInt H code = Inr h"
    and "safe_writes H (account_writes H (checksumHex keccak addr) acc h ((length (TrimPrefix0x code) + 1) div 2)) es"
    and "distinct (map fst (account_writes H (checksumHex keccak addr) acc h ((length (TrimPrefix0x code) + 1) div 2)))"
    and "acc_Balance acc \<noteq> 0" "acc_Nonce acc \<noteq> 0" "h \<noteq> 0" "TrimPrefix0x code \<noteq> ''''"
  shows "\<exists>s1 s2. SetAccountStorage keccak H MemDb_DB s addr (Some acc) = Inr s1 \<and>
    SetContractBytecode H MemDb_DB s1 (checksumHex keccak addr) code = Inr s2 \<and>
    ReadAccountData keccak H MemDb_DB s2 addr =
      Some (Inr \<lparr>acc_Initialised = False, acc_Nonce = acc_Nonce acc, acc_Balance = acc_Balance acc, acc_Root = replicate 32 0,
        acc_CodeHash = BytesToHash (big_Bytes (nat h)), acc_Incarnation = 0, acc_PrevIncarnation = 0\<rparr>) \<and>
    ReadAccountCodeSize keccak H MemDb_DB s2 addr = Some (Inr (of_nat ((length (TrimPrefix0x code) + 1) div 2)))"
proof -
  define a len where "a = checksumHex keccak addr" and "len = (length (TrimPrefix0x code) + 1) div 2"
  let ?w1 = "[(KeyEthAddrBalance H a, uint (acc_Balance acc)), (KeyEthAddrNonce H a, uint (acc_Nonce acc))]"
  let ?w2 = "[(KeyContractCode H a, h), (KeyContractLength H a, int len)]"
  have ws: "account_writes H a acc h len = ?w1 @ ?w2" by (simp add: account_writes_def)
  have safe: "safe_writes H (?w1 @ ?w2) es" and dist: "distinct (map fst (?w1 @ ?w2))"
    using assms(6,7) unfolding a_def [symmetric] len_def [symmetric] ws by simp_all
  have s12: "safe_writes H ?w1 es" "safe_writes H ?w2 (writes ?w1 es)" using safe unfolding safe_writes_append by blast+
  obtain root s1 where s1: "SetAccountState H MemDb_DB s a (uint (acc_Balance acc)) (uint (acc_Nonce acc)) = Inr (root, s1)"
    "holds H s1 (writes ?w1 es)" using SetAccountState_holds [OF assms(1) s12(1)] by blast
  have conv: "convertBytecodeToBigInt H code = Inr (h, int len)"
    using assms(5,11) by (auto simp: convertBytecodeToBigInt_def Let_def len_def TrimPrefix0x_def elim!: oddE evenE)
  obtain s2 where s2: "SetContractBytecode H MemDb_DB s1 a code = Inr s2" "holds H s2 (writes (?w1 @ ?w2) es)"
    using SetContractBytecode_holds [OF s1(2) conv s12(2)] unfolding writes_append by blast
  note read = written_is_read [OF s2(2) safe assms(2) dist]
  have h: "0 < h" "h < 2 ^ 256"
    using bytecode_hash [OF assms(3), of H] assms(5,10) ToBigInt_nonneg ToBigInt_less by (auto simp: order.strict_iff_order)
  have "len \<le> length (TrimPrefix0x code)" "0 < len" using assms(11) by (cases "TrimPrefix0x code"; simp add: len_def)+
  moreover have "length (TrimPrefix0x code) \<le> length code" by (simp add: TrimPrefix0x_def)
  ultimately have len: "0 < len" "len < 2 ^ 63" using assms(4) by (blast intro: le_less_trans)+
  have bounds: "uint (acc_Balance acc) < 2 ^ 256" "uint (acc_Nonce acc) < 2 ^ 256" "int len < 2 ^ 256"
    by (rule below_256 [OF uint_less_length], simp, rule below_256 [OF uint_less_length], simp)
       (rule below_256 [OF int_less_power [OF len(2)]], simp)
  have pos: "0 < uint (acc_Balance acc)" "0 < uint (acc_Nonce acc)" "0 < int len"
    using assms(8,9) len(1) by (simp_all add: uint_pos)
  have r: "getValueInBytes MemDb_DB s2 (KeyEthAddrBalance H a) = Some (Inr (big_Bytes (nat (uint (acc_Balance acc)))))"
    "getValueInBytes MemDb_DB s2 (KeyEthAddrNonce H a) = Some (Inr (big_Bytes (nat (uint (acc_Nonce acc)))))"
    "getValueInBytes MemDb_DB s2 (KeyContractCode H a) = Some (Inr (big_Bytes (nat h)))"
    "getValueInBytes MemDb_DB s2 (KeyContractLength H a) = Some (Inr (big_Bytes (nat (int len))))"
    by (rule read [OF _ pos(1) bounds(1)], simp, rule read [OF _ pos(2) bounds(2)], simp)
       (rule read [OF _ h], simp, rule read [OF _ pos(3) bounds(3)], simp)
  show ?thesis
    using s1(1) s2(1) r len(2) unfolding a_def [symmetric] len_def [symmetric]
    by (simp add: SetAccountStorage_def ReadAccountData_def GetAccountBalance_def GetAccountNonce_def GetAccountCodeHash_def
        ReadAccountCodeSize_def getValue_def a_def [symmetric] KeyEthAddrBalance_def KeyEthAddrNonce_def
        KeyContractCode_def KeyContractLength_def not_le ucast_u256)
qed

text \<open>A small hash for the example: it tells the four keys of an account and the nodes of their tree apart.\<close>

definition acct_hash :: hash where
  "acct_hash x c =
     (if nk1 c = 0 then NodeKey (nk0 c + 1) (x ! 0) (x ! 5) (x ! 4)
      else NodeKey (x ! 6) (x ! 6 div 2) (x ! 6 div 4) 0)"

definition acct_example :: Account where
  "acct_example = \<lparr>acc_Initialised = True, acc_Nonce = 7, acc_Balance = 100, acc_Root = replicate 32 0,
     acc_CodeHash = replicate 32 0, acc_Incarnation = 0, acc_PrevIncarnation = 0\<rparr>"

lemma acct_capacity: "\<exists>a b c d. StringToH4 HASH_POSEIDON_ALL_ZEROES = Inr (NodeKey a b c d) \<and> b \<noteq> 0"
  by (simp add: StringToH4_def HASH_POSEIDON_ALL_ZEROES_def HasPrefix0x_def h4_chunk_def digits_value_def digit_value_def
      fromHexChar_def)

lemma acct_keys:
  "KeyEthAddrBalance acct_hash a = NodeKey 0 0 0 0" "KeyEthAddrNonce acct_hash a = NodeKey 1 0 0 0"
  "KeyContractCode acct_hash a = NodeKey 2 1 0 0" "KeyContractLength acct_hash a = NodeKey 4 2 1 0"
  using acct_capacity
  by (auto simp: KeyEthAddrBalance_def KeyEthAddrNonce_def KeyContractCode_def KeyContractLength_def Key_def Let_def
      KEY_BALANCE_def KEY_NONCE_def SC_CODE_def SC_LENGTH_def acct_hash_def Hash_def ToUintArray_def big_Uint64_def
      nth_append min_absorb2)

lemma acct_code_hash: "HashContractBytecodeBigInt acct_hash ''0x0101'' = Inr (1 + 65793 * 2 ^ 64)"
proof -
  have "chain_hash acct_hash (code_blocks ''0101'') (marked (padded_code ''0101'')) (NodeKey 0 0 0 0) = NodeKey 1 65793 0 0"
    by (simp add: code_blocks_def code_digits_def padded_code_def marked_def word7_def acct_hash_def fromHexChar_def
        SetBytes_Cons butlast_append butlast_conv_take SetBytes_zeros [where bs = "[]", simplified])
  then show ?thesis
    using bytecode_hash [of "''0x0101''" acct_hash]
    by (simp add: TrimPrefix0x_def fromHexChar_def NodeKey_ToBigInt_def ArrayToScalar_def nk_list_def)
qed

lemma acct_limbs:
  "limbs_of 100 = [100, 0, 0, 0, 0, 0, 0, 0]" "limbs_of 7 = [7, 0, 0, 0, 0, 0, 0, 0]"
  "limbs_of (1 + 65793 * 2 ^ 64) = [1, 0, 65793, 0, 0, 0, 0, 0]" "limbs_of 2 = [2, 0, 0, 0, 0, 0, 0, 0]"
  by (simp_all add: ScalarToArrayBig_def ToUintArray_def mask32_def upt_rec big_Uint64_def)

lemma acct_collision_free:
  "collision_free acct_hash []"
  "collision_free acct_hash [(NodeKey 0 0 0 0, [100, 0, 0, 0, 0, 0, 0, 0])]"
  "collision_free acct_hash [(NodeKey 1 0 0 0, [7, 0, 0, 0, 0, 0, 0, 0]), (NodeKey 0 0 0 0, [100, 0, 0, 0, 0, 0, 0, 0])]"
  "collision_free acct_hash [(NodeKey 2 1 0 0, [1, 0, 65793, 0, 0, 0, 0, 0]), (NodeKey 1 0 0 0, [7, 0, 0, 0, 0, 0, 0, 0]),
    (NodeKey 0 0 0 0, [100, 0, 0, 0, 0, 0, 0, 0])]"
  "collision_free acct_hash [(NodeKey 4 2 1 0, [2, 0, 0, 0, 0, 0, 0, 0]), (NodeKey 2 1 0 0, [1, 0, 65793, 0, 0, 0, 0, 0]),
    (NodeKey 1 0 0 0, [7, 0, 0, 0, 0, 0, 0, 0]), (NodeKey 0 0 0 0, [100, 0, 0, 0, 0, 0, 0, 0])]"
  by (simp_all add: collision_free_def nonzero_nodes_def nodes_of_branch hash_of_branch branch_input_def side_Cons path_bit_def
      leaf_input_def acct_hash_def nk_list_def LeafCapacity_def BranchCapacity_def RemoveKeyBits_def nk_of_def)

theorem account_round_trip_witness:
  "\<exists>s1 s2. SetAccountStorage (\<lambda>_. replicate 32 255) acct_hash MemDb_DB (NewSMT NewMemDb False) (replicate 20 0xab) (Some acct_example) = Inr s1 \<and>
    SetContractBytecode acct_hash MemDb_DB s1 (checksumHex (\<lambda>_. replicate 32 255) (replicate 20 0xab)) ''0x0101'' = Inr s2 \<and>
    ReadAccountData (\<lambda>_. replicate 32 255) acct_hash MemDb_DB s2 (replicate 20 0xab) =
      Some (Inr \<lparr>acc_Initialised = False, acc_Nonce = 7, acc_Balance = 100, acc_Root = replicate 32 0,
        acc_CodeHash = BytesToHash (big_Bytes (nat (1 + 65793 * 2 ^ 64))), acc_Incarnation = 0, acc_PrevIncarnation = 0\<rparr>) \<and>
    ReadAccountCodeSize (\<lambda>_. replicate 32 255) acct_hash MemDb_DB s2 (replicate 20 0xab) = Some (Inr 2)"
proof -
  define h where "h = (1 + 65793 * 2 ^ 64 :: int)"
  have code: "TrimPrefix0x ''0x0101'' = ''0101''" "hex_string ''0101''"
    by (simp_all add: TrimPrefix0x_def fromHexChar_def)
  have w: "account_writes acct_hash a acct_example h 2 =
      [(NodeKey 0 0 0 0, 100), (NodeKey 1 0 0 0, 7), (NodeKey 2 1 0 0, h), (NodeKey 4 2 1 0, 2)]" for a
    by (simp add: account_writes_def acct_keys acct_example_def)
  have safe: "safe_writes acct_hash [(NodeKey 0 0 0 0, 100), (NodeKey 1 0 0 0, 7), (NodeKey 2 1 0 0, h), (NodeKey 4 2 1 0, 2)] []"
    unfolding h_def safe_writes.simps acct_limbs
    using acct_collision_free by (simp add: update_entry_def Let_def replicate_78)
  have len: "(length (TrimPrefix0x ''0x0101'') + 1) div 2 = 2" by (simp add: code)
  have ws: "safe_writes acct_hash (account_writes acct_hash a acct_example h ((length (TrimPrefix0x ''0x0101'') + 1) div 2)) []"
    "distinct (map fst (account_writes acct_hash a acct_example h ((length (TrimPrefix0x ''0x0101'') + 1) div 2)))" for a
    unfolding len w by (rule safe) simp
  have e: "\<forall>e\<in>set []. length (snd e) = 8" "hex_string (TrimPrefix0x ''0x0101'')" "length ''0x0101'' < 2 ^ 63"
    "acc_Balance acct_example \<noteq> 0" "acc_Nonce acct_example \<noteq> 0" "h \<noteq> 0" "TrimPrefix0x ''0x0101'' \<noteq> ''''"
    unfolding code(1) using code(2) by (simp_all add: acct_example_def h_def)
  have v: "acc_Nonce acct_example = 7" "acc_Balance acct_example = 100" "of_nat 2 = (2 :: goint)"
    by (simp_all add: acct_example_def)
  show ?thesis
    using account_round_trip [OF holds_empty e(1-3) acct_code_hash [folded h_def] ws e(4-7)] unfolding len v h_def .
qed

text \<open>
  An empty value, which the hashing loop skips, has no entry in the tables that \<open>InsertStorage\<close>
  reads through: writing it to a slot ends in a nil dereference.
\<close>

lemma SetContractStorage_empty_value:
  assumes "holds H s es" "StrValToBigInt k \<noteq> None"
  shows "SetContractStorage H MemDb_DB cpuNum s a [(k, '''')] [k] = Inl (Panic ''nil pointer dereference'')"
proof -
  have "getLastRoot MemDb_DB s = Inr (hash_of H 0 es)"
    using assms(1) memdb.GetLastRoot by (simp add: holds_state_def getLastRoot_def ScalarToRoot_ToBigInt)
  moreover obtain kn where "KeyContractStorage H (ScalarToArrayBig (ConvertHexToBigInt a)) k = Inr kn"
    using assms(2) by (auto simp: KeyContractStorage_def Let_def NodeValue8FromBigIntArray_8)
  ultimately show ?thesis
    using assms(2) by (simp add: SetContractStorage_def hash_slots_def Let_def InsertStorage_def)
qed

end
