(* ===== verification/Spec2Isabelle.thy ===== *)
theory Spec2Isabelle
  imports L1InfoTree ZkBatchCounters SmtProof SmtClean SmtTypes SmtState
begin

text \<open>
  \<^bold>\<open>Verification of the zkEVM components of xlayer-erigon.\<close>

  The program is an Ethereum client (a fork of Erigon) that runs the X Layer rollup. This development
  covers the deterministic core that the rollup adds to the client: the sparse Merkle tree that holds
  the state, the tree of global exit roots, the format in which batches of transactions are posted to
  L1, and the counters that keep a batch within the capacity of the prover.

  \<^bold>\<open>Conventions.\<close> A Go function is a HOL function. What can fail returns \<open>error + 'a\<close>: \<open>Err\<close> is a
  returned error, \<open>Panic\<close> a run-time panic, and \<open>rbind\<close> is the early return. Integers of the machine
  are words, so they wrap; \<open>big.Int\<close> is \<open>int\<close>, and \<open>int option\<close> where the code lets a pointer be nil.
  Mutable state is passed and returned; the transaction counters, which are shared by pointer, live in
  a store. A Go map that is ranged over is a list in the order of the iteration. Third-party code is a
  parameter: the Poseidon hash (\<open>H\<close>, \<open>hashFunc\<close>), Keccak (\<open>keccak\<close>), the square root of the 256-bit
  integers and the choice of the nodes that a proof retains.

  \<^bold>\<open>Foundations.\<close>
  \<^item> \<open>Prelude\<close>: machine types, results, checked slice access, bytes and hexadecimal digits.
  \<^item> \<open>GoFloat\<close>: the \<open>float64\<close> arithmetic that the counters use, correctly rounded on rationals.
  \<^item> \<open>TxTypes\<close>: the transactions of \<open>core/types\<close> as the zkEVM code reads them.
  \<^item> \<open>DbUtils\<close>: the key codecs of \<open>zk/hermez_db/utils.go\<close>. Keys split into what they were made of, and
    the order of their bytes is the order of the numbers.

  \<^bold>\<open>State tree\<close> (\<open>smt/pkg\<close>).
  \<^item> \<open>SmtUtils\<close>, \<open>SmtScalar\<close> (\<open>utils/utils.go\<close>, \<open>utils/utils_xlayer.go\<close>): keys, values, paths and their
    conversions. A path identifies its key, the fast conversions agree with the slow ones, and
    \<open>ScalarToNodeKey\<close> ends exactly on the numbers that are not negative.
  \<^item> \<open>SmtDb\<close> (\<open>db/mem-db.go\<close>): the in-memory database, and the locale \<open>node_db\<close>, the contract the tree
    relies on; it is interpreted on that database.
  \<^item> \<open>Smt\<close> (\<open>smt/smt.go\<close>): \<open>insert\<close> in its seven modes, \<open>Insert\<close>, \<open>InsertKA\<close> and \<open>InsertBI\<close>.
  \<^item> \<open>SmtTree\<close>, \<open>SmtInsert\<close>: the abstract tree of a list of entries, and that insertion refines the
    update of a map; hence the root depends on the contents and not on the history.
  \<^item> \<open>SmtTypes\<close>: what an insertion keeps for every hash, with collisions, in every state that the operations
    on a tree over a fresh in-memory database lead to.
  \<^item> \<open>SmtRead\<close> (\<open>smt.go\<close>, \<open>smt_utils.go\<close>, \<open>smt_state_reader.go\<close>): the traversal is the pre-order visit of
    the tree and ends; a lookup returns what was inserted, and ignores the key of the leaf it ends in.
  \<^item> \<open>SmtProof\<close> (\<open>proof.go\<close>): a proof that was built is accepted, and no accepted proof is wrong. An element of
    a proof is a slice with its spare capacity, into which Go's slice expressions may reach.
  \<^item> \<open>SmtClean\<close> (\<open>CheckOrphanedNodes\<close>): the clean-up keeps the nodes of the tree and loses their values.
  \<^item> \<open>SmtKeys\<close> (\<open>utils.go\<close>, \<open>mem-db.go\<close>): keys of accounts and slots, sources of keys, and the bytecode
    hash, whose byte-level version equals the string-level one.
  \<^item> \<open>SmtState\<close> (\<open>entity_storage.go\<close>, \<open>smt_state_reader.go\<close>): writing and reading accounts, contracts and
    slots. What is written for an account is read back, and parallel hashing of slots is the sequential
    one.

  \<^bold>\<open>Global exit roots\<close> (\<open>zk/l1infotree\<close>). \<open>L1InfoTree\<close>: building the root at once and leaf by leaf gives
  the root of the same perfect tree, and Merkle proofs climb to it. The locale \<open>leaf_accumulator\<close> is the
  interface of a tree that grows.

  \<^bold>\<open>Batch data.\<close> \<open>Rlp\<close> (\<open>rlp/encode.go\<close>, \<open>rlp/decode.go\<close>) with \<open>RlpSizes\<close>, \<open>RlpProps\<close> and \<open>RlpDecode\<close>:
  the encoder, which copies strings and list headers into a buffer of the computed size, gives the
  reference encoding, and the decoder accepts exactly the canonical ones.
  \<open>TxCodec\<close> (\<open>zk/tx/tx.go\<close>): decoding inverts encoding for whole batches, the size of the encoding is
  bounded, and the decoder panics only on data with a header type that fewer than eight bytes follow.

  \<^bold>\<open>Prover counters\<close> (\<open>core/vm\<close>). \<open>ZkLimits\<close> (\<open>zk_counters_limits.go\<close> and the X Layer variants): limits
  per fork and their range. \<open>ModExpCounters\<close> (\<open>virtual_counters_util.go\<close>): the estimate for modexp in
  closed form. \<open>ZkCounters\<close>, \<open>ZkCounterTable\<close> (\<open>zk_counters.go\<close>): every charge of an opcode or precompile
  keeps used plus remaining equal to the limit, and the P-256 precompile is undercharged for the points of
  its curve; the locale \<open>counter_table\<close> is the interface of the dispatch table. \<open>ZkBatchCounters\<close>
  (\<open>zk_transaction_counters.go\<close>, \<open>zk_batch_counters.go\<close>): the relation \<open>reach\<close> follows a batch through its
  operations in any order. In every such state the cached sums differ from the counters of the
  transactions by the use of those that are not committed and by what was lost (a charge or commit
  after the commit, the removal of an uncommitted transaction, clearing), the overflow check is exact
  for what it counts, and cloning the batch panics.

  \<^bold>\<open>Bounds and termination.\<close> No definition uses fuel. Loops that may not end are partial functions
  into \<open>option\<close>, and that they do end is proved: the traversal on every stored tree, \<open>ScalarToNodeKey\<close> on
  the numbers that are not negative, the padding on hexadecimal bytecode. All other functions are total.
  The depth of the tree is at most 256, the number of bits of a key. Theorems about the tree assume
  that the hash has no collision and no zero on the nodes of the trees at hand, not everywhere, so
  the hypothesis can hold for a hash into 256 bits; the witnesses evaluate it for small hashes.

  \<^bold>\<open>Not modelled.\<close>
  \<^item> \<open>smt_batch.go\<close> and \<open>smt_create.go\<close> (and \<open>SetStorage\<close>, which ends in \<open>InsertBatch\<close>): pointer-linked
    trees that are changed by goroutine pools.
  \<^item> \<open>InsertHashNode\<close>, which rebuilds a tree from a witness, and the printing of trees.
  \<^item> The databases on MDBX behind the interface \<open>DB\<close>, \<open>zk/hermez_db/db.go\<close>, and the key-value store: input
    and output through a C library.
  \<^item> Locks, the periodic clean-up goroutine, cancellation and progress channels; the interleaving of the
    workers that hash slots, which share nothing but the variable of an error that cannot occur.
  \<^item> The block info tree, which builds keys and values for the state tree with \<open>smt_batch.go\<close>.
  \<^item> Reflection-based RLP of Go structs, signing and hashing of transactions, \<open>DecodeTx\<close>.
  \<^item> Branches for 32-bit machines.
  \<^item> The upstream client: the interpreter of the virtual machine, consensus, networking, RPC, stages,
    pool, generated bindings and the command line; they orchestrate databases, timers and sockets.
\<close>

end
